(* ===== verification/Prelude.thy ===== *)
theory Prelude
  imports Main
begin

text \<open>
  What every component shares: the ways a C function can fail to return (\<open>fault\<close>), the result
  type with its sequencing \<open>bind_r\<close>, the triple-like predicate \<open>safe\<close> ("no undefined behaviour,
  no endless loop, and a normal return satisfies P"), 64-bit \<open>size_t\<close> arithmetic with the
  wrap-around written out, and the allocator as an oracle on request sizes.
\<close>

section \<open>Named collections\<close>

named_theorems c_simps \<open>evaluation of the C-level primitives\<close>
named_theorems safe_rules \<open>rules that show a computation safe\<close>

section \<open>Results\<close>

text \<open>
  \<open>Exit\<close> is the process ending through \<open>exit(1)\<close> (the \<open>ASSERT\<close>, \<open>CE\<close> and \<open>CEM\<close> macros) or a signal,
  \<open>Undefined\<close> is undefined behaviour of C (a null or dangling dereference, an access outside a
  block, a read of an indeterminate value, a double free), \<open>Diverge\<close> is a loop that never ends.
\<close>

datatype fault = Exit | Undefined | Diverge

type_synonym 'a res = "fault + 'a"

definition bind_r :: "'a res \<Rightarrow> ('a \<Rightarrow> 'b res) \<Rightarrow> 'b res" where
  "bind_r m f = (case m of Inl e \<Rightarrow> Inl e | Inr a \<Rightarrow> f a)"

lemma bind_r_simps [simp]:
  "bind_r (Inl e) f = Inl e"
  "bind_r (Inr a) f = f a"
  by (simp_all add: bind_r_def)

lemma bind_r_Inr_iff: "bind_r m f = Inr b \<longleftrightarrow> (\<exists>a. m = Inr a \<and> f a = Inr b)"
  by (cases m) simp_all

lemma bind_r_Inl_iff: "bind_r m f = Inl e \<longleftrightarrow> m = Inl e \<or> (\<exists>a. m = Inr a \<and> f a = Inl e)"
  by (cases m) simp_all

lemma bind_r_cong [fundef_cong]:
  "m = m' \<Longrightarrow> (\<And>a. m' = Inr a \<Longrightarrow> f a = f' a) \<Longrightarrow> bind_r m f = bind_r m' f'"
  by (cases m') simp_all

lemma bind_r_assoc: "bind_r (bind_r m f) g = bind_r m (\<lambda>a. bind_r (f a) g)"
  by (cases m) simp_all

text \<open>\<open>ASSERT(c)\<close> of \<open>common.h\<close>: the process exits unless \<open>c\<close> holds.\<close>

definition assert_r :: "bool \<Rightarrow> unit res" where
  "assert_r c = (if c then Inr () else Inl Exit)"

definition defined_r :: "bool \<Rightarrow> unit res" where
  "defined_r c = (if c then Inr () else Inl Undefined)"

lemma assert_r_simps [simp]:
  "c \<Longrightarrow> assert_r c = Inr ()"
  "\<not> c \<Longrightarrow> assert_r c = Inl Exit"
  "assert_r c = Inr u \<longleftrightarrow> c"
  by (simp_all add: assert_r_def)

lemma defined_r_simps [simp]:
  "c \<Longrightarrow> defined_r c = Inr ()"
  "\<not> c \<Longrightarrow> defined_r c = Inl Undefined"
  "defined_r c = Inr u \<longleftrightarrow> c"
  by (simp_all add: defined_r_def)

definition safe :: "'a res \<Rightarrow> ('a \<Rightarrow> bool) \<Rightarrow> bool" where
  "safe m P = (case m of Inl e \<Rightarrow> e = Exit | Inr a \<Rightarrow> P a)"

lemma safe_simps [simp]:
  "safe (Inr a) P = P a"
  "safe (Inl e) P = (e = Exit)"
  by (simp_all add: safe_def)

lemma safe_bind [safe_rules]:
  "safe m Q \<Longrightarrow> (\<And>a. m = Inr a \<Longrightarrow> Q a \<Longrightarrow> safe (f a) P) \<Longrightarrow> safe (bind_r m f) P"
  by (cases m) auto

lemma safe_mono: "safe m P \<Longrightarrow> (\<And>a. m = Inr a \<Longrightarrow> P a \<Longrightarrow> Q a) \<Longrightarrow> safe m Q"
  by (cases m) auto

lemma safe_conj: "safe m P \<Longrightarrow> safe m Q \<Longrightarrow> safe m (\<lambda>a. P a \<and> Q a)"
  by (cases m) auto

lemma safe_assert: "(c \<Longrightarrow> P ()) \<Longrightarrow> safe (assert_r c) P"
  by (cases c) auto

lemma safe_guard [safe_rules]: "(c \<Longrightarrow> safe (f ()) P) \<Longrightarrow> safe (bind_r (assert_r c) f) P"
  by (cases c) simp_all

lemma safe_defined: "c \<Longrightarrow> P () \<Longrightarrow> safe (defined_r c) P"
  by auto

lemma safe_if:
  "(c \<Longrightarrow> safe m P) \<Longrightarrow> (\<not> c \<Longrightarrow> safe n P) \<Longrightarrow> safe (if c then m else n) P"
  by simp

lemma safeD: "safe m P \<Longrightarrow> m = Inr a \<Longrightarrow> P a"
  by simp

text \<open>Undefined exactly when \<open>D\<close> holds, and safe otherwise.\<close>

definition undefined_when :: "bool \<Rightarrow> 'a res \<Rightarrow> ('a \<Rightarrow> bool) \<Rightarrow> bool" where
  "undefined_when D m P = (if D then m = Inl Undefined else safe m P)"

lemma undefined_when_mono:
  "undefined_when D m P \<Longrightarrow> (\<And>a. m = Inr a \<Longrightarrow> P a \<Longrightarrow> Q a) \<Longrightarrow> undefined_when D m Q"
  by (auto simp: undefined_when_def elim: safe_mono split: if_splits)

lemma undefined_when_bind:
  assumes "safe m Q" and "\<And>a. m = Inr a \<Longrightarrow> Q a \<Longrightarrow> undefined_when (D a) (f a) P"
  shows "undefined_when (case m of Inr a \<Rightarrow> D a | Inl _ \<Rightarrow> False) (bind_r m f) P"
  using assms by (cases m) (simp_all add: undefined_when_def)

section \<open>size_t\<close>

definition SIZE_MOD :: nat where
  "SIZE_MOD = 2 ^ 64"

definition sz_add :: "nat \<Rightarrow> nat \<Rightarrow> nat" where
  "sz_add a b = (a + b) mod SIZE_MOD"

definition sz_sub :: "nat \<Rightarrow> nat \<Rightarrow> nat" where
  "sz_sub a b = (a + (SIZE_MOD - b mod SIZE_MOD)) mod SIZE_MOD"

definition sz_mul :: "nat \<Rightarrow> nat \<Rightarrow> nat" where
  "sz_mul a b = (a * b) mod SIZE_MOD"

text \<open>Conversion of a signed 64-bit value to \<open>size_t\<close>.\<close>

definition sz_of_int :: "int \<Rightarrow> nat" where
  "sz_of_int i = nat (i mod 2 ^ 64)"

lemma SIZE_MOD_eq: "SIZE_MOD = 18446744073709551616"
  by (simp add: SIZE_MOD_def)

lemma SIZE_MOD_pos [simp]: "0 < SIZE_MOD"
  by (simp add: SIZE_MOD_def)

lemma sz_add_small [simp]: "a + b < SIZE_MOD \<Longrightarrow> sz_add a b = a + b"
  by (simp add: sz_add_def)

lemma sz_mul_small [simp]: "a * b < SIZE_MOD \<Longrightarrow> sz_mul a b = a * b"
  by (simp add: sz_mul_def)

lemma sz_sub_small [simp]: "b \<le> a \<Longrightarrow> a < SIZE_MOD \<Longrightarrow> sz_sub a b = a - b"
proof -
  assume "b \<le> a" "a < SIZE_MOD"
  then have "a + (SIZE_MOD - b) = (a - b) + SIZE_MOD" and "b mod SIZE_MOD = b" by simp_all
  then have "sz_sub a b = ((a - b) + SIZE_MOD) mod SIZE_MOD" by (simp only: sz_sub_def)
  with \<open>a < SIZE_MOD\<close> show ?thesis by simp
qed

lemma sz_add_lt [simp]: "sz_add a b < SIZE_MOD"
  and sz_sub_lt [simp]: "sz_sub a b < SIZE_MOD"
  and sz_mul_lt [simp]: "sz_mul a b < SIZE_MOD"
  by (simp_all add: sz_add_def sz_sub_def sz_mul_def)

lemma sz_sub_wraps: "a < b \<Longrightarrow> b < SIZE_MOD \<Longrightarrow> sz_sub a b = SIZE_MOD - (b - a)"
  by (simp add: sz_sub_def)

lemma sz_of_int_nonneg: "0 \<le> i \<Longrightarrow> i < 2 ^ 64 \<Longrightarrow> sz_of_int i = nat i"
  by (simp add: sz_of_int_def)

section \<open>The allocator\<close>

text \<open>
  \<open>al n\<close> says whether \<open>malloc\<close> or \<open>realloc\<close> grants a request of \<open>n\<close> bytes. The documented
  limit: a process of x86-64 has a 47-bit address space, so no larger request is granted.
\<close>

type_synonym allocator = "nat \<Rightarrow> bool"

definition ADDRESS_SPACE :: nat where
  "ADDRESS_SPACE = 2 ^ 47"

definition al_ok :: "allocator \<Rightarrow> bool" where
  "al_ok al = (\<forall>n. al n \<longrightarrow> n < ADDRESS_SPACE)"

definition generous :: allocator where
  "generous n = (n < ADDRESS_SPACE)"

lemma al_ok_generous [simp]: "al_ok generous"
  by (simp add: al_ok_def generous_def)

lemma al_okD: "al_ok al \<Longrightarrow> al n \<Longrightarrow> n < ADDRESS_SPACE"
  by (simp add: al_ok_def)

lemma ADDRESS_SPACE_eq: "ADDRESS_SPACE = 140737488355328"
  by (simp add: ADDRESS_SPACE_def)

section \<open>The range of int\<close>

definition INT_MIN :: int where
  "INT_MIN = - (2 ^ 31)"

definition INT_MAX :: int where
  "INT_MAX = 2 ^ 31 - 1"

section \<open>Lists\<close>

lemma map_nth_take: "k \<le> length xs \<Longrightarrow> map ((!) xs) [0..<k] = take k xs"
  by (rule nth_equalityI) auto

lemma nth_append_snoc: "i < length xs \<Longrightarrow> (xs @ [x]) ! i = xs ! i"
  by (simp add: nth_append)

end
