(* ===== verification/Cvector.thy ===== *)
theory Cvector
  imports Prelude
begin

text \<open>
  The generic vector of \<open>proxy/cvector_def.h\<close> and \<open>proxy/cvector_impl.h\<close>, instantiated by
  the proxy at \<open>char\<close>, \<open>header_t\<close> and \<open>pair_t\<close>. A heap block is its length in elements and a
  partial content: a cell without a value is allocated but indeterminate. The null pointer is
  the block of length 0. \<open>represents v xs\<close> is the abstraction: \<open>v\<close> is a well-formed vector
  that holds the list \<open>xs\<close>; every operation is shown to implement its list counterpart.
\<close>

section \<open>Heap blocks\<close>

record 'a block =
  blk_len :: nat
  blk_cell :: "nat \<Rightarrow> 'a option"

definition null_block :: "'a block" where
  "null_block = \<lparr>blk_len = 0, blk_cell = (\<lambda>_. None)\<rparr>"

definition fresh_block :: "nat \<Rightarrow> 'a block" where
  "fresh_block n = \<lparr>blk_len = n, blk_cell = (\<lambda>_. None)\<rparr>"

text \<open>Reading a value: outside the block or indeterminate is undefined.\<close>

definition load :: "'a block \<Rightarrow> nat \<Rightarrow> 'a res" where
  "load b i =
     (if i < blk_len b then (case blk_cell b i of Some x \<Rightarrow> Inr x | None \<Rightarrow> Inl Undefined)
      else Inl Undefined)"

definition store :: "'a block \<Rightarrow> nat \<Rightarrow> 'a \<Rightarrow> 'a block res" where
  "store b i x =
     (if i < blk_len b then Inr (b\<lparr>blk_cell := (blk_cell b)(i := Some x)\<rparr>) else Inl Undefined)"

text \<open>\<open>memcpy\<close> of one element inside a block; indeterminate bytes may be copied.\<close>

definition copy_cell :: "'a block \<Rightarrow> nat \<Rightarrow> nat \<Rightarrow> 'a block res" where
  "copy_cell b dst src =
     (if dst < blk_len b \<and> src < blk_len b
      then Inr (b\<lparr>blk_cell := (blk_cell b)(dst := blk_cell b src)\<rparr>) else Inl Undefined)"

text \<open>A run of bytes written by the kernel or by \<open>memcpy\<close>.\<close>

definition store_list :: "'a block \<Rightarrow> nat \<Rightarrow> 'a list \<Rightarrow> 'a block res" where
  "store_list b off xs =
     (if off + length xs \<le> blk_len b
      then Inr (b\<lparr>blk_cell := (\<lambda>i. if off \<le> i \<and> i < off + length xs then Some (xs ! (i - off))
                                    else blk_cell b i)\<rparr>)
      else Inl Undefined)"

definition realloc_block :: "'a block \<Rightarrow> nat \<Rightarrow> 'a block" where
  "realloc_block b n = \<lparr>blk_len = n, blk_cell = (\<lambda>i. if i < blk_len b \<and> i < n then blk_cell b i else None)\<rparr>"

section \<open>The vector and its operations\<close>

record 'a vec =
  ptr :: "'a block"
  cnt :: nat
  capacity :: nat

definition REALLOC_RATIO :: nat where
  "REALLOC_RATIO = 2"

text \<open>\<open>_get\<close> is pointer arithmetic; its callers read through the pointer, as this does.\<close>

definition vector_get :: "'a vec \<Rightarrow> nat \<Rightarrow> 'a res" where
  "vector_get v ind = load (ptr v) ind"

definition vector_assign :: "'a vec \<Rightarrow> 'a \<Rightarrow> nat \<Rightarrow> 'a vec res" where
  "vector_assign v el ind = bind_r (store (ptr v) ind el) (\<lambda>b. Inr (v\<lparr>ptr := b\<rparr>))"

definition vector_back :: "'a vec \<Rightarrow> 'a res" where
  "vector_back v = (if cnt v = 0 then Inl Undefined else load (ptr v) (cnt v - 1))"

definition vector_forced_alloc :: "allocator \<Rightarrow> nat \<Rightarrow> 'a vec \<Rightarrow> 'a vec res" where
  "vector_forced_alloc al esz v =
     (let capacity' = sz_add (sz_mul (capacity v) REALLOC_RATIO) 1; bytes = sz_mul capacity' esz
      in if al bytes
         then Inr (v\<lparr>capacity := capacity', ptr := realloc_block (ptr v) (bytes div esz)\<rparr>)
         else Inl Exit)"

definition vector_alloc :: "allocator \<Rightarrow> nat \<Rightarrow> 'a vec \<Rightarrow> 'a vec res" where
  "vector_alloc al esz v =
     (if cnt v = capacity v then vector_forced_alloc al esz v else Inr v)"

text \<open>
  The loop of \<open>_alloc2\<close>. Whatever the capacity is, it has reached \<open>SIZE_MAX\<close> after 64
  iterations and stays there (\<open>grow_fixpoint\<close> below), so a loop that is still running after
  \<open>ALLOC2_FUEL\<close> iterations never stops.
\<close>

definition ALLOC2_FUEL :: nat where
  "ALLOC2_FUEL = 65"

fun alloc2_loop :: "nat \<Rightarrow> allocator \<Rightarrow> nat \<Rightarrow> 'a vec \<Rightarrow> nat \<Rightarrow> 'a vec res" where
  "alloc2_loop 0 al esz v n = (if sz_sub (capacity v) (cnt v) < n then Inl Diverge else Inr v)"
| "alloc2_loop (Suc fuel) al esz v n =
     (if sz_sub (capacity v) (cnt v) < n
      then bind_r (vector_forced_alloc al esz v) (\<lambda>v'. alloc2_loop fuel al esz v' n)
      else Inr v)"

definition vector_alloc2 :: "allocator \<Rightarrow> nat \<Rightarrow> 'a vec \<Rightarrow> nat \<Rightarrow> 'a vec res" where
  "vector_alloc2 al esz v n = alloc2_loop ALLOC2_FUEL al esz v n"

definition vector_push_back :: "allocator \<Rightarrow> nat \<Rightarrow> 'a vec \<Rightarrow> 'a \<Rightarrow> 'a vec res" where
  "vector_push_back al esz v el =
     bind_r (vector_alloc al esz v) (\<lambda>v.
     bind_r (store (ptr v) (cnt v) el) (\<lambda>b.
     Inr (v\<lparr>ptr := b, cnt := sz_add (cnt v) 1\<rparr>)))"

definition vector_pop_back :: "'a vec \<Rightarrow> 'a vec" where
  "vector_pop_back v = v\<lparr>cnt := sz_sub (cnt v) 1\<rparr>"

fun remove_loop :: "nat \<Rightarrow> 'a block \<Rightarrow> nat \<Rightarrow> 'a block res" where
  "remove_loop 0 b i = Inr b"
| "remove_loop (Suc k) b i = bind_r (copy_cell b i (i + 1)) (\<lambda>b'. remove_loop k b' (i + 1))"

text \<open>The loop runs for \<open>i = ind, ..., cnt - 1\<close>, that is \<open>cnt - ind\<close> times.\<close>

definition vector_remove :: "'a vec \<Rightarrow> nat \<Rightarrow> 'a vec res" where
  "vector_remove v ind =
     bind_r (remove_loop (cnt v - ind) (ptr v) ind) (\<lambda>b.
     Inr (v\<lparr>ptr := b, cnt := sz_sub (cnt v) 1\<rparr>))"

definition vector_init :: "'a vec \<Rightarrow> 'a vec" where
  "vector_init v = v\<lparr>cnt := 0, ptr := null_block, capacity := 0\<rparr>"

text \<open>\<open>free\<close> of the block, then \<open>_init\<close>; the null pointer may be freed.\<close>

definition vector_free :: "'a vec \<Rightarrow> 'a vec" where
  "vector_free v = vector_init v"

text \<open>\<open>_free_ptr\<close> frees what each element points to; \<open>fr\<close> is \<open>free\<close> on the heap \<open>h\<close>.\<close>

fun free_ptr_loop :: "('a \<Rightarrow> 'h \<Rightarrow> 'h res) \<Rightarrow> nat \<Rightarrow> 'a block \<Rightarrow> nat \<Rightarrow> 'h \<Rightarrow> 'h res" where
  "free_ptr_loop fr 0 b i h = Inr h"
| "free_ptr_loop fr (Suc k) b i h =
     bind_r (load b i) (\<lambda>p. bind_r (fr p h) (\<lambda>h'. free_ptr_loop fr k b (i + 1) h'))"

definition vector_free_ptr :: "('a \<Rightarrow> 'h \<Rightarrow> 'h res) \<Rightarrow> 'a vec \<Rightarrow> 'h \<Rightarrow> ('a vec \<times> 'h) res" where
  "vector_free_ptr fr v h =
     bind_r (free_ptr_loop fr (cnt v) (ptr v) 0 h) (\<lambda>h'. Inr (vector_free v, h'))"

section \<open>Block lemmas\<close>

lemma load_Inr: "load b i = Inr x \<longleftrightarrow> i < blk_len b \<and> blk_cell b i = Some x"
  by (auto simp: load_def split: option.splits)

lemma store_in_block [simp]:
  "i < blk_len b \<Longrightarrow> store b i x = Inr (b\<lparr>blk_cell := (blk_cell b)(i := Some x)\<rparr>)"
  by (simp add: store_def)

lemma store_list_in_block:
  "off + length xs \<le> blk_len b \<Longrightarrow>
   \<exists>b'. store_list b off xs = Inr b' \<and> blk_len b' = blk_len b \<and>
     (\<forall>i. blk_cell b' i = (if off \<le> i \<and> i < off + length xs then Some (xs ! (i - off)) else blk_cell b i))"
  by (simp add: store_list_def)

lemma load_realloc: "i < n \<Longrightarrow> i < blk_len b \<Longrightarrow> load (realloc_block b n) i = load b i"
  by (simp add: load_def realloc_block_def)

section \<open>What a vector represents\<close>

definition elem_size :: "nat \<Rightarrow> bool" where
  "elem_size esz = (0 < esz \<and> esz \<le> 4096)"

definition represents :: "nat \<Rightarrow> 'a vec \<Rightarrow> 'a list \<Rightarrow> bool" where
  "represents esz v xs =
     (elem_size esz \<and> blk_len (ptr v) = capacity v \<and> cnt v = length xs \<and> cnt v \<le> capacity v \<and>
      capacity v * esz < ADDRESS_SPACE \<and> (\<forall>i < length xs. blk_cell (ptr v) i = Some (xs ! i)))"

lemma representsD:
  assumes "represents esz v xs"
  shows "blk_len (ptr v) = capacity v" "cnt v = length xs" "length xs \<le> capacity v"
    "capacity v < ADDRESS_SPACE" "\<And>i. i < length xs \<Longrightarrow> blk_cell (ptr v) i = Some (xs ! i)"
    "elem_size esz" "capacity v * esz < ADDRESS_SPACE"
proof -
  have "capacity v * 1 \<le> capacity v * esz"
    by (rule mult_le_mono2) (use assms in \<open>simp add: represents_def elem_size_def\<close>)
  moreover have "capacity v * esz < ADDRESS_SPACE" using assms by (simp add: represents_def)
  ultimately show "capacity v < ADDRESS_SPACE" by linarith
qed (use assms in \<open>simp_all add: represents_def\<close>)

lemma represents_size:
  "represents esz v xs \<Longrightarrow> capacity v < SIZE_MOD - ADDRESS_SPACE \<and> length xs + ADDRESS_SPACE < SIZE_MOD"
  using representsD(3,4)[of esz v xs] by (simp add: ADDRESS_SPACE_eq SIZE_MOD_eq)

lemma represents_unique: "represents esz v xs \<Longrightarrow> represents esz v ys \<Longrightarrow> xs = ys"
  by (rule nth_equalityI) (auto simp: represents_def)

lemma vector_init_represents: "elem_size esz \<Longrightarrow> represents esz (vector_init v) []"
  by (simp add: represents_def vector_init_def null_block_def ADDRESS_SPACE_eq)

lemma vector_get_represents: "represents esz v xs \<Longrightarrow> i < length xs \<Longrightarrow> vector_get v i = Inr (xs ! i)"
  by (auto simp: vector_get_def load_Inr represents_def)

lemma vector_back_represents: "represents esz v xs \<Longrightarrow> xs \<noteq> [] \<Longrightarrow> vector_back v = Inr (last xs)"
  by (cases xs rule: rev_cases) (auto simp: vector_back_def load_Inr represents_def)

lemma vector_assign_represents:
  "represents esz v xs \<Longrightarrow> i < length xs \<Longrightarrow>
   \<exists>v'. vector_assign v x i = Inr v' \<and> represents esz v' (xs[i := x])"
  by (auto simp: vector_assign_def represents_def nth_list_update)

section \<open>Growth\<close>

text \<open>What \<open>_forced_alloc\<close> does in the range where nothing wraps.\<close>

lemma vector_forced_alloc_eq:
  assumes "represents esz v xs"
  shows "vector_forced_alloc al esz v =
    (if al ((2 * capacity v + 1) * esz)
     then Inr (v\<lparr>capacity := 2 * capacity v + 1, ptr := realloc_block (ptr v) (2 * capacity v + 1)\<rparr>)
     else Inl Exit)"
proof -
  have c: "capacity v < ADDRESS_SPACE" "capacity v * esz < ADDRESS_SPACE" "0 < esz" "esz \<le> 4096"
    using representsD[OF assms] by (simp_all add: elem_size_def)
  have "sz_add (sz_mul (capacity v) REALLOC_RATIO) 1 = 2 * capacity v + 1"
    using c by (simp add: REALLOC_RATIO_def ADDRESS_SPACE_eq SIZE_MOD_eq)
  moreover have "sz_mul (2 * capacity v + 1) esz = (2 * capacity v + 1) * esz"
  proof -
    have "(2 * capacity v + 1) * esz = 2 * (capacity v * esz) + esz" by (simp add: algebra_simps)
    also have "\<dots> < SIZE_MOD" using c by (simp add: ADDRESS_SPACE_eq SIZE_MOD_eq)
    finally show ?thesis by (rule sz_mul_small)
  qed
  moreover have "(2 * capacity v + 1) * esz div esz = 2 * capacity v + 1"
    using c(3) by (intro nonzero_mult_div_cancel_right) simp
  ultimately show ?thesis unfolding vector_forced_alloc_def Let_def by (simp only:)
qed

lemma vector_forced_alloc_represents:
  assumes "represents esz v xs" "al_ok al" "al ((2 * capacity v + 1) * esz)"
  shows "represents esz (v\<lparr>capacity := 2 * capacity v + 1,
    ptr := realloc_block (ptr v) (2 * capacity v + 1)\<rparr>) xs"
  using assms(1) al_okD[OF assms(2,3)] by (auto simp: represents_def realloc_block_def)

lemma vector_forced_alloc_safe [safe_rules]:
  assumes "represents esz v xs" and "al_ok al"
  shows "safe (vector_forced_alloc al esz v)
    (\<lambda>v'. represents esz v' xs \<and> capacity v' = 2 * capacity v + 1)"
  using vector_forced_alloc_represents[OF assms] by (simp add: vector_forced_alloc_eq[OF assms(1)])

text \<open>
  \<open>_alloc2\<close> stops inside the address space: each round at least doubles \<open>capacity + 1\<close>, so
  \<open>fuel\<close> rounds are enough once \<open>2 ^ fuel * (capacity + 1)\<close> exceeds it.
\<close>

lemma sz_sub_represents: "represents esz v xs \<Longrightarrow> sz_sub (capacity v) (cnt v) = capacity v - cnt v"
  using representsD(2,3,4)[of esz v xs] by (simp add: ADDRESS_SPACE_eq SIZE_MOD_eq)

definition has_room :: "nat \<Rightarrow> 'a list \<Rightarrow> nat \<Rightarrow> 'a vec \<Rightarrow> bool" where
  "has_room esz xs n v = (represents esz v xs \<and> n \<le> capacity v - length xs)"

lemma alloc2_loop_safe:
  assumes "represents esz v xs" and "al_ok al" and "ADDRESS_SPACE < 2 ^ fuel * (capacity v + 1)"
  shows "safe (alloc2_loop fuel al esz v n) (\<lambda>v'. has_room esz xs n v' \<and> capacity v \<le> capacity v')"
  using assms
proof (induction fuel arbitrary: v)
  case 0
  then show ?case using representsD(4)[OF 0(1)] by simp
next
  case (Suc fuel)
  note sub = sz_sub_represents[OF Suc.prems(1)]
  have step: "safe (alloc2_loop fuel al esz v' n) (\<lambda>w. has_room esz xs n w \<and> capacity v \<le> capacity w)"
    if "represents esz v' xs \<and> capacity v' = 2 * capacity v + 1" for v'
    by (rule safe_mono[OF Suc.IH]) (use that Suc.prems in \<open>auto simp: algebra_simps\<close>)
  have "safe (bind_r (vector_forced_alloc al esz v) (\<lambda>v'. alloc2_loop fuel al esz v' n))
      (\<lambda>w. has_room esz xs n w \<and> capacity v \<le> capacity w)"
    by (rule safe_bind[OF vector_forced_alloc_safe[OF Suc.prems(1,2)]]) (rule step)
  then show ?case
    using Suc.prems(1) sub representsD(2)[OF Suc.prems(1)] by (simp add: has_room_def)
qed

lemma vector_alloc2_safe [safe_rules]:
  assumes "represents esz v xs" and "al_ok al"
  shows "safe (vector_alloc2 al esz v n) (\<lambda>v'. has_room esz xs n v' \<and> capacity v \<le> capacity v')"
proof -
  have "ADDRESS_SPACE < 2 ^ ALLOC2_FUEL" by (simp add: ADDRESS_SPACE_def ALLOC2_FUEL_def)
  also have "\<dots> \<le> 2 ^ ALLOC2_FUEL * (capacity v + 1)" by simp
  finally show ?thesis unfolding vector_alloc2_def by (rule alloc2_loop_safe[OF assms])
qed

text \<open>The fuel decides divergence: more rounds than \<open>ALLOC2_FUEL\<close> never change the outcome.\<close>

definition grow :: "nat \<Rightarrow> nat" where
  "grow c = sz_add (sz_mul c REALLOC_RATIO) 1"

lemma grow_power: "(grow ^^ k) c mod SIZE_MOD = (2 ^ k * (c + 1) + (SIZE_MOD - 1)) mod SIZE_MOD"
proof (induction k)
  case 0
  have "1 * (c + 1) + (SIZE_MOD - 1) = c + SIZE_MOD" by (simp add: SIZE_MOD_eq)
  then show ?case by (simp only: funpow_0 power_0 mod_add_self2)
next
  case (Suc k)
  let ?a = "(grow ^^ k) c" and ?b = "2 ^ k * (c + 1)"
  have "grow ?a mod SIZE_MOD = (2 * ?a + 1) mod SIZE_MOD"
    by (simp add: grow_def sz_add_def sz_mul_def REALLOC_RATIO_def mod_simps mult.commute)
  also have "\<dots> = (2 * (?a mod SIZE_MOD) + 1) mod SIZE_MOD"
    by (metis mod_add_left_eq mod_mult_right_eq)
  also have "\<dots> = (2 * (?b + (SIZE_MOD - 1)) + 1) mod SIZE_MOD"
    unfolding Suc.IH by (metis mod_add_left_eq mod_mult_right_eq)
  also have "2 * (?b + (SIZE_MOD - 1)) + 1 = 2 * ?b + (SIZE_MOD - 1) + SIZE_MOD"
    by (simp add: SIZE_MOD_eq)
  also have "\<dots> mod SIZE_MOD = (2 * ?b + (SIZE_MOD - 1)) mod SIZE_MOD" by simp
  finally show ?case by (simp add: mult.assoc)
qed

lemma grow_fixpoint: "64 \<le> k \<Longrightarrow> (grow ^^ k) c = SIZE_MOD - 1"
proof -
  assume k: "64 \<le> k"
  then obtain j where j: "k = 64 + j" using le_Suc_ex by blast
  have "(grow ^^ k) c < SIZE_MOD" using k by (cases k) (simp_all add: grow_def)
  moreover have "2 ^ k * (c + 1) + (SIZE_MOD - 1) = (SIZE_MOD - 1) + SIZE_MOD * (2 ^ j * (c + 1))"
    unfolding j power_add SIZE_MOD_def by (simp only: ac_simps)
  then have "(2 ^ k * (c + 1) + (SIZE_MOD - 1)) mod SIZE_MOD = SIZE_MOD - 1"
    by (simp only: mod_mult_self2) (simp add: SIZE_MOD_eq)
  ultimately show ?thesis using grow_power[of k c] by simp
qed

lemma capacity_forced_alloc:
  "vector_forced_alloc al esz v = Inr v' \<Longrightarrow> capacity v' = grow (capacity v) \<and> cnt v' = cnt v"
  by (auto simp: vector_forced_alloc_def grow_def Let_def split: if_splits)

lemma alloc2_loop_diverges:
  "alloc2_loop fuel al esz v n = Inl Diverge \<Longrightarrow> k \<le> fuel \<Longrightarrow>
   sz_sub ((grow ^^ k) (capacity v)) (cnt v) < n \<and>
   (k < fuel \<longrightarrow> al (sz_mul ((grow ^^ (k + 1)) (capacity v)) esz))"
proof (induction fuel arbitrary: v k)
  case 0
  then show ?case by (simp split: if_splits)
next
  case (Suc fuel)
  from Suc.prems(1) have run: "sz_sub (capacity v) (cnt v) < n"
    and "bind_r (vector_forced_alloc al esz v) (\<lambda>v'. alloc2_loop fuel al esz v' n) = Inl Diverge"
    by (simp_all split: if_splits)
  moreover have "vector_forced_alloc al esz v \<noteq> Inl Diverge"
    by (simp add: vector_forced_alloc_def Let_def)
  ultimately obtain v' where v': "vector_forced_alloc al esz v = Inr v'"
      "alloc2_loop fuel al esz v' n = Inl Diverge"
    by (auto simp: bind_r_Inl_iff)
  have al: "al (sz_mul (grow (capacity v)) esz)"
    using v'(1) by (auto simp: vector_forced_alloc_def grow_def Let_def split: if_splits)
  note cap = capacity_forced_alloc[OF v'(1)]
  show ?case
  proof (cases k)
    case 0
    then show ?thesis using run al by simp
  next
    case (Suc j)
    then show ?thesis using Suc.IH[OF v'(2), of j] Suc.prems(2) cap
      by (simp add: funpow_swap1)
  qed
qed

lemma alloc2_loop_diverges_more:
  assumes "alloc2_loop ALLOC2_FUEL al esz v n = Inl Diverge"
  shows "alloc2_loop fuel al esz v n = Inl Diverge"
proof -
  have guard: "sz_sub ((grow ^^ k) (capacity v)) (cnt v) < n"
    and grant: "al (sz_mul ((grow ^^ (k + 1)) (capacity v)) esz)" for k
  proof -
    have d: "j \<le> 65 \<Longrightarrow> sz_sub ((grow ^^ j) (capacity v)) (cnt v) < n \<and>
        (j < 65 \<longrightarrow> al (sz_mul ((grow ^^ (j + 1)) (capacity v)) esz))" for j
      using alloc2_loop_diverges[OF assms, of j] by (simp add: ALLOC2_FUEL_def)
    show "sz_sub ((grow ^^ k) (capacity v)) (cnt v) < n"
      using d[of k] d[of 64] grow_fixpoint[of k] grow_fixpoint[of 64] by (cases "k \<le> 64") auto
    show "al (sz_mul ((grow ^^ (k + 1)) (capacity v)) esz)"
      using d[of k] d[of 64] grow_fixpoint[of "k + 1"] grow_fixpoint[of "64 + 1"]
      by (cases "k \<le> 64") auto
  qed
  have "alloc2_loop f al esz w n = Inl Diverge"
    if "capacity w = (grow ^^ k) (capacity v)" "cnt w = cnt v" for f w k
    using that
  proof (induction f arbitrary: w k)
    case 0
    then show ?case using guard[of k] by simp
  next
    case (Suc f)
    have "al (sz_mul (grow (capacity w)) esz)" using grant[of k] Suc.prems(1) by simp
    then obtain w' where w': "vector_forced_alloc al esz w = Inr w'"
      by (auto simp: vector_forced_alloc_def grow_def Let_def)
    have "alloc2_loop f al esz w' n = Inl Diverge"
      using capacity_forced_alloc[OF w'] Suc.prems by (intro Suc.IH[of _ "k + 1"]) simp_all
    then show ?case using guard[of k] Suc.prems w' by simp
  qed
  from this[of v 0] show ?thesis by simp
qed

section \<open>push, pop, remove\<close>

lemma vector_push_back_spec:
  assumes rep: "represents esz v xs" and al: "al_ok al"
  shows "case vector_push_back al esz v x of
      Inr v' \<Rightarrow> represents esz v' (xs @ [x])
    | Inl e \<Rightarrow> e = Exit \<and> length xs = capacity v \<and> \<not> al ((2 * capacity v + 1) * esz)"
proof -
  note r = representsD[OF rep]
  have put: "case bind_r (store (ptr w) (cnt w) x) (\<lambda>b. Inr (w\<lparr>ptr := b, cnt := sz_add (cnt w) 1\<rparr>)) of
      Inr v' \<Rightarrow> represents esz v' (xs @ [x]) | Inl e \<Rightarrow> False"
    if w: "represents esz w xs" "length xs < capacity w" for w
    using representsD[OF w(1)] w(2)
    by (auto simp: represents_def nth_append less_Suc_eq ADDRESS_SPACE_eq SIZE_MOD_eq)
  show ?thesis
  proof (cases "length xs = capacity v")
    case False
    then show ?thesis using put[OF rep] r(2,3)
      by (auto simp: vector_push_back_def vector_alloc_def split: sum.splits)
  next
    case True
    show ?thesis
    proof (cases "al ((2 * capacity v + 1) * esz)")
      case False
      then show ?thesis using True r(2)
        by (simp add: vector_push_back_def vector_alloc_def vector_forced_alloc_eq[OF rep] del: mult_Suc)
    next
      case alY: True
      let ?w = "v\<lparr>capacity := 2 * capacity v + 1, ptr := realloc_block (ptr v) (2 * capacity v + 1)\<rparr>"
      have "vector_alloc al esz v = Inr ?w"
        using True r(2) alY unfolding vector_alloc_def vector_forced_alloc_eq[OF rep] by (simp only: if_True simp_thms)
      moreover have "represents esz ?w xs" by (rule vector_forced_alloc_represents[OF rep al alY])
      ultimately show ?thesis using put[of ?w] True
        by (auto simp: vector_push_back_def split: sum.splits)
    qed
  qed
qed

lemma vector_push_back_safe [safe_rules]:
  "represents esz v xs \<Longrightarrow> al_ok al \<Longrightarrow>
   safe (vector_push_back al esz v x) (\<lambda>v'. represents esz v' (xs @ [x]))"
  using vector_push_back_spec[of esz v xs al x] by (cases "vector_push_back al esz v x") auto

lemma vector_pop_back_represents:
  "represents esz v (xs @ [x]) \<Longrightarrow> represents esz (vector_pop_back v) xs"
  using represents_size[of esz v "xs @ [x]"]
  by (auto simp: represents_def vector_pop_back_def nth_append)

lemma vector_pop_back_empty: "represents esz v [] \<Longrightarrow> cnt (vector_pop_back v) = SIZE_MOD - 1"
  by (simp add: vector_pop_back_def represents_def sz_sub_wraps SIZE_MOD_eq)

lemma remove_loop_ok:
  "i + k < blk_len b \<Longrightarrow>
   \<exists>b'. remove_loop k b i = Inr b' \<and> blk_len b' = blk_len b \<and>
     (\<forall>j. blk_cell b' j = (if i \<le> j \<and> j < i + k then blk_cell b (j + 1) else blk_cell b j))"
proof (induction k arbitrary: b i)
  case 0
  then show ?case by auto
next
  case (Suc k)
  let ?b = "b\<lparr>blk_cell := (blk_cell b)(i := blk_cell b (i + 1))\<rparr>"
  obtain b' where b': "remove_loop k ?b (i + 1) = Inr b'" "blk_len b' = blk_len b"
      "\<forall>j. blk_cell b' j = (if i + 1 \<le> j \<and> j < i + 1 + k then blk_cell ?b (j + 1) else blk_cell ?b j)"
    using Suc.IH[of "i + 1" ?b] Suc.prems by auto
  have "remove_loop (Suc k) b i = Inr b'" using b'(1) Suc.prems by (simp add: copy_cell_def)
  moreover have "\<forall>j. blk_cell b' j = (if i \<le> j \<and> j < i + Suc k then blk_cell b (j + 1) else blk_cell b j)"
    using b'(3) by auto
  ultimately show ?case using b'(2) by blast
qed

lemma remove_loop_overrun: "i + k = blk_len b \<Longrightarrow> 0 < k \<Longrightarrow> remove_loop k b i = Inl Undefined"
proof (induction k arbitrary: b i)
  case 0
  then show ?case by simp
next
  case (Suc k)
  show ?case
    using Suc.prems Suc.IH[of "i + 1" "b\<lparr>blk_cell := (blk_cell b)(i := blk_cell b (i + 1))\<rparr>"]
    by (cases "k = 0") (simp_all add: copy_cell_def)
qed

text \<open>
  \<open>_remove\<close> drops the element at \<open>ind\<close> when the block has a spare cell; when the vector is full
  its last copy reads one element past the block.
\<close>

lemma vector_remove_spec:
  assumes rep: "represents esz v xs" and i: "ind < length xs"
  shows "if length xs < capacity v
    then \<exists>v'. vector_remove v ind = Inr v' \<and> represents esz v' (take ind xs @ drop (Suc ind) xs)
    else vector_remove v ind = Inl Undefined"
proof (cases "length xs < capacity v")
  case False
  then show ?thesis using representsD[OF rep] i remove_loop_overrun[of ind "cnt v - ind" "ptr v"]
    by (simp add: vector_remove_def)
next
  case True
  note r = representsD[OF rep]
  obtain b where b: "remove_loop (cnt v - ind) (ptr v) ind = Inr b" "blk_len b = capacity v"
      "\<forall>j. blk_cell b j = (if ind \<le> j \<and> j < length xs then blk_cell (ptr v) (j + 1) else blk_cell (ptr v) j)"
    using remove_loop_ok[of ind "cnt v - ind" "ptr v"] r i True by auto
  have "represents esz (v\<lparr>ptr := b, cnt := sz_sub (cnt v) 1\<rparr>) (take ind xs @ drop (Suc ind) xs)"
    using r b i by (auto simp: represents_def nth_append ADDRESS_SPACE_eq SIZE_MOD_eq)
  then show ?thesis using True b(1) by (simp add: vector_remove_def)
qed

section \<open>The interface its clients use\<close>

text \<open>
  The parser, the hash map and the handler use a vector in two ways: a loop that reads elements
  until one matches, and a loop that pushes transformed elements into another vector. Both loops
  are stated over the operations alone, and their lemmas are proved once from the laws.
\<close>

fun scan :: "(nat \<Rightarrow> 'a res) \<Rightarrow> ('a \<Rightarrow> bool res) \<Rightarrow> nat \<Rightarrow> nat \<Rightarrow> nat option res" where
  "scan get p 0 i = Inr None"
| "scan get p (Suc k) i =
     bind_r (get i) (\<lambda>x. bind_r (p x) (\<lambda>hit. if hit then Inr (Some i) else scan get p k (i + 1)))"

fun transfer :: "(nat \<Rightarrow> 'a res) \<Rightarrow> ('a \<Rightarrow> 'b res) \<Rightarrow> ('w \<Rightarrow> 'b \<Rightarrow> 'w res) \<Rightarrow> nat \<Rightarrow> nat \<Rightarrow> 'w \<Rightarrow> 'w res" where
  "transfer get f push 0 i w = Inr w"
| "transfer get f push (Suc k) i w =
     bind_r (get i) (\<lambda>x. bind_r (f x) (\<lambda>y. bind_r (push w y) (\<lambda>w'. transfer get f push k (i + 1) w')))"

fun first_index :: "('a \<Rightarrow> bool) \<Rightarrow> 'a list \<Rightarrow> nat option" where
  "first_index q [] = None"
| "first_index q (x # xs) = (if q x then Some 0 else map_option Suc (first_index q xs))"

lemma first_index_None: "first_index q xs = None \<longleftrightarrow> (\<forall>x \<in> set xs. \<not> q x)"
  by (induction xs) auto

lemma first_index_Some:
  "first_index q xs = Some i \<longleftrightarrow> i < length xs \<and> q (xs ! i) \<and> (\<forall>j < i. \<not> q (xs ! j))"
proof (induction xs arbitrary: i)
  case Nil
  then show ?case by simp
next
  case (Cons x xs)
  then show ?case by (cases i) (auto simp: less_Suc_eq_0_disj)
qed

lemma map_option_plus_0: "map_option ((+) (0::nat)) x = x"
  by (cases x) simp_all

locale vector_ops =
  fixes abs :: "'v \<Rightarrow> 'a list \<Rightarrow> bool"
    and get :: "'v \<Rightarrow> nat \<Rightarrow> 'a res"
    and len :: "'v \<Rightarrow> nat"
    and push :: "'al \<Rightarrow> 'v \<Rightarrow> 'a \<Rightarrow> 'v res"
    and granting :: "'al \<Rightarrow> bool"
  assumes len_abs: "abs v xs \<Longrightarrow> len v = length xs"
    and get_abs: "abs v xs \<Longrightarrow> i < length xs \<Longrightarrow> get v i = Inr (xs ! i)"
    and push_abs: "abs v xs \<Longrightarrow> granting al \<Longrightarrow> safe (push al v x) (\<lambda>v'. abs v' (xs @ [x]))"
begin

lemma scan_from:
  assumes "abs v xs" and "\<And>x. x \<in> set xs \<Longrightarrow> p x = Inr (q x)" and "i + k = length xs"
  shows "scan (get v) p k i = Inr (map_option ((+) i) (first_index q (drop i xs)))"
  using assms(3)
proof (induction k arbitrary: i)
  case 0
  then show ?case by simp
next
  case (Suc k)
  then have i: "i < length xs" by simp
  have "drop i xs = xs ! i # drop (Suc i) xs" using i by (rule Cons_nth_drop_Suc[symmetric])
  moreover have "p (xs ! i) = Inr (q (xs ! i))" using i by (intro assms(2)) simp
  ultimately show ?case
    using Suc.IH[of "Suc i"] Suc.prems get_abs[OF assms(1) i]
    by (simp add: option.map_comp comp_def)
qed

lemma scan_all:
  assumes "abs v xs" and "\<And>x. x \<in> set xs \<Longrightarrow> p x = Inr (q x)"
  shows "scan (get v) p (len v) 0 = Inr (first_index q xs)"
  using scan_from[where i = 0 and k = "len v", OF assms] len_abs[OF assms(1)]
  by (simp add: map_option_plus_0)

lemma transfer_from:
  assumes "granting al" and "i + k = length ys" and "abs w zs"
    and "\<And>j. j < length ys \<Longrightarrow> src j = Inr (ys ! j)"
    and "\<And>y. y \<in> set ys \<Longrightarrow> safe (f y) (\<lambda>x. x = g y)"
  shows "safe (transfer src f (push al) k i w) (\<lambda>w'. abs w' (zs @ map g (drop i ys)))"
  using assms(2,3)
proof (induction k arbitrary: i w zs)
  case 0
  then show ?case by simp
next
  case (Suc k)
  then have i: "i < length ys" by simp
  have d: "drop i ys = ys ! i # drop (Suc i) ys" using i by (rule Cons_nth_drop_Suc[symmetric])
  have "safe (bind_r (f (ys ! i)) (\<lambda>y. bind_r (push al w y) (\<lambda>w'. transfer src f (push al) k (i + 1) w')))
      (\<lambda>w'. abs w' (zs @ map g (drop i ys)))"
  proof (rule safe_bind[OF assms(5)])
    show "ys ! i \<in> set ys" using i by simp
  next
    fix a
    assume a: "a = g (ys ! i)"
    show "safe (bind_r (push al w a) (\<lambda>w'. transfer src f (push al) k (i + 1) w'))
        (\<lambda>w'. abs w' (zs @ map g (drop i ys)))"
    proof (rule safe_bind[OF push_abs[OF Suc.prems(2) assms(1)]])
      fix w'
      assume "abs w' (zs @ [a])"
      from Suc.IH[OF _ this, of "i + 1"] Suc.prems(1)
      show "safe (transfer src f (push al) k (i + 1) w') (\<lambda>w'. abs w' (zs @ map g (drop i ys)))"
        by (simp add: d a)
    qed
  qed
  then show ?case using assms(4)[OF i] by simp
qed

end

interpretation cv: vector_ops "represents esz" vector_get cnt "\<lambda>al. vector_push_back al esz" al_ok
  for esz
  by unfold_locales
    (auto simp: vector_get_represents vector_push_back_safe dest: representsD(2))

end
