(* ===== verification/Cstring.thy ===== *)
theory Cstring
  imports Cvector
begin

text \<open>
  C strings: the string that starts at an offset of a block, the library functions of
  \<open>string.h\<close> and \<open>stdlib.h\<close> the program calls (\<open>strcmp\<close>, \<open>strstr\<close>, \<open>strlen\<close>, \<open>strtol\<close>), and
  owned string pointers. A \<open>cstr\<close> is the pointer with what it points to: null, a live string
  (its bytes before the terminator), or a block that was freed.
\<close>

section \<open>Strings in memory\<close>

abbreviation NUL :: char where
  "NUL \<equiv> CHR 0x00"

function cstring_at :: "char block \<Rightarrow> nat \<Rightarrow> char list res" where
  "cstring_at b p =
     (if p < blk_len b
      then (case blk_cell b p of
              None \<Rightarrow> Inl Undefined
            | Some c \<Rightarrow> if c = NUL then Inr [] else bind_r (cstring_at b (p + 1)) (\<lambda>s. Inr (c # s)))
      else Inl Undefined)"
  by pat_completeness auto
termination
  by (relation "measure (\<lambda>(b, p). blk_len b - p)") auto

declare cstring_at.simps [simp del]

abbreviation c_string :: "char list \<Rightarrow> char list" where
  "c_string bs \<equiv> takeWhile (\<lambda>c. c \<noteq> NUL) bs"

text \<open>A block that holds \<open>bs\<close> and a terminator after it.\<close>

lemma cstring_at_terminated:
  assumes "length bs < blk_len b" and "\<forall>i < length bs. blk_cell b i = Some (bs ! i)"
    and "blk_cell b (length bs) = Some NUL" and "p \<le> length bs"
  shows "cstring_at b p = Inr (c_string (drop p bs))"
  using assms(4)
proof (induction "length bs - p" arbitrary: p)
  case 0
  then show ?case using assms(1,3) by (simp add: cstring_at.simps)
next
  case (Suc k)
  then have p: "p < length bs" by simp
  then have d: "drop p bs = bs ! p # drop (Suc p) bs" by (rule Cons_nth_drop_Suc[symmetric])
  have "cstring_at b (Suc p) = Inr (c_string (drop (Suc p) bs))" using Suc p by (intro Suc.hyps(1)) auto
  then show ?case using assms(1,2) p d by (subst cstring_at.simps) simp
qed

section \<open>Library functions\<close>

text \<open>\<open>strcmp\<close> compares as \<open>unsigned char\<close>; the sign of the result is what C specifies.\<close>

fun strcmp :: "char list \<Rightarrow> char list \<Rightarrow> int" where
  "strcmp [] [] = 0"
| "strcmp [] (y # ys) = -1"
| "strcmp (x # xs) [] = 1"
| "strcmp (x # xs) (y # ys) =
     (if x = y then strcmp xs ys else if (of_char x :: nat) < of_char y then -1 else 1)"

lemma strcmp_eq_0 [simp]: "strcmp s t = 0 \<longleftrightarrow> s = t"
  by (induction s t rule: strcmp.induct) auto

text \<open>\<open>strstr\<close>: the offset of the first occurrence of the needle.\<close>

fun strstr :: "char list \<Rightarrow> char list \<Rightarrow> nat option" where
  "strstr [] pat = (if pat = [] then Some 0 else None)"
| "strstr (x # xs) pat =
     (if take (length pat) (x # xs) = pat then Some 0 else map_option Suc (strstr xs pat))"

definition occurs_at :: "char list \<Rightarrow> char list \<Rightarrow> nat \<Rightarrow> bool" where
  "occurs_at s pat i = (i \<le> length s \<and> take (length pat) (drop i s) = pat)"

lemma occurs_at_Cons_Suc: "occurs_at (x # xs) pat (Suc i) = occurs_at xs pat i"
  by (simp add: occurs_at_def)

lemma strstr_Some: "strstr s pat = Some i \<longleftrightarrow> occurs_at s pat i \<and> (\<forall>j < i. \<not> occurs_at s pat j)"
proof (induction s arbitrary: i)
  case Nil
  then show ?case by (auto simp: occurs_at_def)
next
  case (Cons x xs)
  show ?case
  proof (cases i)
    case 0
    then show ?thesis by (auto simp: occurs_at_def)
  next
    case (Suc j)
    then show ?thesis using Cons.IH[of j]
      by (auto simp: less_Suc_eq_0_disj occurs_at_Cons_Suc) (auto simp: occurs_at_def)
  qed
qed

lemma strstr_None: "strstr s pat = None \<longleftrightarrow> (\<forall>i \<le> length s. \<not> occurs_at s pat i)"
proof (induction s)
  case Nil
  then show ?case by (auto simp: occurs_at_def)
next
  case (Cons x xs)
  have "(\<forall>i \<le> length (x # xs). \<not> occurs_at (x # xs) pat i) \<longleftrightarrow>
      \<not> occurs_at (x # xs) pat 0 \<and> (\<forall>i \<le> length xs. \<not> occurs_at xs pat i)"
    by (metis Suc_le_mono le0 length_Cons not0_implies_Suc occurs_at_Cons_Suc)
  then show ?case using Cons.IH by (auto simp: occurs_at_def)
qed

lemma strstr_bound: "strstr s pat = Some i \<Longrightarrow> i + length pat \<le> length s"
  by (metis (no_types, lifting) add.commute diff_add le_diff_conv2 length_drop length_take
      min.absorb_iff2 min.commute nat_add_left_cancel_le occurs_at_def strstr_Some)

text \<open>White space and digits as \<open>strtol\<close> reads them, in the C locale.\<close>

definition is_space :: "char \<Rightarrow> bool" where
  "is_space c = (c \<in> {CHR '' '', CHR 0x09, CHR 0x0A, CHR 0x0B, CHR 0x0C, CHR 0x0D})"

definition digit_value :: "char \<Rightarrow> nat option" where
  "digit_value c =
     (let n = of_char c :: nat
      in if 48 \<le> n \<and> n \<le> 57 then Some (n - 48)
         else if 97 \<le> n \<and> n \<le> 122 then Some (n - 87)
         else if 65 \<le> n \<and> n \<le> 90 then Some (n - 55)
         else None)"

fun digits_value :: "nat \<Rightarrow> nat \<Rightarrow> char list \<Rightarrow> nat" where
  "digits_value base acc [] = acc"
| "digits_value base acc (c # cs) =
     (case digit_value c of
        Some d \<Rightarrow> if d < base then digits_value base (acc * base + d) cs else acc
      | None \<Rightarrow> acc)"

definition LONG_MAX :: int where
  "LONG_MAX = 2 ^ 63 - 1"

definition LONG_MIN :: int where
  "LONG_MIN = - (2 ^ 63)"

definition clamp_long :: "int \<Rightarrow> int" where
  "clamp_long v = max LONG_MIN (min LONG_MAX v)"

text \<open>
  \<open>strtol(s, NULL, base)\<close> for the bases 10 and 16 of the program: white space, a sign, for base
  16 an optional \<open>0x\<close> before a digit, then the longest run of digits; out of range it clamps.
\<close>

definition skip_0x :: "nat \<Rightarrow> char list \<Rightarrow> char list" where
  "skip_0x base s =
     (case s of
        c0 # c1 # c2 # _ \<Rightarrow>
          if base = 16 \<and> c0 = CHR ''0'' \<and> c1 \<in> {CHR ''x'', CHR ''X''} \<and>
             (case digit_value c2 of Some d \<Rightarrow> d < 16 | None \<Rightarrow> False)
          then drop 2 s else s
      | _ \<Rightarrow> s)"

definition strtol :: "char list \<Rightarrow> nat \<Rightarrow> int" where
  "strtol s base =
     (case dropWhile is_space s of
        [] \<Rightarrow> 0
      | c # cs \<Rightarrow>
          if c = CHR ''-'' then clamp_long (- int (digits_value base 0 (skip_0x base cs)))
          else if c = CHR ''+'' then clamp_long (int (digits_value base 0 (skip_0x base cs)))
          else clamp_long (int (digits_value base 0 (skip_0x base (c # cs)))))"

lemma strtol_range: "LONG_MIN \<le> strtol s base" "strtol s base \<le> LONG_MAX"
  by (auto simp: strtol_def clamp_long_def LONG_MIN_def LONG_MAX_def split: list.splits)

section \<open>Owned strings\<close>

datatype cstr = Null | Str "char list" | Dangling

text \<open>Dereferencing, as \<open>strcmp\<close> and \<open>strlen\<close> do with their arguments.\<close>

fun cstr_val :: "cstr \<Rightarrow> char list res" where
  "cstr_val (Str s) = Inr s"
| "cstr_val Null = Inl Undefined"
| "cstr_val Dangling = Inl Undefined"

fun free_cstr :: "cstr \<Rightarrow> cstr res" where
  "free_cstr Null = Inr Null"
| "free_cstr (Str s) = Inr Dangling"
| "free_cstr Dangling = Inl Undefined"

lemma cstr_val_Inr: "cstr_val p = Inr s \<longleftrightarrow> p = Str s"
  by (cases p) auto

text \<open>
  \<open>p = malloc(size); memcpy(p, src, n); p[n] = 0\<close> with \<open>src\<close> inside a string. With \<open>checked\<close>
  the code asserts that \<open>malloc\<close> succeeded; without it a null result is written through.
\<close>

definition malloc_substr :: "allocator \<Rightarrow> bool \<Rightarrow> nat \<Rightarrow> char list \<Rightarrow> nat \<Rightarrow> cstr res" where
  "malloc_substr al checked sz src n =
     (if \<not> al sz then Inl (if checked then Exit else Undefined)
      else if n < sz \<and> n \<le> length src then Inr (Str (take n src))
      else Inl Undefined)"

lemma malloc_substr_fits:
  "n < sz \<Longrightarrow> n \<le> length src \<Longrightarrow> malloc_substr al checked sz src n =
     (if al sz then Inr (Str (take n src)) else Inl (if checked then Exit else Undefined))"
  by (simp add: malloc_substr_def)

section \<open>Searching: what the parsers rely on\<close>

lemma strstr_split: "strstr s pat = Some i \<Longrightarrow> s = take i s @ pat @ drop (i + length pat) s"
proof -
  assume "strstr s pat = Some i"
  then have "take (length pat) (drop i s) = pat" by (simp add: strstr_Some occurs_at_def)
  then have "drop i s = pat @ drop (i + length pat) s"
    by (metis append_take_drop_id drop_drop add.commute)
  then show ?thesis by (metis append_take_drop_id)
qed

lemma occurs_at_append: "occurs_at s pat i \<Longrightarrow> occurs_at (s @ t) pat i"
proof -
  assume o: "occurs_at s pat i"
  then have "length (take (length pat) (drop i s)) = length pat" by (simp add: occurs_at_def)
  then have "length pat \<le> length (drop i s)" by simp
  with o show ?thesis by (simp add: occurs_at_def)
qed

lemma occurs_at_appendD: "occurs_at (s @ t) pat i \<Longrightarrow> i + length pat \<le> length s \<Longrightarrow> occurs_at s pat i"
  by (simp add: occurs_at_def)

text \<open>More bytes after an occurrence do not move it, and create none that ends before them.\<close>

lemma strstr_append: "strstr s pat = Some i \<Longrightarrow> strstr (s @ t) pat = Some i"
proof -
  assume s: "strstr s pat = Some i"
  have "\<not> occurs_at (s @ t) pat j" if "j < i" for j
    using that s strstr_bound[OF s] occurs_at_appendD[of s t pat j] by (auto simp: strstr_Some)
  then show ?thesis using s by (auto simp: strstr_Some intro: occurs_at_append)
qed

lemma strstr_append_late:
  "strstr s pat = None \<Longrightarrow> strstr (s @ t) pat = Some i \<Longrightarrow> length s < i + length pat"
  by (rule ccontr) (auto simp: strstr_None strstr_Some not_less dest: occurs_at_appendD)

lemma strstr_singleton: "c \<notin> set w \<Longrightarrow> strstr (w @ c # r) [c] = Some (length w)"
  by (induction w) auto

lemma strstr_singleton_None: "strstr s [c] = None \<longleftrightarrow> c \<notin> set s"
  by (induction s) auto

lemma strstr_singleton_Some: "strstr s [c] = Some i \<Longrightarrow> c \<notin> set (take i s) \<and> s ! i = c \<and> i < length s"
proof (induction s arbitrary: i)
  case Nil
  then show ?case by simp
next
  case (Cons x xs)
  then show ?case by (cases i) (auto split: if_splits)
qed

text \<open>
  A needle \<open>[a, b]\<close> of two different bytes cannot overlap itself, so after a text without it
  the first occurrence is the one appended.
\<close>

lemma strstr_pair: "a \<noteq> b \<Longrightarrow> strstr w [a, b] = None \<Longrightarrow> strstr (w @ a # b # r) [a, b] = Some (length w)"
proof (induction w)
  case Nil
  then show ?case by simp
next
  case (Cons x xs)
  then show ?case by (cases xs) (auto split: if_splits)
qed

lemma strstr_pair_first: "a \<notin> set w \<Longrightarrow> strstr (w @ a # b # r) [a, b] = Some (length w)"
  by (induction w) auto

lemma strstr_nth: "strstr s pat = Some i \<Longrightarrow> k < length pat \<Longrightarrow> s ! (i + k) = pat ! k"
proof -
  assume s: "strstr s pat = Some i" and k: "k < length pat"
  have "s ! (i + k) = take (length pat) (drop i s) ! k"
    using k strstr_bound[OF s] by simp
  then show ?thesis using s by (simp add: strstr_Some occurs_at_def)
qed

text \<open>Occurrences of \<open>[a, b]\<close> and \<open>[c, d]\<close> with different bytes do not overlap.\<close>

lemma strstr_pairs_disjoint:
  assumes "strstr s [a, b] = Some i" and "strstr s [c, d] = Some j" and "j < i" and "a \<noteq> d"
  shows "j + 2 \<le> i"
proof -
  have "s ! i = a" "s ! (j + 1) = d"
    using strstr_nth[OF assms(1), of 0] strstr_nth[OF assms(2), of 1] by simp_all
  then show ?thesis using assms(3,4) by (cases "i = j + 1") auto
qed

text \<open>Searching a prefix: occurrences that fit are found, at the same place.\<close>

lemma strstr_take:
  "strstr (take m s) pat =
     (case strstr s pat of None \<Rightarrow> None | Some i \<Rightarrow> if i + length pat \<le> m then Some i else None)"
proof (cases "strstr (take m s) pat")
  case None
  show ?thesis
  proof (cases "strstr s pat")
    case (Some i)
    then have "length (take m s) < i + length pat"
      using strstr_append_late[OF None, of "drop m s" i] by simp
    then have "\<not> i + length pat \<le> m" using strstr_bound[OF Some] by simp
    then show ?thesis using None Some by simp
  qed (simp add: None)
next
  case (Some i)
  then have "strstr s pat = Some i" using strstr_append[OF Some, of "drop m s"] by simp
  moreover have "i + length pat \<le> m" using strstr_bound[OF Some] by simp
  ultimately show ?thesis using Some by simp
qed

end
