(* ===== verification/Http_Parser.thy ===== *)
theory Http_Parser
  imports Cstring
begin

text \<open>
  \<open>proxy/http_header_parser.h\<close> and \<open>proxy/http_header_parser.c\<close>: the request and response
  records, their construction and destruction, the three line parsers and the header lookup.
  A parser gets the C string that starts at \<open>*buf\<close> and returns its status, by how much it
  advanced \<open>*buf\<close>, and the record it filled in. Pointer differences that become sizes are
  \<open>size_t\<close> values. The heap strings are \<open>cstr\<close> values, so a second \<open>free\<close> is visible.
\<close>

section \<open>Data\<close>

record header_t =
  hdr_type :: cstr
  hdr_value :: cstr

record request_t =
  req_type :: cstr
  uri :: cstr
  req_version :: cstr
  req_headers :: "header_t vec"
  req_body :: cstr

record response_t =
  resp_version :: cstr
  code :: cstr
  resp_headers :: "header_t vec"
  resp_body :: cstr
  content_length :: int

datatype parse_status = NO_END_OF_LINE | PARSING_ERROR | END_OF_HEADER | OK

text \<open>\<open>sizeof(header_t)\<close>: two pointers.\<close>

definition HEADER_SIZE :: nat where
  "HEADER_SIZE = 16"

definition CRLF :: "char list" where
  "CRLF = [CHR 0x0D, CHR 0x0A]"

section \<open>Construction and destruction\<close>

definition request_init :: "request_t \<Rightarrow> request_t" where
  "request_init request =
     request\<lparr>req_type := Null, uri := Null, req_version := Null, req_body := Null,
       req_headers := vector_init (req_headers request)\<rparr>"

fun destroy_headers :: "nat \<Rightarrow> nat \<Rightarrow> header_t vec \<Rightarrow> header_t vec res" where
  "destroy_headers 0 i headers = Inr headers"
| "destroy_headers (Suc k) i headers =
     bind_r (vector_get headers i) (\<lambda>header.
     bind_r (free_cstr (hdr_type header)) (\<lambda>t.
     bind_r (free_cstr (hdr_value header)) (\<lambda>v.
     bind_r (vector_assign headers \<lparr>hdr_type = t, hdr_value = v\<rparr> i) (\<lambda>headers'.
     destroy_headers k (i + 1) headers'))))"

definition request_destroy :: "request_t \<Rightarrow> request_t res" where
  "request_destroy request =
     bind_r (free_cstr (req_type request)) (\<lambda>t.
     bind_r (free_cstr (uri request)) (\<lambda>u.
     bind_r (free_cstr (req_version request)) (\<lambda>v.
     bind_r (free_cstr (req_body request)) (\<lambda>b.
     bind_r (destroy_headers (cnt (req_headers request)) 0 (req_headers request)) (\<lambda>hs.
     Inr (request\<lparr>req_type := t, uri := u, req_version := v, req_body := b,
       req_headers := vector_free hs\<rparr>))))))"

definition response_init :: "response_t \<Rightarrow> response_t" where
  "response_init response =
     response\<lparr>resp_body := Null, resp_version := Null, code := Null,
       resp_headers := vector_init (resp_headers response)\<rparr>"

text \<open>Unlike \<open>request_destroy\<close>, this leaves the vector of freed headers in place.\<close>

definition response_destroy :: "response_t \<Rightarrow> response_t res" where
  "response_destroy response =
     bind_r (free_cstr (code response)) (\<lambda>c.
     bind_r (free_cstr (resp_version response)) (\<lambda>v.
     bind_r (free_cstr (resp_body response)) (\<lambda>b.
     bind_r (destroy_headers (cnt (resp_headers response)) 0 (resp_headers response)) (\<lambda>hs.
     Inr (response\<lparr>code := c, resp_version := v, resp_body := b, resp_headers := hs\<rparr>)))))"

section \<open>The line parsers\<close>

definition parse_req_type ::
    "allocator \<Rightarrow> char list \<Rightarrow> request_t \<Rightarrow> (parse_status \<times> nat \<times> request_t) res" where
  "parse_req_type al cur request =
     (case strstr cur CRLF of
        None \<Rightarrow> Inr (NO_END_OF_LINE, 0, request)
      | Some crlf \<Rightarrow>
        (case strstr cur '' '' of
           None \<Rightarrow> Inr (PARSING_ERROR, 0, request)
         | Some ws1 \<Rightarrow>
           if \<not> ws1 < crlf then Inr (PARSING_ERROR, 0, request) else
           (case strstr (drop (ws1 + 1) cur) '' '' of
              None \<Rightarrow> Inr (PARSING_ERROR, 0, request)
            | Some d \<Rightarrow>
              let ws2 = ws1 + 1 + d in
              if \<not> ws2 < crlf then Inr (PARSING_ERROR, 0, request) else
              bind_r (malloc_substr al True (sz_add ws1 1) cur ws1) (\<lambda>t.
              bind_r (malloc_substr al True (sz_sub ws2 ws1) (drop (ws1 + 1) cur) (sz_sub (sz_sub ws2 ws1) 1)) (\<lambda>u.
              bind_r (malloc_substr al True (sz_sub crlf ws2) (drop (ws2 + 1) cur) (sz_sub (sz_sub crlf ws2) 1)) (\<lambda>v.
              Inr (OK, crlf + 2, request\<lparr>req_type := t, uri := u, req_version := v\<rparr>)))))))"

definition parse_next_header ::
    "allocator \<Rightarrow> char list \<Rightarrow> header_t \<Rightarrow> (parse_status \<times> nat \<times> header_t) res" where
  "parse_next_header al cur header =
     (case strstr cur CRLF of
        None \<Rightarrow> Inr (NO_END_OF_LINE, 0, header)
      | Some crlf \<Rightarrow>
        if crlf = 0 then Inr (END_OF_HEADER, 2, header) else
        (case strstr cur '': '' of
           None \<Rightarrow> Inr (PARSING_ERROR, 0, header)
         | Some sep \<Rightarrow>
           if \<not> sep < crlf then Inr (PARSING_ERROR, 0, header) else
           bind_r (malloc_substr al False (sz_add sep 1) cur sep) (\<lambda>t.
           bind_r (malloc_substr al False (sz_sub (sz_sub crlf sep) 1) (drop (sep + 2) cur)
             (sz_sub (sz_sub crlf sep) 2)) (\<lambda>v.
           Inr (OK, crlf + 2, header\<lparr>hdr_type := t, hdr_value := v\<rparr>)))))"

definition parse_response_code ::
    "allocator \<Rightarrow> char list \<Rightarrow> response_t \<Rightarrow> (parse_status \<times> nat \<times> response_t) res" where
  "parse_response_code al cur response =
     (case strstr cur CRLF of
        None \<Rightarrow> Inr (NO_END_OF_LINE, 0, response)
      | Some crlf \<Rightarrow>
        (case strstr cur '' '' of
           None \<Rightarrow> Inr (PARSING_ERROR, 0, response)
         | Some ws \<Rightarrow>
           if \<not> ws < crlf then Inr (PARSING_ERROR, 0, response) else
           bind_r (malloc_substr al False (sz_add ws 1) cur ws) (\<lambda>v.
           bind_r (malloc_substr al False (sz_sub crlf ws) (drop (ws + 1) cur) (sz_sub (sz_sub crlf ws) 1)) (\<lambda>c.
           Inr (OK, crlf + 2, response\<lparr>resp_version := v, code := c\<rparr>)))))"

text \<open>\<open>find_header\<close> returns a pointer into the vector: here the index it points at.\<close>

definition header_matches :: "char list \<Rightarrow> header_t \<Rightarrow> bool res" where
  "header_matches type hi = bind_r (cstr_val (hdr_type hi)) (\<lambda>t. Inr (strcmp t type = 0))"

definition find_header :: "header_t vec \<Rightarrow> char list \<Rightarrow> nat option res" where
  "find_header headers type = scan (vector_get headers) (header_matches type) (cnt headers) 0"

section \<open>What the parsers compute\<close>

text \<open>
  The sizes and lengths passed to \<open>malloc\<close> and \<open>memcpy\<close> never wrap, and every copy fits its
  block with the terminator: the equations below have no undefined branch but the null pointer
  of a refused \<open>malloc\<close> that the code does not check.
\<close>

definition in_memory :: "char list \<Rightarrow> bool" where
  "in_memory s = (length s < ADDRESS_SPACE)"

lemma in_memory_drop [simp]: "in_memory s \<Longrightarrow> in_memory (drop n s)"
  by (simp add: in_memory_def)

lemma in_memory_size: "in_memory s \<Longrightarrow> length s + 2 < SIZE_MOD"
  by (simp add: in_memory_def ADDRESS_SPACE_eq SIZE_MOD_eq)

lemma strstr_space_line:
  assumes "strstr s CRLF = Some crlf" and "strstr s '' '' = Some ws" and "ws < crlf"
  shows "ws + 1 \<le> crlf" "crlf + 2 \<le> length s"
  using assms strstr_bound[OF assms(1)] by (simp_all add: CRLF_def)

lemma strstr_sep_line:
  assumes "strstr s CRLF = Some crlf" and "strstr s '': '' = Some sep" and "sep < crlf"
  shows "sep + 2 \<le> crlf" "crlf + 2 \<le> length s"
  using strstr_pairs_disjoint[of s "CHR 0x0D" "CHR 0x0A" crlf "CHR '':''" "CHR '' ''" sep] assms
    strstr_bound[OF assms(1)]
  by (simp_all add: CRLF_def)

lemma header_update: "header\<lparr>hdr_type := t, hdr_value := v\<rparr> = \<lparr>hdr_type = t, hdr_value = v\<rparr>"
  by (cases header) simp

lemma parse_next_header_eq:
  assumes "in_memory cur"
  shows "parse_next_header al cur header =
    (case strstr cur CRLF of
       None \<Rightarrow> Inr (NO_END_OF_LINE, 0, header)
     | Some crlf \<Rightarrow>
       if crlf = 0 then Inr (END_OF_HEADER, 2, header) else
       (case strstr cur '': '' of
          None \<Rightarrow> Inr (PARSING_ERROR, 0, header)
        | Some sep \<Rightarrow>
          if \<not> sep < crlf then Inr (PARSING_ERROR, 0, header)
          else if al (sep + 1) \<and> al (crlf - sep - 1)
          then Inr (OK, crlf + 2, \<lparr>hdr_type = Str (take sep cur),
                      hdr_value = Str (take (crlf - sep - 2) (drop (sep + 2) cur))\<rparr>)
          else Inl Undefined))"
proof -
  have *: "bind_r (malloc_substr al False (sz_add sep 1) cur sep) (\<lambda>t.
           bind_r (malloc_substr al False (sz_sub (sz_sub crlf sep) 1) (drop (sep + 2) cur)
             (sz_sub (sz_sub crlf sep) 2)) (\<lambda>v.
           Inr (OK, crlf + 2, header\<lparr>hdr_type := t, hdr_value := v\<rparr>))) =
         (if al (sep + 1) \<and> al (crlf - sep - 1)
          then Inr (OK, crlf + 2, \<lparr>hdr_type = Str (take sep cur),
                      hdr_value = Str (take (crlf - sep - 2) (drop (sep + 2) cur))\<rparr>)
          else Inl Undefined)"
    if l: "strstr cur CRLF = Some crlf" "strstr cur '': '' = Some sep" "sep < crlf" for crlf sep
  proof -
    note b = strstr_sep_line[OF l] in_memory_size[OF assms]
    have "sz_add sep 1 = sep + 1" "sz_sub (sz_sub crlf sep) 1 = crlf - sep - 1"
      "sz_sub (sz_sub crlf sep) 2 = crlf - sep - 2"
      using b by simp_all
    then show ?thesis using b
      by (auto simp: malloc_substr_fits header_update simp del: One_nat_def)
  qed
  show ?thesis unfolding parse_next_header_def
    by (auto split: option.splits simp: * simp del: One_nat_def add_2_eq_Suc add_2_eq_Suc' diff_diff_left)
qed

lemma parse_req_type_eq:
  assumes "in_memory cur"
  shows "parse_req_type al cur request =
    (case strstr cur CRLF of
       None \<Rightarrow> Inr (NO_END_OF_LINE, 0, request)
     | Some crlf \<Rightarrow>
       (case strstr cur '' '' of
          None \<Rightarrow> Inr (PARSING_ERROR, 0, request)
        | Some ws1 \<Rightarrow>
          if \<not> ws1 < crlf then Inr (PARSING_ERROR, 0, request) else
          (case strstr (drop (ws1 + 1) cur) '' '' of
             None \<Rightarrow> Inr (PARSING_ERROR, 0, request)
           | Some d \<Rightarrow>
             if \<not> ws1 + 1 + d < crlf then Inr (PARSING_ERROR, 0, request)
             else if al (ws1 + 1) \<and> al (d + 1) \<and> al (crlf - (ws1 + 1 + d))
             then Inr (OK, crlf + 2, request\<lparr>req_type := Str (take ws1 cur),
                    uri := Str (take d (drop (ws1 + 1) cur)),
                    req_version := Str (take (crlf - (ws1 + 1 + d) - 1) (drop (ws1 + 1 + d + 1) cur))\<rparr>)
             else Inl Exit)))"
proof -
  have *: "(let ws2 = ws1 + 1 + d in
        if \<not> ws2 < crlf then Inr (PARSING_ERROR, 0, request) else
        bind_r (malloc_substr al True (sz_add ws1 1) cur ws1) (\<lambda>t.
        bind_r (malloc_substr al True (sz_sub ws2 ws1) (drop (ws1 + 1) cur) (sz_sub (sz_sub ws2 ws1) 1)) (\<lambda>u.
        bind_r (malloc_substr al True (sz_sub crlf ws2) (drop (ws2 + 1) cur) (sz_sub (sz_sub crlf ws2) 1)) (\<lambda>v.
        Inr (OK, crlf + 2, request\<lparr>req_type := t, uri := u, req_version := v\<rparr>))))) =
      (if \<not> ws1 + 1 + d < crlf then Inr (PARSING_ERROR, 0, request)
       else if al (ws1 + 1) \<and> al (d + 1) \<and> al (crlf - (ws1 + 1 + d))
       then Inr (OK, crlf + 2, request\<lparr>req_type := Str (take ws1 cur),
              uri := Str (take d (drop (ws1 + 1) cur)),
              req_version := Str (take (crlf - (ws1 + 1 + d) - 1) (drop (ws1 + 1 + d + 1) cur))\<rparr>)
       else Inl Exit)"
    if l: "strstr cur CRLF = Some crlf" "strstr cur '' '' = Some ws1" "ws1 < crlf" for crlf ws1 d
  proof (cases "ws1 + 1 + d < crlf")
    case True
    note b = strstr_space_line[OF l] in_memory_size[OF assms] True
    have "sz_add ws1 1 = ws1 + 1" "sz_sub (ws1 + 1 + d) ws1 = d + 1" "sz_sub (d + 1) 1 = d"
      "sz_sub crlf (ws1 + 1 + d) = crlf - (ws1 + 1 + d)"
      "sz_sub (crlf - (ws1 + 1 + d)) 1 = crlf - (ws1 + 1 + d) - 1"
      using b by simp_all
    then show ?thesis using b
      by (auto simp: malloc_substr_fits Let_def add.commute[of 1 d] simp del: One_nat_def)
  qed (simp add: Let_def)
  show ?thesis unfolding parse_req_type_def
    by (auto split: option.splits simp: * simp del: One_nat_def add_2_eq_Suc add_2_eq_Suc' diff_diff_left)
qed

lemma parse_response_code_eq:
  assumes "in_memory cur"
  shows "parse_response_code al cur response =
    (case strstr cur CRLF of
       None \<Rightarrow> Inr (NO_END_OF_LINE, 0, response)
     | Some crlf \<Rightarrow>
       (case strstr cur '' '' of
          None \<Rightarrow> Inr (PARSING_ERROR, 0, response)
        | Some ws \<Rightarrow>
          if \<not> ws < crlf then Inr (PARSING_ERROR, 0, response)
          else if al (ws + 1) \<and> al (crlf - ws)
          then Inr (OK, crlf + 2, response\<lparr>resp_version := Str (take ws cur),
                 code := Str (take (crlf - ws - 1) (drop (ws + 1) cur))\<rparr>)
          else Inl Undefined))"
proof -
  have *: "bind_r (malloc_substr al False (sz_add ws 1) cur ws) (\<lambda>v.
           bind_r (malloc_substr al False (sz_sub crlf ws) (drop (ws + 1) cur) (sz_sub (sz_sub crlf ws) 1)) (\<lambda>c.
           Inr (OK, crlf + 2, response\<lparr>resp_version := v, code := c\<rparr>))) =
         (if al (ws + 1) \<and> al (crlf - ws)
          then Inr (OK, crlf + 2, response\<lparr>resp_version := Str (take ws cur),
                 code := Str (take (crlf - ws - 1) (drop (ws + 1) cur))\<rparr>)
          else Inl Undefined)"
    if l: "strstr cur CRLF = Some crlf" "strstr cur '' '' = Some ws" "ws < crlf" for crlf ws
  proof -
    note b = strstr_space_line[OF l] in_memory_size[OF assms]
    have "sz_add ws 1 = ws + 1" "sz_sub crlf ws = crlf - ws" "sz_sub (crlf - ws) 1 = crlf - ws - 1"
      using b l(3) by simp_all
    then show ?thesis using b l(3)
      by (auto simp: malloc_substr_fits simp del: One_nat_def)
  qed
  show ?thesis unfolding parse_response_code_def
    by (auto split: option.splits simp: * simp del: One_nat_def add_2_eq_Suc add_2_eq_Suc' diff_diff_left)
qed

section \<open>Safety, progress and stability\<close>

text \<open>
  \<open>parse_outcome\<close> collects what holds of each line parser: no undefined behaviour given that the
  unchecked allocations succeed, the advance stays inside the string, and a line is consumed
  exactly when the status is neither "wait" nor "error".
\<close>

definition advance_ok :: "char list \<Rightarrow> parse_status \<Rightarrow> nat \<Rightarrow> bool" where
  "advance_ok cur st n =
     (n \<le> length cur \<and> (st \<in> {NO_END_OF_LINE, PARSING_ERROR} \<longrightarrow> n = 0) \<and>
      (st \<in> {END_OF_HEADER, OK} \<longrightarrow> 2 \<le> n))"

text \<open>Every request smaller than the string's memory is granted.\<close>

definition grants_upto :: "allocator \<Rightarrow> nat \<Rightarrow> bool" where
  "grants_upto al n = (\<forall>k \<le> n. al k)"

lemma grants_uptoD: "grants_upto al n \<Longrightarrow> k \<le> n \<Longrightarrow> al k"
  by (simp add: grants_upto_def)

lemma CRLF_length [simp]: "length CRLF = 2"
  by (simp add: CRLF_def)

lemma parse_req_type_safe:
  "in_memory cur \<Longrightarrow>
   safe (parse_req_type al cur request) (\<lambda>(st, n, r). advance_ok cur st n \<and> st \<noteq> END_OF_HEADER)"
  using strstr_bound[of cur CRLF]
  by (auto simp: parse_req_type_eq advance_ok_def split: option.splits)

lemma parse_next_header_outcome:
  "in_memory cur \<Longrightarrow>
   (case parse_next_header al cur header of
      Inl e \<Rightarrow> e = Undefined \<and> \<not> grants_upto al (length cur)
    | Inr (st, n, h) \<Rightarrow> advance_ok cur st n \<and>
        (st = OK \<longrightarrow> (\<exists>t v. h = \<lparr>hdr_type = Str t, hdr_value = Str v\<rparr>)))"
  using strstr_bound[of cur CRLF] grants_uptoD[of al "length cur"]
  by (cases "grants_upto al (length cur)")
    (auto simp: parse_next_header_eq advance_ok_def split: option.splits)

lemma parse_response_code_outcome:
  "in_memory cur \<Longrightarrow>
   (case parse_response_code al cur response of
      Inl e \<Rightarrow> e = Undefined \<and> \<not> grants_upto al (length cur)
    | Inr (st, n, r) \<Rightarrow> advance_ok cur st n \<and> st \<noteq> END_OF_HEADER)"
  using strstr_bound[of cur CRLF] grants_uptoD[of al "length cur"]
  by (cases "grants_upto al (length cur)")
    (auto simp: parse_response_code_eq advance_ok_def split: option.splits)

text \<open>
  A parser looks at one line only: cutting the string after the first line end changes nothing.
\<close>

lemma in_memory_take: "in_memory s \<Longrightarrow> in_memory (take m s)"
  by (simp add: in_memory_def)

lemma parse_req_type_line:
  assumes "in_memory s" and c: "strstr s CRLF = Some crlf"
  shows "parse_req_type al (take (crlf + 2) s) r = parse_req_type al s r"
proof -
  note b = strstr_bound[OF c]
  have t: "strstr (take (crlf + 2) s) CRLF = Some crlf" by (simp add: strstr_take c)
  show ?thesis
    unfolding parse_req_type_eq[OF assms(1)] parse_req_type_eq[OF in_memory_take[OF assms(1)]] t c
    by (auto simp: strstr_take drop_take min_def split: option.splits)
qed

lemma parse_next_header_line:
  assumes "in_memory s" and c: "strstr s CRLF = Some crlf"
  shows "parse_next_header al (take (crlf + 2) s) h = parse_next_header al s h"
proof -
  note b = strstr_bound[OF c]
  have t: "strstr (take (crlf + 2) s) CRLF = Some crlf" by (simp add: strstr_take c)
  show ?thesis
    unfolding parse_next_header_eq[OF assms(1)] parse_next_header_eq[OF in_memory_take[OF assms(1)]] t c
    by (auto simp: strstr_take drop_take min_def split: option.splits)
qed

lemma parse_response_code_line:
  assumes "in_memory s" and c: "strstr s CRLF = Some crlf"
  shows "parse_response_code al (take (crlf + 2) s) r = parse_response_code al s r"
proof -
  note b = strstr_bound[OF c]
  have t: "strstr (take (crlf + 2) s) CRLF = Some crlf" by (simp add: strstr_take c)
  show ?thesis
    unfolding parse_response_code_eq[OF assms(1)] parse_response_code_eq[OF in_memory_take[OF assms(1)]] t c
    by (auto simp: strstr_take drop_take min_def split: option.splits)
qed

text \<open>Hence the bytes that arrive later never change a line that is complete.\<close>

lemma line_complete:
  assumes "strstr s CRLF = Some crlf"
  shows "strstr (s @ t) CRLF = Some crlf" "take (crlf + 2) (s @ t) = take (crlf + 2) s"
  using strstr_append[OF assms, of t] strstr_bound[OF assms] by simp_all

lemma in_memory_prefix: "in_memory (s @ t) \<Longrightarrow> in_memory s"
  by (simp add: in_memory_def)

lemma parse_req_type_stable:
  "in_memory (s @ t) \<Longrightarrow> strstr s CRLF \<noteq> None \<Longrightarrow> parse_req_type al (s @ t) r = parse_req_type al s r"
  using parse_req_type_line[of "s @ t" _ al r] parse_req_type_line[of s _ al r] line_complete[of s _ t]
    in_memory_prefix[of s t]
  by (metis option.exhaust)

lemma parse_next_header_stable:
  "in_memory (s @ t) \<Longrightarrow> strstr s CRLF \<noteq> None \<Longrightarrow> parse_next_header al (s @ t) h = parse_next_header al s h"
  using parse_next_header_line[of "s @ t" _ al h] parse_next_header_line[of s _ al h] line_complete[of s _ t]
    in_memory_prefix[of s t]
  by (metis option.exhaust)

lemma parse_response_code_stable:
  "in_memory (s @ t) \<Longrightarrow> strstr s CRLF \<noteq> None \<Longrightarrow> parse_response_code al (s @ t) r = parse_response_code al s r"
  using parse_response_code_line[of "s @ t" _ al r] parse_response_code_line[of s _ al r] line_complete[of s _ t]
    in_memory_prefix[of s t]
  by (metis option.exhaust)

section \<open>Round trips\<close>

definition request_line :: "char list \<Rightarrow> char list \<Rightarrow> char list \<Rightarrow> char list" where
  "request_line m u v = m @ '' '' @ u @ '' '' @ v @ CRLF"

definition header_line :: "char list \<Rightarrow> char list \<Rightarrow> char list" where
  "header_line t v = t @ '': '' @ v @ CRLF"

definition status_line :: "char list \<Rightarrow> char list \<Rightarrow> char list" where
  "status_line v c = v @ '' '' @ c @ CRLF"

definition one_line :: "char list \<Rightarrow> bool" where
  "one_line w = (strstr w CRLF = None)"

lemma strstr_CRLF_after: "one_line w \<Longrightarrow> strstr (w @ CRLF @ rest) CRLF = Some (length w)"
  using strstr_pair[of "CHR 0x0D" "CHR 0x0A" w rest] by (simp add: one_line_def CRLF_def)

lemma parse_req_type_request_line:
  assumes "in_memory (request_line m u v @ rest)" and "CHR '' '' \<notin> set m" and "CHR '' '' \<notin> set u"
    and "one_line (m @ '' '' @ u @ '' '' @ v)" and "grants_upto al (length (request_line m u v))"
  shows "parse_req_type al (request_line m u v @ rest) r =
    Inr (OK, length (request_line m u v), r\<lparr>req_type := Str m, uri := Str u, req_version := Str v\<rparr>)"
proof -
  let ?s = "request_line m u v @ rest"
  let ?w = "m @ '' '' @ u @ '' '' @ v"
  have "strstr ?s CRLF = Some (length ?w)"
    using strstr_CRLF_after[OF assms(4), of rest] by (simp add: request_line_def)
  moreover have "strstr ?s '' '' = Some (length m)"
    using strstr_singleton[OF assms(2), of "u @ '' '' @ v @ CRLF @ rest"] by (simp add: request_line_def)
  moreover have "drop (length m + 1) ?s = u @ CHR '' '' # v @ CRLF @ rest" by (simp add: request_line_def)
  moreover have "strstr (u @ CHR '' '' # v @ CRLF @ rest) '' '' = Some (length u)"
    by (rule strstr_singleton[OF assms(3)])
  ultimately show ?thesis unfolding parse_req_type_eq[OF assms(1)]
    using grants_uptoD[OF assms(5)] by (simp add: request_line_def)
qed

lemma parse_next_header_header_line:
  assumes "in_memory (header_line t v @ rest)" and "CHR '':'' \<notin> set t"
    and "one_line (t @ '': '' @ v)" and "grants_upto al (length (header_line t v))"
  shows "parse_next_header al (header_line t v @ rest) h =
    Inr (OK, length (header_line t v), \<lparr>hdr_type = Str t, hdr_value = Str v\<rparr>)"
proof -
  let ?s = "header_line t v @ rest"
  have "strstr ?s CRLF = Some (length (t @ '': '' @ v))"
    using strstr_CRLF_after[OF assms(3), of rest] by (simp add: header_line_def)
  moreover have "strstr ?s '': '' = Some (length t)"
    using strstr_pair_first[OF assms(2), of "CHR '' ''" "v @ CRLF @ rest"] by (simp add: header_line_def)
  ultimately show ?thesis unfolding parse_next_header_eq[OF assms(1)]
    using grants_uptoD[OF assms(4)] by (simp add: header_line_def)
qed

lemma parse_response_code_status_line:
  assumes "in_memory (status_line v c @ rest)" and "CHR '' '' \<notin> set v"
    and "one_line (v @ '' '' @ c)" and "grants_upto al (length (status_line v c))"
  shows "parse_response_code al (status_line v c @ rest) r =
    Inr (OK, length (status_line v c), r\<lparr>resp_version := Str v, code := Str c\<rparr>)"
proof -
  let ?s = "status_line v c @ rest"
  have "strstr ?s CRLF = Some (length (v @ '' '' @ c))"
    using strstr_CRLF_after[OF assms(3), of rest] by (simp add: status_line_def)
  moreover have "strstr ?s '' '' = Some (length v)"
    using strstr_singleton[OF assms(2), of "c @ CRLF @ rest"] by (simp add: status_line_def)
  ultimately show ?thesis unfolding parse_response_code_eq[OF assms(1)]
    using grants_uptoD[OF assms(4)] by (simp add: status_line_def)
qed

lemma parse_next_header_end: "in_memory (CRLF @ rest) \<Longrightarrow> parse_next_header al (CRLF @ rest) h = Inr (END_OF_HEADER, 2, h)"
  using strstr_CRLF_after[of "[]" rest] by (simp add: parse_next_header_eq one_line_def CRLF_def)

section \<open>Header lookup\<close>

definition hdr :: "char list \<times> char list \<Rightarrow> header_t" where
  "hdr tv = \<lparr>hdr_type = Str (fst tv), hdr_value = Str (snd tv)\<rparr>"

text \<open>A vector of live headers, as name and value pairs.\<close>

definition headers_are :: "header_t vec \<Rightarrow> (char list \<times> char list) list \<Rightarrow> bool" where
  "headers_are headers hs = represents HEADER_SIZE headers (map hdr hs)"

lemma headers_are_unique: "headers_are v hs \<Longrightarrow> headers_are v hs' \<Longrightarrow> hs = hs'"
proof -
  assume "headers_are v hs" "headers_are v hs'"
  then have "map hdr hs = map hdr hs'" unfolding headers_are_def by (rule represents_unique)
  moreover have "inj hdr" by (auto simp: inj_def hdr_def)
  ultimately show ?thesis by (simp add: inj_map_eq_map)
qed

lemma first_index_map: "first_index q (map f xs) = first_index (\<lambda>x. q (f x)) xs"
  by (induction xs) auto

lemma find_header_headers_are:
  assumes "headers_are headers hs"
  shows "find_header headers type = Inr (first_index (\<lambda>tv. fst tv = type) hs)"
proof -
  have "header_matches type (hdr tv) = Inr (fst tv = type)" for tv
    by (simp add: header_matches_def hdr_def)
  then have m: "header_matches type x = Inr (cstr_val (hdr_type x) = Inr type)" if "x \<in> hdr ` S" for x S
    using that by (auto simp: hdr_def)
  show ?thesis
    using cv.scan_all[OF assms[unfolded headers_are_def], of "header_matches type"
        "\<lambda>x. cstr_val (hdr_type x) = Inr type"] m
    by (simp add: find_header_def first_index_map hdr_def)
qed

section \<open>Destruction\<close>

definition freed :: "cstr \<Rightarrow> cstr" where
  "freed c = (if c = Null then Null else Dangling)"

definition freed_hdr :: "header_t \<Rightarrow> header_t" where
  "freed_hdr h = \<lparr>hdr_type = freed (hdr_type h), hdr_value = freed (hdr_value h)\<rparr>"

definition live_hdr :: "header_t \<Rightarrow> bool" where
  "live_hdr h = (hdr_type h \<noteq> Dangling \<and> hdr_value h \<noteq> Dangling)"

lemma free_cstr_live: "c \<noteq> Dangling \<Longrightarrow> free_cstr c = Inr (freed c)"
  by (cases c) (simp_all add: freed_def)

lemma free_freed: "free_cstr (freed c) = (if c = Null then Inr Null else Inl Undefined)"
  by (simp add: freed_def)

lemma live_hdr_hdr [simp]: "live_hdr (hdr tv)"
  by (simp add: live_hdr_def hdr_def)

lemma destroy_headers_from:
  assumes "i + k = length xs" and "represents HEADER_SIZE v (map freed_hdr (take i xs) @ drop i xs)"
    and "\<forall>x \<in> set xs. live_hdr x"
  shows "\<exists>v'. destroy_headers k i v = Inr v' \<and> represents HEADER_SIZE v' (map freed_hdr xs)"
  using assms(1,2)
proof (induction k arbitrary: i v)
  case 0
  then show ?case by simp
next
  case (Suc k)
  let ?ys = "map freed_hdr (take i xs) @ drop i xs"
  have i: "i < length xs" using Suc.prems(1) by simp
  then have nth: "?ys ! i = xs ! i" and len: "i < length ?ys"
    by (simp_all add: nth_append min_def)
  have live: "live_hdr (xs ! i)" using assms(3) i by simp
  obtain v' where v': "vector_assign v (freed_hdr (xs ! i)) i = Inr v'"
      "represents HEADER_SIZE v' (?ys[i := freed_hdr (xs ! i)])"
    using vector_assign_represents[OF Suc.prems(2) len] by blast
  have "?ys[i := freed_hdr (xs ! i)] = map freed_hdr (take (i + 1) xs) @ drop (i + 1) xs"
    using i by (auto simp: list_update_append take_Suc_conv_app_nth min_def list_update_beyond
        Cons_nth_drop_Suc[symmetric])
  then obtain v'' where "destroy_headers k (i + 1) v' = Inr v''"
      "represents HEADER_SIZE v'' (map freed_hdr xs)"
    using Suc.IH[of "i + 1" v'] Suc.prems(1) v'(2) by auto
  then show ?case
    using vector_get_represents[OF Suc.prems(2) len] live v'(1)[unfolded freed_hdr_def]
    by (simp add: nth live_hdr_def free_cstr_live)
qed

lemma destroy_headers_live:
  assumes "represents HEADER_SIZE v xs" and "\<forall>x \<in> set xs. live_hdr x"
  shows "\<exists>v'. destroy_headers (cnt v) 0 v = Inr v' \<and> represents HEADER_SIZE v' (map freed_hdr xs)"
  using destroy_headers_from[of 0 "cnt v" xs v] assms representsD(2)[OF assms(1)] by simp

text \<open>A request all of whose strings are null or live.\<close>

definition live_request :: "request_t \<Rightarrow> (char list \<times> char list) list \<Rightarrow> bool" where
  "live_request r hs =
     (req_type r \<noteq> Dangling \<and> uri r \<noteq> Dangling \<and> req_version r \<noteq> Dangling \<and>
      req_body r \<noteq> Dangling \<and> headers_are (req_headers r) hs)"

definition live_response :: "response_t \<Rightarrow> (char list \<times> char list) list \<Rightarrow> bool" where
  "live_response r hs =
     (resp_version r \<noteq> Dangling \<and> code r \<noteq> Dangling \<and> resp_body r \<noteq> Dangling \<and>
      headers_are (resp_headers r) hs)"

lemma elem_size_HEADER [simp]: "elem_size HEADER_SIZE"
  by (simp add: elem_size_def HEADER_SIZE_def)

lemma headers_are_init [simp]: "headers_are (vector_init v) []"
  by (simp add: headers_are_def vector_init_represents)

lemma live_request_init: "live_request (request_init r) []"
  by (simp add: live_request_def request_init_def)

lemma live_response_init: "live_response (response_init r) []"
  by (simp add: live_response_def response_init_def)

lemma request_destroy_live:
  assumes "live_request r hs"
  shows "\<exists>v. request_destroy r = Inr \<lparr>req_type = freed (req_type r), uri = freed (uri r),
    req_version = freed (req_version r), req_headers = vector_free v, req_body = freed (req_body r)\<rparr>"
proof -
  obtain v where "destroy_headers (cnt (req_headers r)) 0 (req_headers r) = Inr v"
    using assms destroy_headers_live[of "req_headers r" "map hdr hs"]
    by (auto simp: live_request_def headers_are_def)
  then show ?thesis using assms by (cases r) (auto simp: request_destroy_def live_request_def free_cstr_live)
qed

lemma response_destroy_live:
  assumes "live_response r hs"
  shows "\<exists>v. response_destroy r = Inr \<lparr>resp_version = freed (resp_version r), code = freed (code r),
      resp_headers = v, resp_body = freed (resp_body r), content_length = content_length r\<rparr> \<and>
    represents HEADER_SIZE v (map (\<lambda>tv. \<lparr>hdr_type = Dangling, hdr_value = Dangling\<rparr>) hs)"
proof -
  obtain v where v: "destroy_headers (cnt (resp_headers r)) 0 (resp_headers r) = Inr v"
      "represents HEADER_SIZE v (map freed_hdr (map hdr hs))"
    using assms destroy_headers_live[of "resp_headers r" "map hdr hs"]
    by (auto simp: live_response_def headers_are_def)
  have "map freed_hdr (map hdr hs) = map (\<lambda>tv. \<lparr>hdr_type = Dangling, hdr_value = Dangling\<rparr>) hs"
    by (simp add: freed_hdr_def hdr_def freed_def)
  with v(2) have "represents HEADER_SIZE v (map (\<lambda>tv. \<lparr>hdr_type = Dangling, hdr_value = Dangling\<rparr>) hs)"
    by (simp only:)
  then show ?thesis using assms v(1)
    by (cases r) (simp add: response_destroy_def live_response_def free_cstr_live)
qed

text \<open>Destroying a request twice frees a dangling pointer as soon as it had been parsed.\<close>

lemma request_destroy_twice:
  assumes "live_request r hs" and "req_type r \<noteq> Null"
  shows "bind_r (request_destroy r) request_destroy = Inl Undefined"
proof -
  obtain v where "request_destroy r = Inr \<lparr>req_type = freed (req_type r), uri = freed (uri r),
      req_version = freed (req_version r), req_headers = vector_free v, req_body = freed (req_body r)\<rparr>"
    using request_destroy_live[OF assms(1)] by blast
  moreover have "free_cstr (freed (req_type r)) = Inl Undefined" using assms(2) by (simp add: free_freed)
  ultimately show ?thesis by (simp add: request_destroy_def)
qed

end
