(* ===== verification/Hash_Map.thy ===== *)
theory Hash_Map
  imports Cvector
begin

text \<open>
  \<open>proxy/hash_map.h\<close> and \<open>proxy/hash_map.c\<close>: a table of 1000 buckets, each a vector of
  pairs of pointers to a key and a value that the caller owns. Keys and values live in a heap of
  cells by address, because the table keeps the caller's pointers, overwrites the pointed-to
  structs on a replacement and hands value pointers out. \<open>key_size\<close> and \<open>value_size\<close> are the
  sizes of the whole structs wherever the program calls this, so \<open>memcpy\<close> copies a struct.
\<close>

section \<open>State\<close>

record pair_t =
  key :: nat
  "value" :: nat

record ('k, 'v) cells =
  key_at :: "nat \<Rightarrow> 'k option"
  val_at :: "nat \<Rightarrow> 'v option"

record 'k hash_map_t =
  hash :: "'k \<Rightarrow> int"
  equals :: "'k \<Rightarrow> 'k \<Rightarrow> bool res"
  buckets :: "nat \<Rightarrow> pair_t vec option"
  key_size :: nat
  value_size :: nat

definition BUCKETS_SIZE :: nat where
  "BUCKETS_SIZE = 1000"

definition POINTER_SIZE :: nat where
  "POINTER_SIZE = 8"

definition PAIR_SIZE :: nat where
  "PAIR_SIZE = 16"

definition VPAIR_SIZE :: nat where
  "VPAIR_SIZE = 24"

section \<open>Operations\<close>

definition hash_map_init ::
    "allocator \<Rightarrow> 'k hash_map_t \<Rightarrow> nat \<Rightarrow> nat \<Rightarrow> ('k \<Rightarrow> int) \<Rightarrow> ('k \<Rightarrow> 'k \<Rightarrow> bool res) \<Rightarrow> 'k hash_map_t res" where
  "hash_map_init al hm ks vs hash' equals' =
     bind_r (assert_r (al (POINTER_SIZE * BUCKETS_SIZE))) (\<lambda>_.
     Inr (hm\<lparr>key_size := ks, value_size := vs, equals := equals', hash := hash', buckets := (\<lambda>_. None)\<rparr>))"

text \<open>
  \<open>ABS(hash) % BUCKETS_SIZE\<close> on \<open>int\<close>: the negation overflows for \<open>INT_MIN\<close>.
\<close>

definition bucket_index :: "int \<Rightarrow> nat res" where
  "bucket_index h =
     (let a = (if 0 < h then h else - h)
      in if INT_MAX < a then Inl Undefined else Inr (nat (a mod int BUCKETS_SIZE)))"

definition deref_key :: "('k, 'v) cells \<Rightarrow> nat \<Rightarrow> 'k res" where
  "deref_key h a = (case key_at h a of Some k \<Rightarrow> Inr k | None \<Rightarrow> Inl Undefined)"

text \<open>\<open>memcpy\<close> of a whole struct; the two must be different live cells.\<close>

definition copy_struct :: "(nat \<Rightarrow> 'a option) \<Rightarrow> nat \<Rightarrow> nat \<Rightarrow> (nat \<Rightarrow> 'a option) res" where
  "copy_struct at dst src =
     (if dst = src \<or> at dst = None \<or> at src = None then Inl Undefined else Inr (at(dst := at src)))"

definition pair_matches :: "'k hash_map_t \<Rightarrow> ('k, 'v) cells \<Rightarrow> 'k \<Rightarrow> pair_t \<Rightarrow> bool res" where
  "pair_matches hm h k p = bind_r (deref_key h (key p)) (\<lambda>pk. equals hm pk k)"

definition hash_map_put ::
    "allocator \<Rightarrow> 'k hash_map_t \<Rightarrow> ('k, 'v) cells \<Rightarrow> nat \<Rightarrow> nat \<Rightarrow>
     ('k hash_map_t \<times> ('k, 'v) cells \<times> nat option) res" where
  "hash_map_put al hm h key' value' =
     bind_r (deref_key h key') (\<lambda>k.
     bind_r (bucket_index (hash hm k)) (\<lambda>ind.
     bind_r (case buckets hm ind of
               Some b \<Rightarrow> Inr b
             | None \<Rightarrow>
                 if al VPAIR_SIZE then Inr (vector_init \<lparr>ptr = null_block, cnt = 0, capacity = 0\<rparr>)
                 else Inl Undefined) (\<lambda>bucket.
     bind_r (scan (vector_get bucket) (pair_matches hm h k) (cnt bucket) 0) (\<lambda>found.
     (case found of
        Some i \<Rightarrow>
          bind_r (vector_get bucket i) (\<lambda>p.
          bind_r (copy_struct (key_at h) (key p) key') (\<lambda>ks.
          bind_r (copy_struct (val_at h) (value p) value') (\<lambda>vs.
          Inr (hm\<lparr>buckets := (buckets hm)(ind := Some bucket)\<rparr>,
               h\<lparr>key_at := ks, val_at := vs\<rparr>, Some (value p)))))
      | None \<Rightarrow>
          bind_r (vector_push_back al PAIR_SIZE bucket \<lparr>key = key', value = value'\<rparr>) (\<lambda>bucket'.
          Inr (hm\<lparr>buckets := (buckets hm)(ind := Some bucket')\<rparr>, h, None)))))))"

definition hash_map_get :: "'k hash_map_t \<Rightarrow> ('k, 'v) cells \<Rightarrow> nat \<Rightarrow> nat option res" where
  "hash_map_get hm h key' =
     bind_r (deref_key h key') (\<lambda>k.
     bind_r (bucket_index (hash hm k)) (\<lambda>ind.
     (case buckets hm ind of
        None \<Rightarrow> Inr None
      | Some bucket \<Rightarrow>
          bind_r (scan (vector_get bucket) (pair_matches hm h k) (cnt bucket) 0) (\<lambda>found.
          (case found of
             None \<Rightarrow> Inr None
           | Some i \<Rightarrow> bind_r (vector_get bucket i) (\<lambda>p. Inr (Some (value p))))))))"

section \<open>Bucket index\<close>

lemma bucket_index_bound:
  "INT_MIN < h \<Longrightarrow> h \<le> INT_MAX \<Longrightarrow> \<exists>i. bucket_index h = Inr i \<and> i < BUCKETS_SIZE"
  by (auto simp: bucket_index_def INT_MIN_def INT_MAX_def BUCKETS_SIZE_def Let_def nat_less_iff)

lemma bucket_index_INT_MIN: "bucket_index INT_MIN = Inl Undefined"
  by (simp add: bucket_index_def INT_MIN_def INT_MAX_def)

lemma bucket_index_range: "bucket_index h = Inr i \<Longrightarrow> i < BUCKETS_SIZE"
  by (auto simp: bucket_index_def BUCKETS_SIZE_def Let_def nat_less_iff split: if_splits)

section \<open>What a table represents\<close>

text \<open>
  \<open>P ind\<close> lists the pairs of bucket \<open>ind\<close>. All key cells are different from each other and so
  are all value cells: overwriting one entry's structs leaves the others alone.
\<close>

definition bucket_is :: "pair_t vec option \<Rightarrow> pair_t list \<Rightarrow> bool" where
  "bucket_is bo ps = (case bo of None \<Rightarrow> ps = [] | Some b \<Rightarrow> represents PAIR_SIZE b ps)"

definition places :: "(nat \<Rightarrow> pair_t list) \<Rightarrow> (nat \<times> nat) set" where
  "places P = {(ind, i). i < length (P ind)}"

definition unaliased :: "(pair_t \<Rightarrow> nat) \<Rightarrow> (nat \<Rightarrow> pair_t list) \<Rightarrow> bool" where
  "unaliased f P = inj_on (\<lambda>(ind, i). f (P ind ! i)) (places P)"

definition mentions :: "(pair_t \<Rightarrow> nat) \<Rightarrow> (nat \<Rightarrow> pair_t list) \<Rightarrow> nat \<Rightarrow> bool" where
  "mentions f P a = (\<exists>ind. \<exists>p \<in> set (P ind). f p = a)"

lemma elem_size_PAIR [simp]: "elem_size PAIR_SIZE"
  by (simp add: elem_size_def PAIR_SIZE_def)

definition slot :: "('k \<Rightarrow> int) \<Rightarrow> 'k \<Rightarrow> nat" where
  "slot hash_fn k = (case bucket_index (hash_fn k) of Inr i \<Rightarrow> i | Inl _ \<Rightarrow> 0)"

text \<open>A pair whose key is live, valid and in the bucket of its hash, and whose value is live.\<close>

definition live_pair ::
    "('k \<Rightarrow> int) \<Rightarrow> ('k \<Rightarrow> bool) \<Rightarrow> ('k, 'v) cells \<Rightarrow> nat \<Rightarrow> pair_t \<Rightarrow> bool" where
  "live_pair hash_fn valid h ind p =
     ((\<exists>k. key_at h (key p) = Some k \<and> valid k \<and> slot hash_fn k = ind) \<and> val_at h (value p) \<noteq> None)"

definition table ::
    "('k \<Rightarrow> int) \<Rightarrow> ('k \<Rightarrow> 'k \<Rightarrow> bool res) \<Rightarrow> ('k \<Rightarrow> bool) \<Rightarrow>
     'k hash_map_t \<Rightarrow> ('k, 'v) cells \<Rightarrow> (nat \<Rightarrow> pair_t list) \<Rightarrow> bool" where
  "table hash_fn equals_fn valid hm h P =
     (hash hm = hash_fn \<and> equals hm = equals_fn \<and> (\<forall>ind. bucket_is (buckets hm ind) (P ind)) \<and>
      (\<forall>ind. \<forall>p \<in> set (P ind). live_pair hash_fn valid h ind p) \<and> unaliased key P \<and> unaliased value P)"

definition hit :: "('k \<Rightarrow> 'k \<Rightarrow> bool) \<Rightarrow> ('k, 'v) cells \<Rightarrow> 'k \<Rightarrow> pair_t \<Rightarrow> bool" where
  "hit same h k p = same (the (key_at h (key p))) k"

text \<open>Where a key is found in its bucket, and the value struct found there.\<close>

definition position ::
    "('k \<Rightarrow> int) \<Rightarrow> ('k \<Rightarrow> 'k \<Rightarrow> bool) \<Rightarrow> ('k, 'v) cells \<Rightarrow> (nat \<Rightarrow> pair_t list) \<Rightarrow> 'k \<Rightarrow> nat option" where
  "position hash_fn same h P k = first_index (hit same h k) (P (slot hash_fn k))"

definition lookup ::
    "('k \<Rightarrow> int) \<Rightarrow> ('k \<Rightarrow> 'k \<Rightarrow> bool) \<Rightarrow> ('k, 'v) cells \<Rightarrow> (nat \<Rightarrow> pair_t list) \<Rightarrow> 'k \<Rightarrow> 'v option" where
  "lookup hash_fn same h P k =
     (case position hash_fn same h P k of
        None \<Rightarrow> None
      | Some i \<Rightarrow> val_at h (value (P (slot hash_fn k) ! i)))"

lemma tableD:
  assumes "table hash_fn equals_fn valid hm h P"
  shows "hash hm = hash_fn" "equals hm = equals_fn" "bucket_is (buckets hm ind) (P ind)"
    "unaliased key P" "unaliased value P"
    "p \<in> set (P ind) \<Longrightarrow> \<exists>k v. key_at h (key p) = Some k \<and> valid k \<and> slot hash_fn k = ind \<and> val_at h (value p) = Some v"
  using assms unfolding table_def live_pair_def by blast+

lemma bucket_is_update: "bucket_is bo ps \<Longrightarrow> bo = Some b \<Longrightarrow> represents PAIR_SIZE b ps"
  by (simp add: bucket_is_def)

lemma unaliasedD:
  "unaliased f P \<Longrightarrow> i < length (P ind) \<Longrightarrow> j < length (P ind') \<Longrightarrow> f (P ind ! i) = f (P ind' ! j) \<Longrightarrow>
   ind = ind' \<and> i = j"
proof -
  assume u: "unaliased f P" and b: "i < length (P ind)" "j < length (P ind')"
    and e: "f (P ind ! i) = f (P ind' ! j)"
  have "(ind, i) = (ind', j)"
    by (rule inj_onD[OF u[unfolded unaliased_def]]) (use b e in \<open>simp_all add: places_def\<close>)
  then show ?thesis by simp
qed

lemma unaliased_snoc:
  assumes u: "unaliased f P" and n: "\<not> mentions f P (f p)"
  shows "unaliased f (P(ind := P ind @ [p]))"
proof -
  let ?Q = "P(ind := P ind @ [p])" and ?new = "(ind, length (P ind))"
  have pl: "places ?Q = insert ?new (places P)"
    by (auto simp: places_def less_Suc_eq split: if_splits)
  have same: "f (?Q i ! j) = f (P i ! j)" if "(i, j) \<in> places P" for i j
    using that by (auto simp: places_def nth_append)
  have "inj_on (\<lambda>(i, j). f (?Q i ! j)) (places P) = inj_on (\<lambda>(i, j). f (P i ! j)) (places P)"
    by (rule inj_on_cong) (use same in \<open>simp only: split_paired_all case_prod_conv\<close>)
  then have "inj_on (\<lambda>(i, j). f (?Q i ! j)) (places P)" using u by (simp only: unaliased_def)
  moreover have "f (?Q ind ! length (P ind)) \<notin> (\<lambda>(i, j). f (?Q i ! j)) ` places P"
  proof
    assume "f (?Q ind ! length (P ind)) \<in> (\<lambda>(i, j). f (?Q i ! j)) ` places P"
    then obtain i j where ij: "(i, j) \<in> places P" "f p = f (?Q i ! j)" by auto
    then have "f (P i ! j) = f p" "P i ! j \<in> set (P i)" using same[OF ij(1)] by (simp_all add: places_def)
    then show False using n by (auto simp: mentions_def)
  qed
  ultimately show ?thesis unfolding unaliased_def pl inj_on_insert
    by (auto simp only: case_prod_conv)
qed

lemma copy_struct_Inr:
  "copy_struct at dst src = Inr at' \<longleftrightarrow>
     dst \<noteq> src \<and> at dst \<noteq> None \<and> at src \<noteq> None \<and> at' = at(dst := at src)"
  by (auto simp: copy_struct_def)

text \<open>
  The contract of \<open>hash_map_put\<close>: the table stays well formed, the key finds the new value
  afterwards, every other key finds what it found before, no pair is added but the new one, and
  the pointer returned is the value cell of the entry that was there, or null.
\<close>

definition put_post ::
    "('k \<Rightarrow> int) \<Rightarrow> ('k \<Rightarrow> 'k \<Rightarrow> bool res) \<Rightarrow> ('k \<Rightarrow> bool) \<Rightarrow> ('k \<Rightarrow> 'k \<Rightarrow> bool) \<Rightarrow>
     ('k, 'v) cells \<Rightarrow> (nat \<Rightarrow> pair_t list) \<Rightarrow> pair_t \<Rightarrow> 'k \<Rightarrow> 'v \<Rightarrow>
     'k hash_map_t \<times> ('k, 'v) cells \<times> nat option \<Rightarrow> bool" where
  "put_post hash_fn equals_fn valid same h P new k v r =
     (case r of (hm', h', ret) \<Rightarrow>
       ret = map_option (\<lambda>i. value (P (slot hash_fn k) ! i)) (position hash_fn same h P k) \<and>
       (\<exists>P'. table hash_fn equals_fn valid hm' h' P' \<and>
         (\<forall>ind. set (P' ind) \<subseteq> insert new (set (P ind))) \<and>
         (\<forall>q. valid q \<longrightarrow>
            lookup hash_fn same h' P' q = (if same k q then Some v else lookup hash_fn same h P q))))"

locale key_ops =
  fixes hash_fn :: "'k \<Rightarrow> int"
    and equals_fn :: "'k \<Rightarrow> 'k \<Rightarrow> bool res"
    and valid :: "'k \<Rightarrow> bool"
    and same :: "'k \<Rightarrow> 'k \<Rightarrow> bool"
  assumes equals_same: "valid a \<Longrightarrow> valid b \<Longrightarrow> equals_fn a b = Inr (same a b)"
    and same_refl: "valid a \<Longrightarrow> same a a"
    and same_sym: "valid a \<Longrightarrow> valid b \<Longrightarrow> same a b \<Longrightarrow> same b a"
    and same_trans: "valid a \<Longrightarrow> valid b \<Longrightarrow> valid c \<Longrightarrow> same a b \<Longrightarrow> same b c \<Longrightarrow> same a c"
    and hash_same: "valid a \<Longrightarrow> valid b \<Longrightarrow> same a b \<Longrightarrow> hash_fn a = hash_fn b"
    and hash_range: "valid a \<Longrightarrow> INT_MIN < hash_fn a \<and> hash_fn a \<le> INT_MAX"
begin

lemma bucket_index_slot: "valid k \<Longrightarrow> bucket_index (hash_fn k) = Inr (slot hash_fn k)"
  using bucket_index_bound[of "hash_fn k"] hash_range[of k] by (auto simp: slot_def)

lemma slot_same: "valid a \<Longrightarrow> valid b \<Longrightarrow> same a b \<Longrightarrow> slot hash_fn a = slot hash_fn b"
  by (simp add: slot_def hash_same)

lemma same_cong: "valid a \<Longrightarrow> valid b \<Longrightarrow> valid c \<Longrightarrow> same b c \<Longrightarrow> same a b = same a c"
  using same_sym same_trans by blast

lemma scan_bucket:
  assumes "table hash_fn equals_fn valid hm h P" and "valid k"
    and "represents PAIR_SIZE b (P (slot hash_fn k))"
  shows "scan (vector_get b) (pair_matches hm h k) (cnt b) 0 = Inr (position hash_fn same h P k)"
proof -
  have "pair_matches hm h k p = Inr (hit same h k p)" if p: "p \<in> set (P (slot hash_fn k))" for p
  proof -
    obtain pk where "key_at h (key p) = Some pk" "valid pk"
      using tableD(6)[OF assms(1) p] by blast
    then show ?thesis
      using assms(2) tableD(2)[OF assms(1)] by (simp add: pair_matches_def deref_key_def hit_def equals_same)
  qed
  from cv.scan_all[OF assms(3) this] show ?thesis by (simp add: position_def)
qed

lemma hash_map_get_table:
  assumes "table hash_fn equals_fn valid hm h P" and "key_at h a = Some k" and "valid k"
  shows "hash_map_get hm h a =
    Inr (map_option (\<lambda>i. value (P (slot hash_fn k) ! i)) (position hash_fn same h P k))"
proof -
  let ?ind = "slot hash_fn k"
  have hb: "hash hm = hash_fn" "bucket_is (buckets hm ?ind) (P ?ind)"
    using assms(1) by (auto simp: table_def)
  show ?thesis
  proof (cases "buckets hm ?ind")
    case None
    then show ?thesis using hb assms(2,3)
      by (simp add: hash_map_get_def deref_key_def bucket_index_slot bucket_is_def position_def)
  next
    case (Some b)
    then have rep: "represents PAIR_SIZE b (P ?ind)" using hb by (simp add: bucket_is_def)
    have "vector_get b i = Inr (P ?ind ! i)" if "position hash_fn same h P k = Some i" for i
      using that vector_get_represents[OF rep] by (simp add: position_def first_index_Some)
    then show ?thesis using hb(1) Some assms(2,3) scan_bucket[OF assms(1,3) rep]
      by (auto simp: hash_map_get_def deref_key_def bucket_index_slot split: option.splits)
  qed
qed

lemma get_put_miss:
  assumes t: "table hash_fn equals_fn valid hm h P" and k: "key_at h ka = Some k" "valid k"
    and v: "val_at h va = Some v" and pos: "position hash_fn same h P k = None"
    and fresh: "\<not> mentions key P ka" "\<not> mentions value P va"
    and b: "represents PAIR_SIZE b (P (slot hash_fn k) @ [\<lparr>key = ka, value = va\<rparr>])"
  defines "P' \<equiv> P(slot hash_fn k := P (slot hash_fn k) @ [\<lparr>key = ka, value = va\<rparr>])"
  shows "table hash_fn equals_fn valid (hm\<lparr>buckets := (buckets hm)(slot hash_fn k := Some b)\<rparr>) h P'"
    and "valid q \<Longrightarrow> lookup hash_fn same h P' q = (if same k q then Some v else lookup hash_fn same h P q)"
proof -
  let ?p = "\<lparr>key = ka, value = va\<rparr>" and ?s = "slot hash_fn k"
  have "unaliased key P'" "unaliased value P'"
    using unaliased_snoc[OF tableD(4)[OF t], of ?p ?s] unaliased_snoc[OF tableD(5)[OF t], of ?p ?s] fresh
    by (simp_all add: P'_def)
  moreover have "live_pair hash_fn valid h ind p" if "p \<in> set (P' ind)" for ind p
    using that tableD(6)[OF t, of p ind] k v
    by (auto simp: P'_def live_pair_def split: if_splits)
  ultimately show "table hash_fn equals_fn valid (hm\<lparr>buckets := (buckets hm)(?s := Some b)\<rparr>) h P'"
    using tableD(1-3)[OF t] b by (auto simp: table_def P'_def bucket_is_def)
  show "lookup hash_fn same h P' q = (if same k q then Some v else lookup hash_fn same h P q)" if q: "valid q"
  proof (cases "slot hash_fn q = ?s")
    case False
    then have "\<not> same k q" using slot_same[OF k(2) q] by metis
    then show ?thesis using False by (simp add: lookup_def position_def P'_def split: option.split)
  next
    case True
    have miss: "first_index (hit same h q) (P ?s) = None" if "same k q"
    proof -
      have "\<not> same (the (key_at h (key p))) q" if p: "p \<in> set (P ?s)" for p
      proof -
        obtain pk where pk: "key_at h (key p) = Some pk" "valid pk" using tableD(6)[OF t p] by blast
        then have "\<not> same pk k" using pos p by (auto simp: position_def first_index_None hit_def)
        then show ?thesis using same_cong[OF pk(2) k(2) q \<open>same k q\<close>] pk(1) by simp
      qed
      then show ?thesis by (simp add: first_index_None hit_def)
    qed
    have hitp: "hit same h q ?p = same k q" using k(1) by (simp add: hit_def)
    show ?thesis
    proof (cases "first_index (hit same h q) (P ?s)")
      case None
      then have "first_index (hit same h q) (P ?s @ [?p]) = (if same k q then Some (length (P ?s)) else None)"
        by (auto simp: first_index_None first_index_Some hitp nth_append)
      then show ?thesis using None True v by (simp add: lookup_def position_def P'_def)
    next
      case (Some i)
      then have "first_index (hit same h q) (P ?s @ [?p]) = Some i" "i < length (P ?s)"
        by (auto simp: first_index_Some nth_append)
      then show ?thesis using Some True miss by (auto simp: lookup_def position_def P'_def nth_append)
    qed
  qed
qed

text \<open>Overwriting the structs of the entry found keeps every other entry.\<close>

lemma get_put_hit:
  fixes v :: 'v
  assumes t: "table hash_fn equals_fn valid hm h P" and k: "valid k"
    and pos: "position hash_fn same h P k = Some i"
  defines "p \<equiv> P (slot hash_fn k) ! i"
  defines "h' \<equiv> (h :: ('k, 'v) cells)\<lparr>key_at := (key_at h)(key p := Some k), val_at := (val_at h)(value p := Some v)\<rparr>"
  shows "table hash_fn equals_fn valid hm h' P"
    and "valid q \<Longrightarrow> lookup hash_fn same h' P q = (if same k q then Some v else lookup hash_fn same h P q)"
proof -
  let ?s = "slot hash_fn k"
  have i: "i < length (P ?s)" "hit same h k p"
    using pos by (simp_all add: position_def first_index_Some p_def)
  obtain pk where pk: "key_at h (key p) = Some pk" "valid pk"
    using tableD(6)[OF t, of p ?s] i(1) by (auto simp: p_def)
  have pk_k: "same pk k" using i(2) pk(1) by (simp add: hit_def)
  have key_p: "key p' = key p \<longleftrightarrow> ind = ?s \<and> j = i" and val_p: "value p' = value p \<longleftrightarrow> ind = ?s \<and> j = i"
    if "j < length (P ind)" "p' = P ind ! j" for p' ind j
    using that i(1) unaliasedD[OF tableD(4)[OF t], of j ind i ?s]
      unaliasedD[OF tableD(5)[OF t], of j ind i ?s] by (auto simp: p_def)
  have "live_pair hash_fn valid h' ind p'" if p': "p' \<in> set (P ind)" for ind p'
  proof -
    obtain j where j: "j < length (P ind)" "p' = P ind ! j" using p' by (metis in_set_conv_nth)
    show ?thesis using tableD(6)[OF t p'] key_p[OF j] val_p[OF j] k
      by (auto simp: live_pair_def h'_def)
  qed
  then show "table hash_fn equals_fn valid hm h' P" using t by (simp add: table_def)
  show "lookup hash_fn same h' P q = (if same k q then Some v else lookup hash_fn same h P q)" if q: "valid q"
  proof -
    have hit_eq: "hit same h' q p' = hit same h q p'" if p': "p' \<in> set (P ind)" for p' ind
    proof (cases "key p' = key p")
      case True
      have "same k q = same pk q"
        using same_sym[OF pk(2) k pk_k] same_sym same_trans pk(2) k q pk_k by blast
      then show ?thesis using True pk(1) by (simp add: hit_def h'_def)
    qed (simp add: hit_def h'_def)
    have first_eq: "first_index (hit same h' q) xs = first_index (hit same h q) xs"
      if "set xs \<subseteq> set (P ind)" for xs ind
      using that by (induction xs) (auto simp: hit_eq)
    have pos_eq: "position hash_fn same h' P q = position hash_fn same h P q"
      using first_eq[of "P (slot hash_fn q)" "slot hash_fn q"] by (simp add: position_def)
    show ?thesis
    proof (cases "same k q")
      case True
      have "hit same h q p' = hit same h k p'" if p': "p' \<in> set (P ?s)" for p'
      proof -
        obtain k' where "key_at h (key p') = Some k'" "valid k'" using tableD(6)[OF t p'] by blast
        then show ?thesis using same_cong[OF _ k q True] by (simp add: hit_def)
      qed
      then have "first_index (hit same h q) xs = first_index (hit same h k) xs" if "set xs \<subseteq> set (P ?s)" for xs
        using that by (induction xs) auto
      then have "position hash_fn same h P q = Some i"
        using pos slot_same[OF k q True] by (simp add: position_def)
      then show ?thesis using True pos_eq slot_same[OF k q True]
        by (simp add: lookup_def p_def h'_def)
    next
      case False
      have "val_at h' (value (P (slot hash_fn q) ! j)) = val_at h (value (P (slot hash_fn q) ! j))"
        if j: "position hash_fn same h P q = Some j" for j
      proof -
        have j': "j < length (P (slot hash_fn q))" "hit same h q (P (slot hash_fn q) ! j)"
          using j by (simp_all add: position_def first_index_Some)
        have "\<not> (slot hash_fn q = ?s \<and> j = i)"
        proof
          assume "slot hash_fn q = ?s \<and> j = i"
          then have "same pk q" using j'(2) pk(1) by (simp add: hit_def p_def)
          then show False using False same_sym same_trans pk(2) k q pk_k by blast
        qed
        then have "value (P (slot hash_fn q) ! j) \<noteq> value p" using val_p[OF j'(1) refl] by blast
        then show ?thesis by (simp add: h'_def)
      qed
      then show ?thesis using False pos_eq by (auto simp: lookup_def split: option.split)
    qed
  qed
qed

lemma hash_map_put_table:
  assumes t: "table hash_fn equals_fn valid hm h P" and al: "al_ok al"
    and k: "key_at h ka = Some k" "valid k" and v: "val_at h va = Some v"
    and fresh: "\<not> mentions key P ka" "\<not> mentions value P va"
  shows "case hash_map_put al hm h ka va of
      Inr r \<Rightarrow> put_post hash_fn equals_fn valid same h P \<lparr>key = ka, value = va\<rparr> k v r
    | Inl e \<Rightarrow> e = Exit \<or> e = Undefined \<and> \<not> al VPAIR_SIZE"
proof -
  let ?s = "slot hash_fn k"
  define get where "get = (case buckets hm ?s of Some b \<Rightarrow> Inr b | None \<Rightarrow>
     if al VPAIR_SIZE then Inr (vector_init \<lparr>ptr = null_block, cnt = 0, capacity = 0\<rparr>) else Inl Undefined)"
  have put: "hash_map_put al hm h ka va =
     bind_r get (\<lambda>bucket.
     bind_r (scan (vector_get bucket) (pair_matches hm h k) (cnt bucket) 0) (\<lambda>found.
     (case found of
        Some i \<Rightarrow>
          bind_r (vector_get bucket i) (\<lambda>p.
          bind_r (copy_struct (key_at h) (key p) ka) (\<lambda>ks.
          bind_r (copy_struct (val_at h) (value p) va) (\<lambda>vs.
          Inr (hm\<lparr>buckets := (buckets hm)(?s := Some bucket)\<rparr>,
               h\<lparr>key_at := ks, val_at := vs\<rparr>, Some (value p)))))
      | None \<Rightarrow>
          bind_r (vector_push_back al PAIR_SIZE bucket \<lparr>key = ka, value = va\<rparr>) (\<lambda>bucket'.
          Inr (hm\<lparr>buckets := (buckets hm)(?s := Some bucket')\<rparr>, h, None)))))"
    using k tableD(1)[OF t] by (simp add: hash_map_put_def deref_key_def bucket_index_slot get_def)
  show ?thesis
  proof (cases get)
    case (Inl e)
    then show ?thesis unfolding put by (auto simp: get_def split: option.splits if_splits)
  next
    case (Inr b)
    have rep: "represents PAIR_SIZE b (P ?s)"
      using Inr tableD(3)[OF t, of ?s]
      by (auto simp: get_def bucket_is_def vector_init_represents split: option.splits if_splits)
    note scan = scan_bucket[OF t k(2) rep]
    show ?thesis
    proof (cases "position hash_fn same h P k")
      case None
      show ?thesis
      proof (cases "vector_push_back al PAIR_SIZE b \<lparr>key = ka, value = va\<rparr>")
        case (Inl e)
        then show ?thesis unfolding put using \<open>get = Inr b\<close> scan None
            vector_push_back_spec[OF rep al, of "\<lparr>key = ka, value = va\<rparr>"] by simp
      next
        case (Inr b')
        then have "represents PAIR_SIZE b' (P ?s @ [\<lparr>key = ka, value = va\<rparr>])"
          using vector_push_back_spec[OF rep al, of "\<lparr>key = ka, value = va\<rparr>"] by simp
        note g = get_put_miss[OF t k v None fresh this]
        show ?thesis unfolding put put_post_def using \<open>get = Inr b\<close> scan None Inr g(1)
          by (auto simp: g(2) intro!: exI[of _ "P(?s := P ?s @ [\<lparr>key = ka, value = va\<rparr>])"] split: if_splits)
      qed
    next
      case (Some i)
      let ?p = "P ?s ! i"
      have i: "i < length (P ?s)" using Some by (simp add: position_def first_index_Some)
      then have m: "?p \<in> set (P ?s)" by simp
      then have ne: "key ?p \<noteq> ka" "value ?p \<noteq> va" using fresh by (auto simp: mentions_def)
      obtain pk pv where live: "key_at h (key ?p) = Some pk" "val_at h (value ?p) = Some pv"
        using tableD(6)[OF t m] by blast
      have "buckets hm ?s = Some b"
        using i Inr tableD(3)[OF t, of ?s] by (auto simp: get_def bucket_is_def split: option.splits)
      then have same_hm: "hm\<lparr>buckets := (buckets hm)(?s := Some b)\<rparr> = hm" by (simp add: fun_upd_idem)
      note g = get_put_hit[OF t k(2) Some, where v = v]
      show ?thesis unfolding put put_post_def
        using \<open>get = Inr b\<close> scan Some vector_get_represents[OF rep i] ne live k v same_hm g(1)
        by (auto simp: copy_struct_def g(2) intro!: exI[of _ P])
    qed
  qed
qed

end

end
