(* ===== verification/Socket_Utils.thy ===== *)
theory Socket_Utils
  imports Cstring "HOL-Library.Word"
begin

text \<open>
  \<open>proxy/socket_utils.h\<close>, \<open>proxy/socket_utils.c\<close> and the status and assertion macros of
  \<open>proxy/common.h\<close>: the listening socket, accepting, name resolution and connecting. System
  calls and the resolver are the environment: a record of what they return in this call. What
  the code does to the outside world is a log of \<open>io\<close> events.
\<close>

unbundle bit_operations_syntax

section \<open>Macros and constants\<close>

datatype STATUS = ERROR | SUCCESS

definition status_code :: "STATUS \<Rightarrow> int" where
  "status_code s = (case s of ERROR \<Rightarrow> -1 | SUCCESS \<Rightarrow> 0)"

text \<open>
  \<open>ASSERT_RETURN_C(cond, on_fail)\<close> returns \<open>ERROR\<close> and never runs \<open>on_fail\<close>; the argument
  is kept here to say so.
\<close>

definition assert_return_c :: "bool \<Rightarrow> ('s \<Rightarrow> 's) \<Rightarrow> ('s \<Rightarrow> STATUS \<times> 's) \<Rightarrow> 's \<Rightarrow> STATUS \<times> 's" where
  "assert_return_c c on_fail k s = (if \<not> c then (ERROR, s) else k s)"

definition AF_INET :: int where
  "AF_INET = 2"

definition INADDR_ANY :: "32 word" where
  "INADDR_ANY = 0"

definition EINPROGRESS :: int where
  "EINPROGRESS = 115"

definition O_NONBLOCK :: int where
  "O_NONBLOCK = 2048"

text \<open>\<open>htons\<close> on a little-endian machine swaps the two bytes.\<close>

definition htons :: "16 word \<Rightarrow> 16 word" where
  "htons p = push_bit 8 p OR drop_bit 8 p"

section \<open>Data\<close>

record sockaddr_in =
  sin_family :: int
  sin_port :: "16 word"
  s_addr :: "8 word list"
  sin_zero :: "8 word list"

record servsock_t =
  sock_fd :: int
  addr :: sockaddr_in
  socklen :: nat

record hostent =
  h_addr :: "8 word list"
  h_length :: nat

datatype io =
    Read int "char list"
  | Write int "char list"
  | Close int
  | Socket int
  | Bind int "16 word"
  | Listen int int
  | Connect int sockaddr_in

section \<open>Operations\<close>

text \<open>What the calls of one \<open>create_servsock\<close> return: socket, setsockopt, bind, listen.\<close>

record server_env =
  se_socket :: int
  se_setsockopt :: int
  se_bind :: int
  se_listen :: int

definition SOCKADDR_SIZE :: nat where
  "SOCKADDR_SIZE = 16"

definition create_servsock ::
    "server_env \<Rightarrow> 16 word \<Rightarrow> int \<Rightarrow> servsock_t \<times> io list \<Rightarrow> STATUS \<times> servsock_t \<times> io list" where
  "create_servsock e port limit s =
     (let server_fd = se_socket e in
      if \<not> server_fd \<ge> 0 then (ERROR, s) else
      let s = (fst s, snd s @ [Socket server_fd]);
          close_fd = (\<lambda>(sock, log). (sock, log @ [Close server_fd])) in
      assert_return_c (se_setsockopt e = 0) close_fd (\<lambda>(sock, log).
      let sock = sock\<lparr>addr := (addr sock)\<lparr>sin_family := AF_INET, s_addr := [0, 0, 0, 0],
                   sin_port := htons port\<rparr>, sock_fd := server_fd, socklen := SOCKADDR_SIZE\<rparr> in
      assert_return_c (se_bind e = 0) close_fd (\<lambda>(sock, log).
      assert_return_c (se_listen e = 0) close_fd (\<lambda>(sock, log).
      (SUCCESS, sock, log @ [Listen server_fd limit]))
        (sock, log @ [Bind server_fd (sin_port (addr sock))])) (sock, log)) s)"

definition close_servsock :: "int \<Rightarrow> STATUS" where
  "close_servsock shutdown_rc = (if \<not> shutdown_rc = 0 then ERROR else SUCCESS)"

text \<open>
  \<open>accept_fd\<close> is the result of \<open>accept\<close>, \<open>fl\<close> that of \<open>fcntl(F_GETFL)\<close>, \<open>setfl\<close> maps the
  flags given to \<open>fcntl(F_SETFL)\<close> to its result.
\<close>

definition accept_servsock :: "int \<Rightarrow> int \<Rightarrow> (int \<Rightarrow> int) \<Rightarrow> bool \<Rightarrow> int" where
  "accept_servsock accept_fd fl setfl is_non_blocking =
     (let rc = (if is_non_blocking then setfl (fl OR O_NONBLOCK) else 0)
      in if accept_fd \<ge> 0 \<and> rc = 0 then accept_fd else status_code ERROR)"

text \<open>
  \<open>name2addr\<close>: \<open>memcpy\<close> of \<open>h_length\<close> bytes of the first address into the four bytes of
  \<open>s_addr\<close>.
\<close>

definition name2addr ::
    "(char list \<Rightarrow> hostent option) \<Rightarrow> char list \<Rightarrow> 16 word \<Rightarrow> sockaddr_in \<Rightarrow> (STATUS \<times> sockaddr_in) res" where
  "name2addr resolve host_name host_port sock_addr =
     (case resolve host_name of
        None \<Rightarrow> Inr (ERROR, sock_addr)
      | Some server \<Rightarrow>
          bind_r (defined_r (h_length server \<le> 4 \<and> h_length server \<le> length (h_addr server))) (\<lambda>_.
          Inr (SUCCESS, sock_addr\<lparr>sin_zero := replicate 8 0, sin_family := AF_INET,
            sin_port := htons host_port,
            s_addr := take (h_length server) (h_addr server) @ drop (h_length server) (s_addr sock_addr)\<rparr>)))"

text \<open>The local \<open>host_addr\<close> of \<open>connect_to_host\<close> is uninitialised: \<open>junk\<close>.\<close>

definition connect_to_host ::
    "(char list \<Rightarrow> hostent option) \<Rightarrow> (sockaddr_in \<Rightarrow> int) \<Rightarrow> sockaddr_in \<Rightarrow> int \<Rightarrow> char list \<Rightarrow> 16 word \<Rightarrow>
     (int \<times> io list) res" where
  "connect_to_host resolve connect junk fd host_name host_port =
     bind_r (name2addr resolve host_name host_port junk) (\<lambda>(st, host_addr).
     if st \<noteq> SUCCESS then Inr (-1, []) else Inr (connect host_addr, [Connect fd host_addr]))"

section \<open>Lemmas\<close>

lemma htons_htons: "htons (htons p) = p"
  by (rule bit_word_eqI) (auto simp: htons_def bit_simps)

text \<open>The documented contract of the resolver for IPv4: addresses of four bytes.\<close>

definition resolver_ok :: "(char list \<Rightarrow> hostent option) \<Rightarrow> bool" where
  "resolver_ok resolve =
     (\<forall>name s. resolve name = Some s \<longrightarrow> h_length s = 4 \<and> length (h_addr s) = 4)"

lemma connect_to_host_cases:
  assumes "resolver_ok resolve"
  shows "connect_to_host resolve connect junk fd name port =
    (case resolve name of
       None \<Rightarrow> Inr (-1, [])
     | Some s \<Rightarrow>
         let a = junk\<lparr>sin_zero := replicate 8 0, sin_family := AF_INET, sin_port := htons port,
               s_addr := h_addr s @ drop 4 (s_addr junk)\<rparr>
         in Inr (connect a, [Connect fd a]))"
  using assms
  by (auto simp: connect_to_host_def name2addr_def resolver_ok_def Let_def split: option.splits)

lemma connect_to_host_safe:
  assumes "resolver_ok resolve"
  shows "\<exists>rc log. connect_to_host resolve connect junk fd name port = Inr (rc, log) \<and>
    (log = [] \<and> rc = -1 \<or> (\<exists>a. log = [Connect fd a]))"
  by (auto simp: connect_to_host_cases[OF assms] Let_def split: option.splits)

lemma create_servsock_status:
  "fst (create_servsock e port limit s) = SUCCESS \<longleftrightarrow>
     0 \<le> se_socket e \<and> se_setsockopt e = 0 \<and> se_bind e = 0 \<and> se_listen e = 0"
  by (cases s) (auto simp: create_servsock_def assert_return_c_def Let_def)

text \<open>A failure after the socket was created leaves it open: \<open>Close\<close> is never logged.\<close>

lemma create_servsock_never_closes:
  "snd (snd (create_servsock e port limit (sock, []))) = log \<Longrightarrow> Close fd \<notin> set log"
  by (auto simp: create_servsock_def assert_return_c_def Let_def split: if_splits)

end
