(* ===== verification/Connection_Handler.thy ===== *)
theory Connection_Handler
  imports Http_Parser Hash_Map Socket_Utils
begin

text \<open>
  \<open>proxy/connection_handler.h\<close> and \<open>proxy/connection_handler.c\<close>: the context of one proxied
  connection, its creation and destruction, the copy of a finished exchange into the cache, one
  definition per handling step, and \<open>handle\<close>, which runs the steps one readiness event allows.
  A step maps the context and the shared world to their new values; what the system calls of
  this invocation return is the record \<open>env\<close> (at most one read, one write, one socket, one
  connect and one getsockopt happen in an invocation). The \<open>#ifdef CACHED\<close> and \<open>KEEP_ALIVE\<close>
  blocks are compiled out by the source and not part of the model.
\<close>

section \<open>State\<close>

datatype HandlingStep =
    PARSING_REQ_TYPE | PARSING_REQ_HEADERS
  | CONNECT_STEP | SENDING_REQ
  | PARSING_RESP_CODE | PARSING_RESP_HEADERS | PARSING_RESP_BODY
  | SENDING_RESP
  | HANDLED | HANDLED_EXCEPTIONALLY

datatype ConnectionState = NOT_CONNECTED | AWAIT_CONNECTION | CONNECTED

record handler_context_t =
  client_fd :: int
  server_fd :: int
  connection_state :: ConnectionState
  client_events :: int
  server_events :: int
  request :: request_t
  response :: response_t
  cbuff :: "char vec"
  cppos :: nat
  sended :: nat
  read_cnt :: nat
  sbuff :: "char vec"
  sppos :: nat
  chunk_size :: int
  chunk_read :: nat
  handling_step :: HandlingStep

text \<open>
  The hash map every context points to through its \<open>hm\<close> field, the heap of the requests and
  buffers it stores, the next unused address of that heap, \<open>last_fd\<close>, and the log of input and
  output.
\<close>

record world =
  w_hm :: "request_t hash_map_t"
  w_cells :: "(request_t, char vec) cells"
  w_next :: nat
  last_fd :: int
  w_io :: "io list"

type_synonym hst = "handler_context_t \<times> world"

text \<open>
  What the system calls of one invocation return; \<open>errno\<close> is its value after connecting, \<open>e_epipe\<close> says
  that the peer of the descriptor written to has closed its end.
\<close>

record env =
  e_read :: "char list option"
  e_write :: int
  e_epipe :: bool
  e_getsockopt :: int
  e_so_error :: int
  e_socket :: int
  e_resolve :: "char list \<Rightarrow> hostent option"
  e_connect :: "sockaddr_in \<Rightarrow> int"
  e_errno :: int
  e_junk_addr :: sockaddr_in

definition POLLIN :: int where
  "POLLIN = 1"

definition POLLOUT :: int where
  "POLLOUT = 4"

definition has_event :: "int \<Rightarrow> int \<Rightarrow> bool" where
  "has_event events flag = (events AND flag \<noteq> 0)"

definition MIN_READ_BUFF_SIZE :: nat where
  "MIN_READ_BUFF_SIZE = 10000"

definition DEFAULT_PORT :: "16 word" where
  "DEFAULT_PORT = 80"

definition CHAR_SIZE :: nat where
  "CHAR_SIZE = 1"

definition REQUEST_SIZE :: nat where
  "REQUEST_SIZE = 56"

definition VCHAR_SIZE :: nat where
  "VCHAR_SIZE = 24"

definition log_io :: "io list \<Rightarrow> world \<Rightarrow> world" where
  "log_io es w = w\<lparr>w_io := w_io w @ es\<rparr>"

section \<open>Creation and destruction\<close>

text \<open>
  \<open>context\<close> is the uninitialised memory the caller passes: the fields the code does not set keep
  its values.
\<close>

definition init_context :: "allocator \<Rightarrow> handler_context_t \<Rightarrow> int \<Rightarrow> handler_context_t res" where
  "init_context al ctx fd =
     bind_r (vector_forced_alloc al CHAR_SIZE (vector_init (cbuff ctx))) (\<lambda>cb.
     bind_r (vector_forced_alloc al CHAR_SIZE (vector_init (sbuff ctx))) (\<lambda>sb.
     Inr (ctx\<lparr>request := request_init (request ctx), response := response_init (response ctx),
       cbuff := cb, cppos := 0, sbuff := sb, sppos := 0, sended := 0,
       connection_state := NOT_CONNECTED, client_fd := fd, server_fd := -1,
       client_events := POLLIN, server_events := 0, handling_step := PARSING_REQ_TYPE\<rparr>)))"

definition destroy_context :: "hst \<Rightarrow> hst res" where
  "destroy_context s =
     (case s of (ctx, w) \<Rightarrow>
       bind_r (request_destroy (request ctx)) (\<lambda>rq.
       bind_r (response_destroy (response ctx)) (\<lambda>rs.
       Inr (ctx\<lparr>request := rq, response := rs, cbuff := vector_free (cbuff ctx),
              sbuff := vector_free (sbuff ctx), handling_step := HANDLED_EXCEPTIONALLY\<rparr>,
            log_io (Close (client_fd ctx) # (if server_fd ctx \<noteq> -1 then [Close (server_fd ctx)] else [])) w))))"

section \<open>Caching\<close>

definition str_copy :: "allocator \<Rightarrow> cstr \<Rightarrow> cstr res" where
  "str_copy al src =
     (if src = Null then Inr Null
      else bind_r (cstr_val src) (\<lambda>s.
           bind_r (assert_r (al (sz_add (length s) 1))) (\<lambda>_. Inr (Str s))))"

definition copy_header :: "allocator \<Rightarrow> header_t \<Rightarrow> header_t res" where
  "copy_header al orig =
     bind_r (str_copy al (hdr_value orig)) (\<lambda>v.
     bind_r (str_copy al (hdr_type orig)) (\<lambda>t.
     Inr \<lparr>hdr_type = t, hdr_value = v\<rparr>))"

definition copy_request :: "allocator \<Rightarrow> request_t \<Rightarrow> request_t res" where
  "copy_request al rq =
     (let headers = vector_init \<lparr>ptr = null_block, cnt = 0, capacity = 0\<rparr> in
      bind_r (str_copy al (req_type rq)) (\<lambda>t.
      bind_r (str_copy al (uri rq)) (\<lambda>u.
      bind_r (str_copy al (req_version rq)) (\<lambda>v.
      bind_r (str_copy al (req_body rq)) (\<lambda>b.
      bind_r (transfer (vector_get (req_headers rq)) (copy_header al) (vector_push_back al HEADER_SIZE)
                (cnt (req_headers rq)) 0 headers) (\<lambda>hs.
      Inr \<lparr>req_type = t, uri = u, req_version = v, req_headers = hs, req_body = b\<rparr>))))))"

text \<open>Reading \<open>n\<close> bytes of a block from an offset, as \<open>memcpy\<close> and \<open>write\<close> do.\<close>

fun read_bytes :: "char block \<Rightarrow> nat \<Rightarrow> nat \<Rightarrow> char list res" where
  "read_bytes b off 0 = Inr []"
| "read_bytes b off (Suc n) = bind_r (load b off) (\<lambda>c. bind_r (read_bytes b (off + 1) n) (\<lambda>s. Inr (c # s)))"

definition copy_buffer :: "allocator \<Rightarrow> char vec \<Rightarrow> char vec res" where
  "copy_buffer al v =
     bind_r (assert_r (al (capacity v))) (\<lambda>_.
     bind_r (read_bytes (ptr v) 0 (cnt v)) (\<lambda>bs.
     bind_r (store_list (fresh_block (capacity v)) 0 bs) (\<lambda>b.
     Inr \<lparr>ptr = b, cnt = cnt v, capacity = capacity v\<rparr>)))"

definition cache :: "allocator \<Rightarrow> hst \<Rightarrow> hst res" where
  "cache al s =
     (case s of (ctx, w) \<Rightarrow>
       bind_r (assert_r (al REQUEST_SIZE \<and> al VCHAR_SIZE)) (\<lambda>_.
       bind_r (copy_request al (request ctx)) (\<lambda>req_copy.
       bind_r (copy_buffer al (sbuff ctx)) (\<lambda>resp_buff_copy.
       let ka = w_next w; va = w_next w + 1;
           h = (w_cells w)\<lparr>key_at := (key_at (w_cells w))(ka := Some req_copy),
                           val_at := (val_at (w_cells w))(va := Some resp_buff_copy)\<rparr> in
       bind_r (hash_map_put al (w_hm w) h ka va) (\<lambda>(hm', h', _).
       Inr (ctx, w\<lparr>w_hm := hm', w_cells := h', w_next := w_next w + 2\<rparr>))))))"

section \<open>Reading into a buffer\<close>

definition read_to_vchar ::
    "allocator \<Rightarrow> env \<Rightarrow> int \<Rightarrow> char vec \<Rightarrow> world \<Rightarrow> (STATUS \<times> nat \<times> char vec \<times> world) res" where
  "read_to_vchar al e fd buff w =
     bind_r (vector_alloc2 al CHAR_SIZE buff (MIN_READ_BUFF_SIZE + 1)) (\<lambda>buff.
     (case e_read e of
        None \<Rightarrow> Inr (ERROR, 0, buff, w)
      | Some pending \<Rightarrow>
          let got = take MIN_READ_BUFF_SIZE pending in
          if got = [] then Inr (ERROR, 0, buff, w) else
          bind_r (store_list (ptr buff) (cnt buff) got) (\<lambda>b.
          let cnt' = sz_add (cnt buff) (length got) in
          bind_r (store b cnt' NUL) (\<lambda>b.
          Inr (SUCCESS, length got, buff\<lparr>ptr := b, cnt := cnt'\<rparr>, log_io [Read fd got] w)))))"

section \<open>The steps of the request\<close>

definition parsing_req_type_step ::
    "allocator \<Rightarrow> env \<Rightarrow> int \<Rightarrow> int \<Rightarrow> bool \<Rightarrow> hst \<Rightarrow> hst res" where
  "parsing_req_type_step al e fd events non_splitted s =
     (case s of (ctx, w) \<Rightarrow>
       bind_r (if non_splitted then Inr (SUCCESS, ctx, w)
               else bind_r (assert_r (handling_step ctx = PARSING_REQ_TYPE \<and>
                      fd = client_fd ctx \<and> has_event events POLLIN)) (\<lambda>_.
                    bind_r (read_to_vchar al e (client_fd ctx) (cbuff ctx) w) (\<lambda>(st, _, b, w).
                    Inr (st, ctx\<lparr>cbuff := b\<rparr>, w)))) (\<lambda>(st, ctx, w).
       if st \<noteq> SUCCESS then destroy_context (ctx, w) else
       bind_r (cstring_at (ptr (cbuff ctx)) (cppos ctx)) (\<lambda>cur.
       bind_r (parse_req_type al cur (request ctx)) (\<lambda>(status, n, rq).
       let ctx = ctx\<lparr>cppos := cppos ctx + n, request := rq\<rparr> in
       if status = PARSING_ERROR then destroy_context (ctx, w)
       else if status = OK then Inr (ctx\<lparr>handling_step := PARSING_REQ_HEADERS\<rparr>, w)
       else Inr (ctx, w)))))"

definition connect_step :: "allocator \<Rightarrow> env \<Rightarrow> int \<Rightarrow> int \<Rightarrow> hst \<Rightarrow> hst res" where
  "connect_step al e fd events s =
     (case s of (ctx, w) \<Rightarrow>
       bind_r (assert_r (connection_state ctx = AWAIT_CONNECTION \<longrightarrow>
                handling_step ctx = CONNECT_STEP \<and> fd = server_fd ctx \<and> has_event events POLLOUT)) (\<lambda>_.
       if connection_state ctx = CONNECTED \<or> connection_state ctx = AWAIT_CONNECTION then
         let ctx = ctx\<lparr>client_events := 0, server_events := POLLOUT, sended := 0,
                        handling_step := SENDING_REQ\<rparr> in
         if connection_state ctx = AWAIT_CONNECTION then
           if \<not> (e_getsockopt e \<ge> 0 \<and> e_so_error e = 0) then destroy_context (ctx, w)
           else Inr (ctx\<lparr>connection_state := CONNECTED\<rparr>, w)
         else Inr (ctx, w)
       else
         let ctx = ctx\<lparr>server_fd := e_socket e\<rparr> in
         if \<not> e_socket e \<ge> 0 then destroy_context (ctx, w) else
         let w = log_io [Socket (e_socket e)] w in
         bind_r (find_header (req_headers (request ctx)) ''Host'') (\<lambda>host_name.
         (case host_name of
            None \<Rightarrow> destroy_context (ctx, w)
          | Some i \<Rightarrow>
              bind_r (vector_get (req_headers (request ctx)) i) (\<lambda>h.
              bind_r (cstr_val (hdr_value h)) (\<lambda>name.
              bind_r (connect_to_host (e_resolve e) (e_connect e) (e_junk_addr e) (server_fd ctx)
                        name DEFAULT_PORT) (\<lambda>(rc, es).
              let w = log_io es w in
              if rc = 0 then Inr (ctx\<lparr>connection_state := CONNECTED\<rparr>, w)
              else if e_errno e = EINPROGRESS
              then Inr (ctx\<lparr>client_events := 0, server_events := POLLOUT,
                             connection_state := AWAIT_CONNECTION\<rparr>, w)
              else destroy_context (ctx, w))))))))"

text \<open>
  The loop over header lines of both \<open>parsing_req_headers_step\<close> and \<open>parsing_resp_headers_step\<close>:
  it pushes every parsed header and stops at the first status other than \<open>OK\<close>. The local
  \<open>header\<close> is uninitialised.
\<close>

definition uninit_header :: header_t where
  "uninit_header = \<lparr>hdr_type = Dangling, hdr_value = Dangling\<rparr>"

function headers_loop ::
    "allocator \<Rightarrow> char block \<Rightarrow> nat \<Rightarrow> header_t vec \<Rightarrow> (parse_status \<times> nat \<times> header_t vec) res" where
  "headers_loop al b pos headers =
     bind_r (cstring_at b pos) (\<lambda>cur.
     bind_r (parse_next_header al cur uninit_header) (\<lambda>(status, n, header).
     if status = OK
     then bind_r (vector_push_back al HEADER_SIZE headers header) (\<lambda>headers'.
          headers_loop al b (pos + n) headers')
     else Inr (status, pos + n, headers)))"
  by pat_completeness auto
termination
proof (relation "measure (\<lambda>(al, b, pos, headers). blk_len b - pos)", simp)
  fix al b pos and headers headers' :: "header_t vec" and cur x status y n header
  assume cur: "cstring_at b pos = Inr cur"
    and parse: "parse_next_header al cur uninit_header = Inr x" "(status, y) = x" "(n, header) = y"
    and ok: "status = OK"
  have "pos < blk_len b" using cur by (subst (asm) cstring_at.simps) (simp split: if_splits)
  moreover have "0 < n" using parse ok
    by (auto simp: parse_next_header_def bind_r_Inr_iff split: option.splits if_splits)
  ultimately show "((al, b, pos + n, headers'), (al, b, pos, headers)) \<in>
      measure (\<lambda>(al, b, pos, headers). blk_len b - pos)" by simp
qed

declare headers_loop.simps [simp del]

definition parsing_req_headers_step ::
    "allocator \<Rightarrow> env \<Rightarrow> int \<Rightarrow> int \<Rightarrow> bool \<Rightarrow> hst \<Rightarrow> hst res" where
  "parsing_req_headers_step al e fd events non_splitted s =
     (case s of (ctx, w) \<Rightarrow>
       bind_r (assert_r (handling_step ctx = PARSING_REQ_HEADERS \<and>
                fd = client_fd ctx \<and> has_event events POLLIN)) (\<lambda>_.
       bind_r (if non_splitted then Inr (SUCCESS, ctx, w)
               else bind_r (read_to_vchar al e (client_fd ctx) (cbuff ctx) w) (\<lambda>(st, _, b, w).
                    Inr (st, ctx\<lparr>cbuff := b\<rparr>, w))) (\<lambda>(st, ctx, w).
       if st \<noteq> SUCCESS then destroy_context (ctx, w) else
       bind_r (headers_loop al (ptr (cbuff ctx)) (cppos ctx) (req_headers (request ctx))) (\<lambda>(status, pos, hs).
       let ctx = ctx\<lparr>cppos := pos, request := (request ctx)\<lparr>req_headers := hs\<rparr>\<rparr> in
       if status = PARSING_ERROR then destroy_context (ctx, w)
       else if status = NO_END_OF_LINE then Inr (ctx, w)
       else
         bind_r (cstr_val (req_type (request ctx))) (\<lambda>t.
         if \<not> strcmp t ''GET'' = 0 then destroy_context (ctx, w)
         else connect_step al e (-1) 0 (ctx\<lparr>handling_step := CONNECT_STEP\<rparr>, w))))))"

text \<open>
  \<open>write\<close> takes a prefix of the bytes or fails. A failure because the peer has closed comes with SIGPIPE, which
  nothing handles: it ends the process before \<open>write\<close> returns.
\<close>

definition raises_sigpipe :: "env \<Rightarrow> bool" where
  "raises_sigpipe e = (e_write e < 0 \<and> e_epipe e)"

lemma sigpipe_simps [simp]: "0 \<le> e_write e \<Longrightarrow> \<not> raises_sigpipe e" "\<not> e_epipe e \<Longrightarrow> \<not> raises_sigpipe e"
  by (simp_all add: raises_sigpipe_def)

definition sys_write :: "env \<Rightarrow> char list \<Rightarrow> int" where
  "sys_write e bytes = (if e_write e < 0 then -1 else min (e_write e) (int (length bytes)))"

definition sending_req_step :: "env \<Rightarrow> int \<Rightarrow> int \<Rightarrow> hst \<Rightarrow> hst res" where
  "sending_req_step e fd events s =
     (case s of (ctx, w) \<Rightarrow>
       bind_r (assert_r (handling_step ctx = SENDING_REQ \<and>
                fd = server_fd ctx \<and> has_event events POLLOUT)) (\<lambda>_.
       bind_r (read_bytes (ptr (cbuff ctx)) (sended ctx) (sz_sub (cnt (cbuff ctx)) (sended ctx))) (\<lambda>bytes.
       bind_r (assert_r (\<not> raises_sigpipe e)) (\<lambda>_.
       let k = sys_write e bytes in
       if \<not> k > 0 then destroy_context (ctx, w) else
       let w = log_io [Write (server_fd ctx) (take (nat k) bytes)] w;
           ctx = ctx\<lparr>sended := sz_add (sended ctx) (nat k)\<rparr> in
       if sended ctx = cnt (cbuff ctx)
       then Inr (ctx\<lparr>client_events := 0, server_events := POLLIN, handling_step := PARSING_RESP_CODE\<rparr>, w)
       else Inr (ctx, w)))))"

section \<open>The steps of the response\<close>

definition parsing_resp_code_step :: "allocator \<Rightarrow> env \<Rightarrow> int \<Rightarrow> int \<Rightarrow> hst \<Rightarrow> hst res" where
  "parsing_resp_code_step al e fd events s =
     (case s of (ctx, w) \<Rightarrow>
       bind_r (assert_r (handling_step ctx = PARSING_RESP_CODE \<and>
                fd = server_fd ctx \<and> has_event events POLLIN)) (\<lambda>_.
       bind_r (read_to_vchar al e (server_fd ctx) (sbuff ctx) w) (\<lambda>(st, _, b, w).
       let ctx = ctx\<lparr>sbuff := b\<rparr> in
       if st \<noteq> SUCCESS then destroy_context (ctx, w) else
       bind_r (cstring_at (ptr (sbuff ctx)) (sppos ctx)) (\<lambda>cur.
       bind_r (parse_response_code al cur (response ctx)) (\<lambda>(status, n, rs).
       let ctx = ctx\<lparr>sppos := sppos ctx + n, response := rs\<rparr> in
       if status = PARSING_ERROR then destroy_context (ctx, w)
       else if status = OK then Inr (ctx\<lparr>handling_step := PARSING_RESP_HEADERS\<rparr>, w)
       else Inr (ctx, w))))))"

definition parsing_resp_headers_step ::
    "allocator \<Rightarrow> env \<Rightarrow> int \<Rightarrow> int \<Rightarrow> bool \<Rightarrow> hst \<Rightarrow> hst res" where
  "parsing_resp_headers_step al e fd events non_splitted s =
     (case s of (ctx, w) \<Rightarrow>
       bind_r (assert_r (handling_step ctx = PARSING_RESP_HEADERS \<and>
                fd = server_fd ctx \<and> has_event events POLLIN)) (\<lambda>_.
       bind_r (if non_splitted then Inr (SUCCESS, ctx, w)
               else bind_r (read_to_vchar al e (server_fd ctx) (sbuff ctx) w) (\<lambda>(st, _, b, w).
                    Inr (st, ctx\<lparr>sbuff := b\<rparr>, w))) (\<lambda>(st, ctx, w).
       if st \<noteq> SUCCESS then destroy_context (ctx, w) else
       bind_r (headers_loop al (ptr (sbuff ctx)) (sppos ctx) (resp_headers (response ctx))) (\<lambda>(status, pos, hs).
       let ctx = ctx\<lparr>sppos := pos, response := (response ctx)\<lparr>resp_headers := hs\<rparr>\<rparr> in
       if status = PARSING_ERROR then destroy_context (ctx, w)
       else if status = NO_END_OF_LINE then Inr (ctx, w)
       else
         bind_r (find_header hs ''Content-Length'') (\<lambda>cl_header.
         bind_r (find_header hs ''Transfer-Encoding'') (\<lambda>ch_header.
         if \<not> (ch_header \<noteq> None \<or> cl_header \<noteq> None) then destroy_context (ctx, w) else
         bind_r (case cl_header of
                   None \<Rightarrow> Inr (-1)
                 | Some i \<Rightarrow> bind_r (vector_get hs i) (\<lambda>h.
                             bind_r (cstr_val (hdr_value h)) (\<lambda>v. Inr (strtol v 10)))) (\<lambda>len.
         Inr (ctx\<lparr>response := (response ctx)\<lparr>content_length := len\<rparr>,
                read_cnt := sz_sub (cnt (sbuff ctx)) (sppos ctx), chunk_size := -1, chunk_read := 0,
                client_events := POLLOUT, sended := 0, handling_step := PARSING_RESP_BODY\<rparr>, w))))))))"

text \<open>
  The loop over chunks: returns whether the last chunk was complete, and \<open>sppos\<close>, \<open>chunk_size\<close>
  and \<open>chunk_read\<close>. \<open>n\<close> is \<open>sbuff.cnt\<close>. Every round but the first starts by consuming a chunk
  header, so \<open>blk_len + 2\<close> rounds are enough (\<open>chunk_loop_enough\<close> below).
\<close>

fun chunk_loop ::
    "nat \<Rightarrow> char block \<Rightarrow> nat \<Rightarrow> nat \<Rightarrow> int \<Rightarrow> nat \<Rightarrow> (bool \<times> nat \<times> int \<times> nat) res" where
  "chunk_loop 0 b n pos csz rd = Inl Diverge"
| "chunk_loop (Suc fuel) b n pos csz rd =
     bind_r (if csz = -1
             then bind_r (cstring_at b pos) (\<lambda>s.
                  (case strstr s CRLF of
                     None \<Rightarrow> Inr None
                   | Some crlf \<Rightarrow>
                       bind_r (defined_r (strtol s 16 + 2 \<le> LONG_MAX)) (\<lambda>_.
                       Inr (Some (strtol s 16 + 2, 0, pos + crlf + 2)))))
             else Inr (Some (csz, rd, pos))) (\<lambda>next.
     (case next of
        None \<Rightarrow> Inr (False, pos, csz, rd)
      | Some (csz, rd, pos) \<Rightarrow>
          let left = sz_sub (sz_of_int csz) rd; avail = sz_sub n pos;
              ra = (if left > avail then avail else left);
              pos = sz_add pos ra; rd = sz_add rd ra in
          if rd = sz_of_int csz
          then (if csz = 2 then Inr (True, pos, csz, rd)
                else chunk_loop fuel b n pos (-1) 0)
          else Inr (False, pos, csz, rd)))"

definition parsing_resp_body ::
    "allocator \<Rightarrow> env \<Rightarrow> int \<Rightarrow> int \<Rightarrow> bool \<Rightarrow> hst \<Rightarrow> hst res" where
  "parsing_resp_body al e fd events non_splitted s =
     (case s of (ctx, w) \<Rightarrow>
       bind_r (assert_r (handling_step ctx = PARSING_RESP_BODY \<and>
                fd = server_fd ctx \<and> has_event events POLLIN)) (\<lambda>_.
       bind_r (if non_splitted then Inr (SUCCESS, ctx, w)
               else bind_r (read_to_vchar al e (server_fd ctx) (sbuff ctx) w) (\<lambda>(st, k, b, w).
                    Inr (st, if st = SUCCESS then ctx\<lparr>sbuff := b, read_cnt := sz_add (read_cnt ctx) k\<rparr>
                             else ctx\<lparr>sbuff := b\<rparr>, w))) (\<lambda>(st, ctx, w).
       if st \<noteq> SUCCESS then destroy_context (ctx, w) else
       let len = content_length (response ctx) in
       if len \<noteq> -1 \<and> sz_of_int len = read_cnt ctx then
         cache al (ctx\<lparr>client_events := POLLOUT, server_events := 0, sppos := cnt (sbuff ctx),
                        handling_step := SENDING_RESP\<rparr>, w)
       else if len = -1 then
         bind_r (chunk_loop (blk_len (ptr (sbuff ctx)) + 2) (ptr (sbuff ctx)) (cnt (sbuff ctx))
                   (sppos ctx) (chunk_size ctx) (chunk_read ctx)) (\<lambda>(complete, pos, csz, rd).
         let ctx = ctx\<lparr>sppos := pos, chunk_size := csz, chunk_read := rd\<rparr> in
         if complete then
           bind_r (assert_r (al (sz_add (read_cnt ctx) 1))) (\<lambda>_.
           bind_r (read_bytes (ptr (sbuff ctx)) (sz_sub (cnt (sbuff ctx)) (read_cnt ctx)) (read_cnt ctx)) (\<lambda>body.
           cache al (ctx\<lparr>client_events := POLLOUT, server_events := 0,
               response := (response ctx)\<lparr>content_length := int (read_cnt ctx), resp_body := Str body\<rparr>,
               handling_step := SENDING_RESP\<rparr>, w)))
         else Inr (ctx, w))
       else Inr (ctx, w))))"

definition send_resp_in_receiving :: "env \<Rightarrow> int \<Rightarrow> int \<Rightarrow> hst \<Rightarrow> hst res" where
  "send_resp_in_receiving e fd events s =
     (case s of (ctx, w) \<Rightarrow>
       bind_r (assert_r (handling_step ctx = PARSING_RESP_BODY \<or>
                handling_step ctx = SENDING_RESP \<and> fd = client_fd ctx \<and> has_event events POLLOUT)) (\<lambda>_.
       let n = sz_sub (cnt (sbuff ctx)) (sended ctx) in
       if n > 0 then
         bind_r (read_bytes (ptr (sbuff ctx)) (sended ctx) n) (\<lambda>bytes.
         bind_r (assert_r (\<not> raises_sigpipe e)) (\<lambda>_.
         let k = sys_write e bytes in
         if \<not> k > 0 then destroy_context (ctx, w)
         else Inr (ctx\<lparr>sended := sz_add (sended ctx) (nat k)\<rparr>,
                   log_io [Write (client_fd ctx) (take (nat k) bytes)] w)))
       else Inr (ctx, w)))"

definition send_resp_step :: "env \<Rightarrow> int \<Rightarrow> int \<Rightarrow> hst \<Rightarrow> hst res" where
  "send_resp_step e fd events s =
     bind_r (send_resp_in_receiving e fd events s) (\<lambda>(ctx, w).
     if sended ctx = cnt (sbuff ctx)
     then bind_r (destroy_context (ctx, w)) (\<lambda>(ctx, w). Inr (ctx\<lparr>handling_step := HANDLED\<rparr>, w))
     else Inr (ctx, w))"

section \<open>handle\<close>

text \<open>
  The body of \<open>handle\<close> after its two first branches and its two early returns, in source order;
  \<open>ns\<close> is \<open>non_splitted\<close>.
\<close>

definition handle_body :: "allocator \<Rightarrow> env \<Rightarrow> int \<Rightarrow> int \<Rightarrow> bool \<Rightarrow> hst \<Rightarrow> hst res" where
  "handle_body al e fd events ns s =
     (if handling_step (fst s) = PARSING_RESP_BODY then
        bind_r (if fd = server_fd (fst s) then parsing_resp_body al e fd events ns s else Inr s) (\<lambda>s.
        if fd = client_fd (fst s) then send_resp_in_receiving e fd events s else Inr s)
      else if handling_step (fst s) = SENDING_RESP then send_resp_step e fd events s
      else Inr s)"

definition handle_resp :: "allocator \<Rightarrow> env \<Rightarrow> int \<Rightarrow> int \<Rightarrow> bool \<Rightarrow> hst \<Rightarrow> hst res" where
  "handle_resp al e fd events ns s =
     bind_r (if handling_step (fst s) = PARSING_RESP_CODE
             then bind_r (parsing_resp_code_step al e fd events s) (\<lambda>s. Inr (True, s))
             else Inr (ns, s)) (\<lambda>(ns, s).
     bind_r (if handling_step (fst s) = PARSING_RESP_HEADERS
             then bind_r (parsing_resp_headers_step al e fd events ns s) (\<lambda>s. Inr (True, s))
             else Inr (ns, s)) (\<lambda>(ns, s).
     handle_body al e fd events ns s))"

definition handle :: "allocator \<Rightarrow> env \<Rightarrow> int \<Rightarrow> int \<Rightarrow> hst \<Rightarrow> hst res" where
  "handle al e fd events s =
     (let s = (fst s, if client_fd (fst s) \<noteq> last_fd (snd s)
                      then (snd s)\<lparr>last_fd := client_fd (fst s)\<rparr> else snd s) in
      bind_r (if handling_step (fst s) = PARSING_REQ_TYPE
              then bind_r (parsing_req_type_step al e fd events False s) (\<lambda>s. Inr (True, s))
              else Inr (False, s)) (\<lambda>(ns, s).
      if handling_step (fst s) = PARSING_REQ_HEADERS then parsing_req_headers_step al e fd events ns s
      else if handling_step (fst s) = CONNECT_STEP then connect_step al e fd events s
      else if handling_step (fst s) = SENDING_REQ then sending_req_step e fd events s
      else handle_resp al e fd events ns s))"

end
