(* ===== verification/Handler_Buffers.thy ===== *)
theory Handler_Buffers
  imports Connection_Handler
begin

text \<open>
  What the buffers of a connection hold and what the loops over them compute: \<open>read_to_vchar\<close>
  appends what arrived and keeps the terminator, the header loop is the list function
  \<open>header_lines\<close> whatever way the bytes were split, and the chunk loop ends within its fuel.
\<close>

section \<open>Buffers\<close>

text \<open>
  A buffer holds \<open>bs\<close>; once bytes were read a terminator follows them. A new buffer is empty
  and has no terminator.
\<close>

definition holds :: "char vec \<Rightarrow> char list \<Rightarrow> bool" where
  "holds v bs =
     (represents CHAR_SIZE v bs \<and>
      (bs \<noteq> [] \<longrightarrow> length bs < capacity v \<and> blk_cell (ptr v) (length bs) = Some NUL))"

lemma elem_size_CHAR [simp]: "elem_size CHAR_SIZE"
  by (simp add: elem_size_def CHAR_SIZE_def)

lemma holdsD:
  assumes "holds v bs"
  shows "represents CHAR_SIZE v bs" "cnt v = length bs" "in_memory bs" "length bs + 10001 < SIZE_MOD"
  using assms representsD[of CHAR_SIZE v bs]
  by (auto simp: holds_def in_memory_def ADDRESS_SPACE_eq SIZE_MOD_eq)

lemma holds_string:
  assumes "holds v bs" and "bs \<noteq> []" and "p \<le> length bs"
  shows "cstring_at (ptr v) p = Inr (c_string (drop p bs))"
proof -
  have "represents CHAR_SIZE v bs" and t: "length bs < capacity v" "blk_cell (ptr v) (length bs) = Some NUL"
    using assms(1,2) by (auto simp: holds_def)
  note r = representsD[OF this(1)]
  show ?thesis by (rule cstring_at_terminated) (use r t assms(3) in auto)
qed

lemma holds_init: "safe (vector_forced_alloc al CHAR_SIZE (vector_init v)) (\<lambda>v'. holds v' [])"
  if "al_ok al"
  by (rule safe_mono[OF vector_forced_alloc_safe[OF vector_init_represents that]])
    (auto simp: holds_def)

lemma read_bytes_represents:
  "represents esz v bs \<Longrightarrow> off + n \<le> length bs \<Longrightarrow> read_bytes (ptr v) off n = Inr (take n (drop off bs))"
proof (induction n arbitrary: off)
  case 0
  then show ?case by simp
next
  case (Suc n)
  then have "load (ptr v) off = Inr (bs ! off)" using representsD[of esz v bs] by (simp add: load_Inr)
  moreover have "drop off bs = bs ! off # drop (Suc off) bs"
    by (rule Cons_nth_drop_Suc[symmetric]) (use Suc.prems in simp)
  ultimately show ?case using Suc.IH[of "Suc off"] Suc.prems by simp
qed

text \<open>What a \<open>read\<close> of this invocation delivers: at most \<open>MIN_READ_BUFF_SIZE\<close> bytes.\<close>

definition arriving :: "env \<Rightarrow> char list" where
  "arriving e = (case e_read e of None \<Rightarrow> [] | Some pending \<Rightarrow> take MIN_READ_BUFF_SIZE pending)"

lemma arriving_length: "length (arriving e) \<le> 10000"
  by (simp add: arriving_def MIN_READ_BUFF_SIZE_def split: option.split)

definition read_post :: "env \<Rightarrow> int \<Rightarrow> char list \<Rightarrow> world \<Rightarrow> STATUS \<times> nat \<times> char vec \<times> world \<Rightarrow> bool" where
  "read_post e fd bs w r =
     (case r of (st, k, v, w') \<Rightarrow>
       if arriving e = [] then st = ERROR \<and> w' = w
       else st = SUCCESS \<and> k = length (arriving e) \<and> holds v (bs @ arriving e) \<and>
            w' = log_io [Read fd (arriving e)] w)"

lemma store_list_represents:
  assumes r: "represents esz v bs" and room: "length bs + length xs < capacity v"
  shows "\<exists>b b'. store_list (ptr v) (cnt v) xs = Inr b \<and> store b (length bs + length xs) y = Inr b' \<and>
    represents esz (v\<lparr>ptr := b', cnt := length bs + length xs\<rparr>) (bs @ xs) \<and>
    blk_cell b' (length bs + length xs) = Some y"
proof -
  note rD = representsD[OF r]
  have "cnt v + length xs \<le> blk_len (ptr v)" using rD room by simp
  then obtain b where b: "store_list (ptr v) (cnt v) xs = Inr b" "blk_len b = capacity v"
      "\<forall>i. blk_cell b i = (if length bs \<le> i \<and> i < length bs + length xs then Some (xs ! (i - length bs))
                           else blk_cell (ptr v) i)"
    using store_list_in_block[of "cnt v" xs "ptr v"] rD by auto
  let ?b' = "b\<lparr>blk_cell := (blk_cell b)(length bs + length xs := Some y)\<rparr>"
  have "store b (length bs + length xs) y = Inr ?b'" using b(2) room by simp
  moreover have "represents esz (v\<lparr>ptr := ?b', cnt := length bs + length xs\<rparr>) (bs @ xs)"
    using rD b(2,3) room r by (auto simp: represents_def nth_append)
  ultimately show ?thesis using b(1) by auto
qed

lemma read_to_vchar_safe:
  assumes h: "holds v bs" and al: "al_ok al"
  shows "safe (read_to_vchar al e fd v w) (read_post e fd bs w)"
  unfolding read_to_vchar_def
proof (rule safe_bind[OF vector_alloc2_safe[OF holdsD(1)[OF h] al]])
  fix v'
  assume room: "has_room CHAR_SIZE bs (MIN_READ_BUFF_SIZE + 1) v' \<and> capacity v \<le> capacity v'"
  then have rep: "represents CHAR_SIZE v' bs" and cap: "MIN_READ_BUFF_SIZE + 1 \<le> capacity v' - length bs"
    by (auto simp: has_room_def)
  let ?got = "arriving e"
  show "safe (case e_read e of None \<Rightarrow> Inr (ERROR, 0, v', w)
      | Some pending \<Rightarrow>
          let got = take MIN_READ_BUFF_SIZE pending in
          if got = [] then Inr (ERROR, 0, v', w) else
          bind_r (store_list (ptr v') (cnt v') got) (\<lambda>b.
          let cnt' = sz_add (cnt v') (length got) in
          bind_r (store b cnt' NUL) (\<lambda>b.
          Inr (SUCCESS, length got, v'\<lparr>ptr := b, cnt := cnt'\<rparr>, log_io [Read fd got] w))))
      (read_post e fd bs w)"
  proof (cases "?got = []")
    case True
    then show ?thesis by (auto simp: arriving_def read_post_def split: option.splits)
  next
    case False
    then obtain p where p: "e_read e = Some p" "?got = take MIN_READ_BUFF_SIZE p"
      by (auto simp: arriving_def split: option.splits)
    have fits: "length bs + length ?got < capacity v'"
      using cap arriving_length[of e] by (simp add: MIN_READ_BUFF_SIZE_def)
    obtain b b' where b: "store_list (ptr v') (cnt v') ?got = Inr b"
        "store b (length bs + length ?got) NUL = Inr b'"
        "represents CHAR_SIZE (v'\<lparr>ptr := b', cnt := length bs + length ?got\<rparr>) (bs @ ?got)"
        "blk_cell b' (length bs + length ?got) = Some NUL"
      using store_list_represents[OF rep fits, of NUL] by blast
    have "sz_add (cnt v') (length ?got) = length bs + length ?got"
      using representsD(2)[OF rep] holdsD(4)[OF h] arriving_length[of e] by simp
    then show ?thesis using p b False fits
      by (simp add: Let_def read_post_def holds_def)
  qed
qed

section \<open>The header section\<close>

text \<open>
  The reference the header loop implements: cut the text at line ends, cut every line at its
  first separator, and stop at an empty line, a line without separator or an unfinished line.
  The result is the status, the number of bytes consumed and the headers read.
\<close>

function header_lines :: "char list \<Rightarrow> parse_status \<times> nat \<times> (char list \<times> char list) list" where
  "header_lines s =
     (case strstr s CRLF of
        None \<Rightarrow> (NO_END_OF_LINE, 0, [])
      | Some crlf \<Rightarrow>
          if crlf = 0 then (END_OF_HEADER, 2, []) else
          (case strstr (take crlf s) '': '' of
             None \<Rightarrow> (PARSING_ERROR, 0, [])
           | Some sep \<Rightarrow>
               (case header_lines (drop (crlf + 2) s) of (st, n, hs) \<Rightarrow>
                  (st, crlf + 2 + n, (take sep s, drop (sep + 2) (take crlf s)) # hs))))"
  by pat_completeness auto
termination
  by (relation "measure length") (auto dest: strstr_bound)

declare header_lines.simps [simp del]

lemma cstring_at_drop: "cstring_at b p = Inr s \<Longrightarrow> n \<le> length s \<Longrightarrow> cstring_at b (p + n) = Inr (drop n s)"
proof (induction n arbitrary: p s)
  case 0
  then show ?case by simp
next
  case (Suc n)
  then obtain c s' where s: "s = c # s'" by (cases s) auto
  have "cstring_at b (p + 1) = Inr s'"
    using Suc.prems(1) unfolding s
    by (subst (asm) cstring_at.simps) (auto simp: bind_r_Inr_iff split: if_splits option.splits)
  then show ?case using Suc.IH[of "p + 1" s'] Suc.prems(2) s by simp
qed

text \<open>One call of \<open>parse_next_header\<close> is one step of the reference.\<close>

lemma parse_next_header_step:
  assumes "in_memory s" and "grants_upto al (length s)"
  shows "parse_next_header al s h =
    (case strstr s CRLF of
       None \<Rightarrow> Inr (NO_END_OF_LINE, 0, h)
     | Some crlf \<Rightarrow>
         if crlf = 0 then Inr (END_OF_HEADER, 2, h) else
         (case strstr (take crlf s) '': '' of
            None \<Rightarrow> Inr (PARSING_ERROR, 0, h)
          | Some sep \<Rightarrow> Inr (OK, crlf + 2, hdr (take sep s, drop (sep + 2) (take crlf s)))))"
proof (cases "strstr s CRLF")
  case None
  then show ?thesis by (simp add: parse_next_header_eq[OF assms(1)])
next
  case (Some crlf)
  note b = strstr_bound[OF Some]
  show ?thesis
  proof (cases "strstr s '': ''")
    case None
    then show ?thesis using Some by (simp add: parse_next_header_eq[OF assms(1)] strstr_take)
  next
    case sep: (Some sep)
    show ?thesis
    proof (cases "sep < crlf")
      case False
      then show ?thesis using Some sep
        by (simp add: parse_next_header_eq[OF assms(1)] strstr_take)
    next
      case True
      note l = strstr_sep_line[OF Some sep True]
      have g: "al (sep + 1)" "al (crlf - sep - 1)"
        using l grants_uptoD[OF assms(2)] by simp_all
      have d: "drop (sep + 2) (take crlf s) = take (crlf - sep - 2) (drop (sep + 2) s)"
        by (simp add: drop_take)
      have t: "strstr (take crlf s) '': '' = Some sep" using l sep by (simp add: strstr_take)
      show ?thesis unfolding parse_next_header_eq[OF assms(1)] Some sep option.case t d hdr_def fst_conv snd_conv
        using g True by simp
    qed
  qed
qed

definition loop_post ::
    "nat \<Rightarrow> (char list \<times> char list) list \<Rightarrow> char list \<Rightarrow> parse_status \<times> nat \<times> header_t vec \<Rightarrow> bool" where
  "loop_post pos hs s r =
     (case r of (st, p, v) \<Rightarrow>
       case header_lines s of (st', n, hs') \<Rightarrow> st = st' \<and> p = pos + n \<and> headers_are v (hs @ hs'))"

lemma headers_are_push:
  assumes "headers_are v hs" and "al_ok al"
  shows "safe (vector_push_back al HEADER_SIZE v (hdr tv)) (\<lambda>v'. headers_are v' (hs @ [tv]))"
  using vector_push_back_safe[OF assms(1)[unfolded headers_are_def] assms(2), of "hdr tv"]
  by (simp add: headers_are_def)

lemma grants_upto_mono: "grants_upto al n \<Longrightarrow> m \<le> n \<Longrightarrow> grants_upto al m"
  by (simp add: grants_upto_def)

lemma headers_loop_safe:
  assumes "cstring_at b pos = Inr s" and "in_memory s" and "grants_upto al (length s)" and "al_ok al"
    and "headers_are v hs"
  shows "safe (headers_loop al b pos v) (loop_post pos hs s)"
  using assms(1,2,3,5)
proof (induction s arbitrary: pos v hs rule: header_lines.induct)
  case (1 s)
  note step = parse_next_header_step[OF "1.prems"(2,3)]
  show ?case
  proof (cases "strstr s CRLF")
    case None
    have "headers_loop al b pos v = Inr (NO_END_OF_LINE, pos, v)"
      using None "1.prems" by (simp add: headers_loop.simps step)
    then show ?thesis using None "1.prems" by (simp add: loop_post_def header_lines.simps)
  next
    case crlf: (Some crlf)
    show ?thesis
    proof (cases "crlf = 0")
      case True
      have "headers_loop al b pos v = Inr (END_OF_HEADER, pos + 2, v)"
        using crlf True "1.prems" by (simp add: headers_loop.simps step)
      then show ?thesis using True crlf "1.prems" by (simp add: loop_post_def header_lines.simps)
    next
      case pos: False
      show ?thesis
      proof (cases "strstr (take crlf s) '': ''")
        case None
        have "headers_loop al b pos v = Inr (PARSING_ERROR, pos, v)"
          using crlf None pos "1.prems" by (simp add: headers_loop.simps step)
        then show ?thesis using None crlf pos "1.prems" by (simp add: loop_post_def header_lines.simps)
      next
        case sep: (Some sep)
        let ?tv = "(take sep s, drop (sep + 2) (take crlf s))"
        have eq: "headers_loop al b pos v =
            bind_r (vector_push_back al HEADER_SIZE v (hdr ?tv)) (\<lambda>v'. headers_loop al b (pos + (crlf + 2)) v')"
          using crlf sep pos "1.prems" by (subst headers_loop.simps) (simp add: step)
        have len: "crlf + 2 \<le> length s" using strstr_bound[OF crlf] by simp
        have next_str: "cstring_at b (pos + (crlf + 2)) = Inr (drop (crlf + 2) s)"
          by (rule cstring_at_drop[OF "1.prems"(1) len])
        have "safe (headers_loop al b (pos + (crlf + 2)) v') (loop_post pos hs s)"
          if v': "headers_are v' (hs @ [?tv])" for v'
        proof (rule safe_mono[OF "1.IH"[OF crlf pos sep next_str _ _ v']])
          show "in_memory (drop (crlf + 2) s)" using "1.prems"(2) by simp
          show "grants_upto al (length (drop (crlf + 2) s))" by (rule grants_upto_mono[OF "1.prems"(3)]) simp
        next
          fix r
          assume "loop_post (pos + (crlf + 2)) (hs @ [?tv]) (drop (crlf + 2) s) r"
          then show "loop_post pos hs s r" using crlf pos sep
            by (cases r) (auto simp: loop_post_def header_lines.simps[of s] split: prod.splits)
        qed
        then show ?thesis unfolding eq by (rule safe_bind[OF headers_are_push[OF "1.prems"(4) assms(4)]])
      qed
    qed
  qed
qed

text \<open>
  Splitting does not matter: when the loop stopped for want of bytes, going on from there with
  more bytes gives what one pass over all of them gives.
\<close>

lemma header_lines_cases:
  assumes "strstr s CRLF = Some crlf" and "crlf \<noteq> 0" and "strstr (take crlf s) '': '' = Some sep"
  shows "header_lines s = (case header_lines (drop (crlf + 2) s) of (st, n, hs) \<Rightarrow>
    (st, crlf + 2 + n, (take sep s, drop (sep + 2) (take crlf s)) # hs))"
  by (subst header_lines.simps) (simp only: assms option.case if_False)

lemma header_lines_bound: "fst (snd (header_lines s)) \<le> length s"
proof (induction s rule: header_lines.induct)
  case (1 s)
  show ?case
  proof (cases "strstr s CRLF")
    case None
    then show ?thesis by (simp add: header_lines.simps)
  next
    case (Some crlf)
    note b = strstr_bound[OF Some]
    show ?thesis
    proof (cases "crlf \<noteq> 0 \<and> strstr (take crlf s) '': '' \<noteq> None")
      case True
      then obtain sep where sep: "crlf \<noteq> 0" "strstr (take crlf s) '': '' = Some sep" by auto
      show ?thesis using "1.IH"[OF Some sep] b
        by (cases "header_lines (drop (crlf + 2) s)") (simp add: header_lines_cases[OF Some sep])
    next
      case False
      then show ?thesis using Some b by (auto simp: header_lines.simps[of s])
    qed
  qed
qed

lemma header_lines_resume:
  assumes "header_lines s = (NO_END_OF_LINE, n, hs)"
  shows "header_lines (s @ t) = (case header_lines (drop n (s @ t)) of (st, m, hs') \<Rightarrow> (st, n + m, hs @ hs'))"
  using assms
proof (induction s arbitrary: n hs rule: header_lines.induct)
  case (1 s)
  show ?case
  proof (cases "strstr s CRLF")
    case None
    then have "n = 0" "hs = []" using "1.prems" by (simp_all add: header_lines.simps)
    then show ?thesis by (simp split: prod.splits)
  next
    case crlf: (Some crlf)
    then have pos: "crlf \<noteq> 0" using "1.prems" by (cases "crlf = 0") (simp_all add: header_lines.simps[of s])
    obtain sep where sep: "strstr (take crlf s) '': '' = Some sep"
      using "1.prems" crlf pos by (auto simp: header_lines.simps[of s] split: option.splits)
    obtain m hs' where m: "header_lines (drop (crlf + 2) s) = (NO_END_OF_LINE, m, hs')"
        "n = crlf + 2 + m" "hs = (take sep s, drop (sep + 2) (take crlf s)) # hs'"
      using "1.prems" crlf pos sep by (auto simp: header_lines.simps[of s] split: prod.splits)
    have len: "crlf + 2 \<le> length s" using strstr_bound[OF crlf] by simp
    have sl: "sep + 2 \<le> crlf" using strstr_bound[OF sep] len by simp
    note IH = "1.IH"[OF crlf pos sep m(1)]
    have d: "drop (crlf + 2) (s @ t) = drop (crlf + 2) s @ t" "take crlf (s @ t) = take crlf s"
      "take sep (s @ t) = take sep s" "drop m (drop (crlf + 2) s @ t) = drop n (s @ t)"
      using len sl m(1,2) header_lines_bound[of "drop (crlf + 2) s"] by (simp_all add: add.commute)
    have "header_lines (s @ t) = (case header_lines (drop (crlf + 2) s @ t) of (st, k, hs'') \<Rightarrow>
        (st, crlf + 2 + k, (take sep s, drop (sep + 2) (take crlf s)) # hs''))"
      using header_lines_cases[OF strstr_append[OF crlf, of t] pos, unfolded d(2), OF sep]
      unfolding d(1,2,3) .
    then show ?thesis unfolding IH d(4) using m(2,3) by (simp split: prod.splits)
  qed
qed

text \<open>Reading back a header section that was written line by line.\<close>

definition header_ok :: "char list \<times> char list \<Rightarrow> bool" where
  "header_ok tv = (CHR '':'' \<notin> set (fst tv) \<and> one_line (fst tv @ '': '' @ snd tv))"

definition header_text :: "(char list \<times> char list) list \<Rightarrow> char list" where
  "header_text hs = concat (map (\<lambda>tv. header_line (fst tv) (snd tv)) hs)"

lemma drop_prefix: "drop (length xs) (xs @ ys) = ys"
  by simp

lemma header_lines_header_text:
  "\<forall>tv \<in> set hs. header_ok tv \<Longrightarrow>
   header_lines (header_text hs @ CRLF @ rest) = (END_OF_HEADER, length (header_text hs) + 2, hs)"
proof (induction hs)
  case Nil
  have "strstr (CRLF @ rest) CRLF = Some 0" using strstr_CRLF_after[of "[]" rest] by (simp add: one_line_def CRLF_def)
  then show ?case by (simp add: header_text_def header_lines.simps)
next
  case (Cons tv hs)
  obtain t v where tv: "tv = (t, v)" by (cases tv)
  have ok: "CHR '':'' \<notin> set t" "one_line (t @ '': '' @ v)" using Cons.prems tv by (simp_all add: header_ok_def)
  let ?line = "t @ '': '' @ v" and ?rest = "header_text hs @ CRLF @ rest"
  let ?s = "header_text (tv # hs) @ CRLF @ rest"
  have s: "?s = ?line @ CRLF @ ?rest" by (simp add: tv header_text_def header_line_def)
  have crlf: "strstr ?s CRLF = Some (length ?line)" unfolding s by (rule strstr_CRLF_after[OF ok(2)])
  have tk: "take (length ?line) ?s = ?line" unfolding s by simp
  have sep: "strstr (take (length ?line) ?s) '': '' = Some (length t)"
    unfolding tk using strstr_pair_first[OF ok(1), of "CHR '' ''" v] by simp
  have "drop (length (?line @ CRLF)) ((?line @ CRLF) @ ?rest) = ?rest" by (rule drop_prefix)
  then have d: "drop (length ?line + 2) ?s = ?rest" "take (length t) ?s = t" "drop (length t + 2) ?line = v"
    unfolding s by simp_all
  have "header_lines ?s = (case header_lines ?rest of (st, n, hs') \<Rightarrow> (st, length ?line + 2 + n, (t, v) # hs'))"
    using header_lines_cases[OF crlf _ sep] unfolding tk d by simp
  then show ?case using Cons.IH Cons.prems tv by (simp add: header_text_def header_line_def)
qed

section \<open>The chunk loop\<close>

text \<open>
  A chunk size so large that adding 2 overflows \<open>long\<close> is undefined; everything else is safe,
  and the loop ends, whatever bytes arrived.
\<close>

definition chunk_sizes_ok :: "char list \<Rightarrow> bool" where
  "chunk_sizes_ok bs = (\<forall>p \<le> length bs. strtol (c_string (drop p bs)) 16 + 2 \<le> LONG_MAX)"

lemma take_part:
  assumes "pos \<le> n" and "n < SIZE_MOD"
  shows "sz_sub n pos = n - pos"
    and "sz_add pos (if left > sz_sub n pos then sz_sub n pos else left) = pos + min left (n - pos)"
    and "pos + min left (n - pos) \<le> n"
  using assms by (auto simp: min_def)

lemma chunk_loop_safe:
  assumes h: "holds v bs" and ne: "bs \<noteq> []" and ok: "chunk_sizes_ok bs"
    and "pos \<le> length bs" and "length bs - pos + (if csz = -1 then 0 else 1) < fuel"
  shows "safe (chunk_loop fuel (ptr v) (length bs) pos csz rd) (\<lambda>r. fst (snd r) \<le> length bs)"
  using assms(4,5)
proof (induction fuel arbitrary: pos csz rd)
  case 0
  then show ?case by simp
next
  case (Suc fuel)
  let ?n = "length bs"
  have n: "?n < SIZE_MOD" using holdsD(4)[OF h] by simp
  have rest: "safe (let left = sz_sub (sz_of_int sz) r; avail = sz_sub ?n p;
              ra = (if left > avail then avail else left);
              pos = sz_add p ra; rd = sz_add r ra in
          if rd = sz_of_int sz
          then (if sz = 2 then Inr (True, pos, sz, rd) else chunk_loop fuel (ptr v) ?n pos (-1) 0)
          else Inr (False, pos, sz, rd)) (\<lambda>r. fst (snd r) \<le> ?n)"
    if p: "p \<le> ?n" "?n - p < fuel" for p sz r
  proof -
    let ?p = "p + min (sz_sub (sz_of_int sz) r) (?n - p)"
    have "?n - ?p + (if (-1 :: int) = -1 then 0 else 1) < fuel" using p by simp
    note again = Suc.IH[OF take_part(3)[OF p(1) n] this, of 0]
    show ?thesis unfolding Let_def take_part(2)[OF p(1) n]
      using again take_part(3)[OF p(1) n] by (simp split del: if_split split: if_split)
  qed
  show ?case
  proof (cases "csz = -1")
    case False
    then show ?thesis using rest[of pos csz rd] Suc.prems by simp
  next
    case True
    note str = holds_string[OF h ne Suc.prems(1)]
    show ?thesis
    proof (cases "strstr (c_string (drop pos bs)) CRLF")
      case None
      then show ?thesis using True str Suc.prems by simp
    next
      case (Some crlf)
      have "length (c_string (drop pos bs)) \<le> ?n - pos" using length_takeWhile_le[of _ "drop pos bs"] by simp
      then have "pos + crlf + 2 \<le> ?n" using strstr_bound[OF Some] Suc.prems(1) by simp
      moreover have "strtol (c_string (drop pos bs)) 16 + 2 \<le> LONG_MAX"
        using ok Suc.prems(1) by (simp add: chunk_sizes_ok_def)
      ultimately show ?thesis
        using rest[of "pos + crlf + 2" "strtol (c_string (drop pos bs)) 16 + 2" 0] True Some str Suc.prems
        by simp
    qed
  qed
qed

lemma chunk_loop_enough:
  assumes "holds v bs" and "bs \<noteq> []" and "chunk_sizes_ok bs" and "pos \<le> length bs"
  shows "safe (chunk_loop (blk_len (ptr v) + 2) (ptr v) (cnt v) pos csz rd) (\<lambda>r. fst (snd r) \<le> length bs)"
proof -
  note rep = holdsD(1)[OF assms(1)]
  have "length bs - pos + (if csz = -1 then 0 else 1) < blk_len (ptr v) + 2"
    using representsD(1,3)[OF rep] by (cases "csz = -1") simp_all
  from chunk_loop_safe[OF assms this, of rd] show ?thesis using representsD(2)[OF rep] by simp
qed

section \<open>Chunked bodies\<close>

text \<open>
  The encoding of a chunked body as a server writes it: every chunk is its length in base 16, a
  line end, the data and a line end; a chunk of length 0 closes the body.
\<close>

definition hex_digit :: "nat \<Rightarrow> char" where
  "hex_digit d = (if d < 10 then char_of (48 + d) else char_of (87 + d))"

fun hex :: "nat \<Rightarrow> char list" where
  "hex n = (if n < 16 then [hex_digit n] else hex (n div 16) @ [hex_digit (n mod 16)])"

declare hex.simps [simp del]

definition chunk :: "char list \<Rightarrow> char list" where
  "chunk c = hex (length c) @ CRLF @ c @ CRLF"

definition chunked :: "char list list \<Rightarrow> char list" where
  "chunked cs = concat (map chunk cs) @ chunk []"

lemma digit_value_hex: "d < 16 \<Longrightarrow> digit_value (hex_digit d) = Some d"
  by (auto simp: digit_value_def hex_digit_def Let_def of_char_of)

lemma hex_digit_chars:
  "d < 16 \<Longrightarrow> hex_digit d \<notin> {CHR 0x0D, CHR 0x0A, CHR 0x00, CHR ''-'', CHR ''+'', CHR ''x'', CHR ''X''} \<and>
   \<not> is_space (hex_digit d)"
  using digit_value_hex[of d] by (auto simp: digit_value_def is_space_def Let_def)

lemma hex_chars: "c \<in> set (hex n) \<Longrightarrow> \<exists>d < 16. c = hex_digit d"
proof (induction n rule: hex.induct)
  case (1 n)
  show ?case
  proof (cases "n < 16")
    case True
    then show ?thesis using "1.prems" by (subst (asm) hex.simps) auto
  next
    case False
    then have "hex n = hex (n div 16) @ [hex_digit (n mod 16)]" by (simp add: hex.simps[of n])
    then consider "c \<in> set (hex (n div 16))" | "c = hex_digit (n mod 16)" using "1.prems" by auto
    then show ?thesis
    proof cases
      case 1
      then show ?thesis using "1.IH" False by simp
    next
      case 2
      then show ?thesis by (intro exI[of _ "n mod 16"]) simp
    qed
  qed
qed

lemma hex_not_empty [simp]: "hex n \<noteq> []"
  by (subst hex.simps) simp

lemma digits_value_hex: "digits_value 16 acc (hex n @ r) = digits_value 16 (acc * 16 ^ length (hex n) + n) r"
proof (induction n arbitrary: acc r rule: hex.induct)
  case (1 n)
  show ?case
  proof (cases "n < 16")
    case True
    then show ?thesis by (simp add: hex.simps digit_value_hex)
  next
    case False
    have "digits_value 16 acc (hex n @ r) =
        digits_value 16 (acc * 16 ^ length (hex (n div 16)) + n div 16) (hex_digit (n mod 16) # r)"
      using False "1.IH"[OF False, of acc "hex_digit (n mod 16) # r"] by (subst hex.simps) simp
    also have "\<dots> = digits_value 16 ((acc * 16 ^ length (hex (n div 16)) + n div 16) * 16 + n mod 16) r"
      by (simp add: digit_value_hex)
    also have "(acc * 16 ^ length (hex (n div 16)) + n div 16) * 16 + n mod 16 = acc * 16 ^ length (hex n) + n"
      using False by (subst (2) hex.simps) (simp add: algebra_simps)
    finally show ?thesis .
  qed
qed

lemma strtol_hex: "int n \<le> LONG_MAX \<Longrightarrow> strtol (hex n @ CRLF @ r) 16 = int n"
proof -
  assume n: "int n \<le> LONG_MAX"
  obtain c cs where h: "hex n = c # cs" using hex_not_empty by (cases "hex n") blast+
  have c: "\<not> is_space c" "c \<notin> {CHR ''-'', CHR ''+''}"
    using hex_chars[of c n] hex_digit_chars h by auto
  have x: "c' \<notin> {CHR ''x'', CHR ''X''}" if "c' \<in> set cs" for c'
    using hex_chars[of c' n] hex_digit_chars h that by auto
  have skip: "skip_0x 16 (hex n @ CRLF @ r) = hex n @ CRLF @ r"
    using x h by (cases cs) (auto simp: skip_0x_def CRLF_def split: list.split)
  have "digits_value 16 0 (hex n @ CRLF @ r) = n"
    by (simp add: digits_value_hex CRLF_def digit_value_def Let_def)
  then have "clamp_long (int (digits_value 16 0 (skip_0x 16 (hex n @ CRLF @ r)))) = int n"
    using n skip by (simp add: clamp_long_def LONG_MIN_def)
  moreover have "dropWhile is_space (hex n @ CRLF @ r) = hex n @ CRLF @ r" using h c(1) by simp
  ultimately show ?thesis using h c(2) by (simp add: strtol_def)
qed

text \<open>
  Where the parser may stand in a chunked body: \<open>rest\<close> is what follows \<open>sppos\<close>.
\<close>

definition chunks_ok :: "char list list \<Rightarrow> bool" where
  "chunks_ok cs = (\<forall>c \<in> set cs. c \<noteq> [])"

definition after_chunk :: "char list \<Rightarrow> char list \<Rightarrow> bool" where
  "after_chunk c nxt = (if c = [] then nxt = [] else \<exists>cs. chunks_ok cs \<and> nxt = chunked cs)"

definition chunk_state :: "char list \<Rightarrow> int \<Rightarrow> nat \<Rightarrow> bool" where
  "chunk_state rest csz rd =
     (csz = -1 \<and> (\<exists>cs. chunks_ok cs \<and> rest = chunked cs) \<or>
      (\<exists>c nxt. csz = int (length c) + 2 \<and> rd < length c + 2 \<and> length c < ADDRESS_SPACE \<and>
         rest = drop rd (c @ CRLF) @ nxt \<and> after_chunk c nxt))"

lemma chunked_first:
  assumes "chunks_ok cs"
  obtains c nxt where "chunked cs = hex (length c) @ CRLF @ c @ CRLF @ nxt" "after_chunk c nxt"
proof (cases cs)
  case Nil
  then show ?thesis using that[of "[]" "[]"] by (simp add: chunked_def chunk_def after_chunk_def)
next
  case (Cons c cs')
  then show ?thesis using that[of c "chunked cs'"] assms
    by (auto simp: chunked_def chunk_def after_chunk_def chunks_ok_def)
qed

lemma hex_clean: "CHR 0x0D \<notin> set (hex n)" "\<forall>c \<in> set (hex n @ CRLF). c \<noteq> NUL"
proof -
  show "CHR 0x0D \<notin> set (hex n)" using hex_chars[of "CHR 0x0D" n] hex_digit_chars by fastforce
  have "NUL \<notin> set (hex n)" using hex_chars[of NUL n] hex_digit_chars by fastforce
  then show "\<forall>c \<in> set (hex n @ CRLF). c \<noteq> NUL" by (auto simp: CRLF_def)
qed

lemma c_string_line: "c_string (hex n @ CRLF @ r) = hex n @ CRLF @ c_string r"
proof -
  have "c_string ((hex n @ CRLF) @ r) = (hex n @ CRLF) @ c_string r"
    using hex_clean(2)[of n] by (intro takeWhile_append2) blast
  then show ?thesis by simp
qed

lemma hex_CRLF_line:
  "strstr (c_string (take k (hex n @ CRLF @ R))) CRLF = (if length (hex n) + 2 \<le> k then Some (length (hex n)) else None)"
  (is "strstr (c_string (take k (?h @ CRLF @ R))) CRLF = _")
proof -
  note h = hex_clean[of n]
  have line: "strstr (?h @ CRLF @ r) CRLF = Some (length ?h)" for r
    using strstr_pair_first[OF h(1)] by (simp add: CRLF_def)
  show ?thesis
  proof (cases "length ?h + 2 \<le> k")
    case True
    then have "take k (?h @ CRLF @ R) = ?h @ CRLF @ take (k - (length ?h + 2)) R" by simp
    then have "c_string (take k (?h @ CRLF @ R)) = ?h @ CRLF @ c_string (take (k - (length ?h + 2)) R)"
      by (simp only: c_string_line)
    then show ?thesis using True line by simp
  next
    case False
    then have t: "take k (?h @ CRLF @ R) = take k (?h @ CRLF)" by simp
    have cs: "c_string (take k (?h @ CRLF)) = take k (?h @ CRLF)"
      using h(2) by (intro takeWhile_eq_all_conv[THEN iffD2]) (blast dest: in_set_takeD)
    have st: "strstr (take k (?h @ CRLF)) CRLF = None"
      unfolding strstr_take using False line[of "[]"] by simp
    show ?thesis unfolding t cs st by (simp only: False if_False)
  qed
qed

lemma hex_line_value:
  assumes "length (hex n) + 2 \<le> k" and "int n \<le> LONG_MAX"
  shows "strtol (c_string (take k (hex n @ CRLF @ R))) 16 = int n"
proof -
  have "take k (hex n @ CRLF @ R) = hex n @ CRLF @ take (k - (length (hex n) + 2)) R" using assms(1) by simp
  then have "c_string (take k (hex n @ CRLF @ R)) = hex n @ CRLF @ c_string (take (k - (length (hex n) + 2)) R)"
    by (simp only: c_string_line)
  then show ?thesis using strtol_hex[OF assms(2)] by simp
qed

text \<open>
  Whatever part of the body has arrived, the loop takes it without skipping a byte, and reports
  the end exactly when the whole body has arrived.
\<close>

definition chunk_post :: "char list \<Rightarrow> nat \<Rightarrow> bool \<times> nat \<times> int \<times> nat \<Rightarrow> bool" where
  "chunk_post T n r =
     (case r of (fin, p, csz, rd) \<Rightarrow>
       fin = (n = length T) \<and> p \<le> n \<and> (fin \<longrightarrow> p = n) \<and> (\<not> fin \<longrightarrow> chunk_state (drop p T) csz rd))"

lemma chunk_loop_chunked:
  assumes T: "in_memory T" and n: "n \<le> length T" "0 < n" and h: "holds v (take n T)"
    and "pos \<le> n" and "chunk_state (drop pos T) csz rd"
    and "n - pos + (if csz = -1 then 0 else 1) < fuel"
  shows "\<exists>r. chunk_loop fuel (ptr v) n pos csz rd = Inr r \<and> chunk_post T n r"
  using assms(5-)
proof (induction fuel arbitrary: pos csz rd)
  case 0
  then show ?case by simp
next
  case (Suc fuel)
  have big: "length T < 2 ^ 47" using T by (simp add: in_memory_def ADDRESS_SPACE_def)
  have nsz: "n < SIZE_MOD" using big n by (simp add: SIZE_MOD_eq)
  define tail where "tail = (\<lambda>p sz r. let left = sz_sub (sz_of_int sz) r; avail = sz_sub n p;
              ra = (if left > avail then avail else left);
              pos = sz_add p ra; rd = sz_add r ra in
          if rd = sz_of_int sz
          then (if sz = 2 then Inr (True, pos, sz, rd) else chunk_loop fuel (ptr v) n pos (-1) 0)
          else Inr (False, pos, sz, rd))"
  have data: "\<exists>x. tail p (int (length c) + 2) r = Inr x \<and> chunk_post T n x"
    if p: "p \<le> n" "n - p < fuel" and d: "drop p T = drop r (c @ CRLF) @ nxt" and r: "r < length c + 2"
      and nxt: "after_chunk c nxt" and c: "length c < ADDRESS_SPACE" for p c r nxt
  proof -
    let ?sz = "int (length c) + 2" and ?left = "length c + 2 - r"
    have len: "length T - p = ?left + length nxt" using arg_cong[OF d, of length] r by simp
    have small: "length c < 2 ^ 48" using c by (simp add: ADDRESS_SPACE_eq)
    have szn: "sz_of_int ?sz = length c + 2" using small by (simp add: sz_of_int_nonneg nat_add_distrib)
    have left: "sz_sub (sz_of_int ?sz) r = ?left"
      unfolding szn using r small by (simp add: SIZE_MOD_eq)
    have rd: "sz_add r m = r + m" if "m \<le> ?left" for m
      using that r small by (simp add: SIZE_MOD_eq)
    let ?m = "min ?left (n - p)"
    have eq: "tail p ?sz r = (if r + ?m = length c + 2
        then (if ?sz = 2 then Inr (True, p + ?m, ?sz, r + ?m) else chunk_loop fuel (ptr v) n (p + ?m) (-1) 0)
        else Inr (False, p + ?m, ?sz, r + ?m))"
    proof -
      have ra: "(if ?left > sz_sub n p then sz_sub n p else ?left) = ?m"
        unfolding take_part(1)[OF p(1) nsz] by (simp add: min_def)
      have pos: "sz_add p ?m = p + ?m" using take_part(2)[OF p(1) nsz, of ?left] unfolding ra .
      have "sz_add r ?m = r + ?m" by (rule rd) simp
      then show ?thesis unfolding tail_def Let_def left ra pos unfolding szn by (simp only:)
    qed
    have dm: "drop (p + ?m) T = drop (r + ?m) (c @ CRLF) @ nxt"
    proof -
      have "drop ?m (X @ nxt) = drop ?m X @ nxt" if "?m \<le> length X" for X
        using that by simp
      from this[of "drop r (c @ CRLF)"] arg_cong[OF d, of "drop ?m"] show ?thesis
        by (simp only: drop_drop add.commute[of ?m] length_drop length_append CRLF_length min.cobounded1)
    qed
    show ?thesis
    proof (cases "?left \<le> n - p")
      case False
      then have m: "p + ?m = n" "r + ?m < length c + 2" using p r by auto
      then have "chunk_state (drop n T) ?sz (r + ?m)" using dm nxt c by (auto simp: chunk_state_def)
      then show ?thesis unfolding eq using m False len n(1) by (simp add: chunk_post_def)
    next
      case True
      then have m: "r + ?m = length c + 2" "?m = ?left" using r by auto
      show ?thesis
      proof (cases "c = []")
        case True_c: True
        then have "p + ?left = length T" using nxt len p n by (auto simp: after_chunk_def)
        moreover from this have "n = length T" using True n(1) p(1) by linarith
        ultimately show ?thesis unfolding eq m(1) using m(2) True_c by (simp add: chunk_post_def)
      next
        case False
        then have "chunk_state (drop (p + ?m) T) (-1) 0"
          using dm nxt m(1) by (auto simp: chunk_state_def after_chunk_def)
        then have "\<exists>x. chunk_loop fuel (ptr v) n (p + ?m) (-1) 0 = Inr x \<and> chunk_post T n x"
          using p by (intro Suc.IH) auto
        then show ?thesis unfolding eq m(1) using False by simp
      qed
    qed
  qed
  show ?case
  proof (cases "csz = -1")
    case False
    then obtain c nxt where "csz = int (length c) + 2" "rd < length c + 2"
        "drop pos T = drop rd (c @ CRLF) @ nxt" "after_chunk c nxt" "length c < ADDRESS_SPACE"
      using Suc.prems(2) by (auto simp: chunk_state_def)
    then show ?thesis using data[of pos rd c nxt] Suc.prems False by (simp add: tail_def)
  next
    case True
    then obtain cs where "chunks_ok cs" "drop pos T = chunked cs"
      using Suc.prems(2) by (auto simp: chunk_state_def)
    then obtain c nxt where d: "drop pos T = hex (length c) @ CRLF @ c @ CRLF @ nxt" and nxt: "after_chunk c nxt"
      using chunked_first by metis
    let ?h = "hex (length c)"
    have str: "cstring_at (ptr v) pos = Inr (c_string (take (n - pos) (drop pos T)))"
      using holds_string[OF h, of pos] n Suc.prems(1) by (cases "T = []") (simp_all add: drop_take)
    show ?thesis
    proof (cases "length ?h + 2 \<le> n - pos")
      case False
      have "strstr (c_string (take (n - pos) (drop pos T))) CRLF = None"
        unfolding d hex_CRLF_line by (simp only: False if_False)
      then have "chunk_loop (Suc fuel) (ptr v) n pos csz rd = Inr (False, pos, csz, rd)"
        using True str by simp
      moreover have "n \<noteq> length T" using False arg_cong[OF d, of length] by auto
      ultimately show ?thesis using Suc.prems by (simp add: chunk_post_def)
    next
      case line: True
      have c: "length c < ADDRESS_SPACE" using arg_cong[OF d, of length] big by (simp add: ADDRESS_SPACE_eq)
      then have small: "int (length c) + 2 \<le> LONG_MAX" by (simp add: LONG_MAX_def ADDRESS_SPACE_eq)
      have val: "strtol (c_string (take (n - pos) (drop pos T))) 16 = int (length c)"
        unfolding d by (rule hex_line_value[OF line]) (use small in simp)
      have s: "strstr (c_string (take (n - pos) (drop pos T))) CRLF = Some (length ?h)"
        unfolding d hex_CRLF_line by (simp only: line if_True)
      have "chunk_loop (Suc fuel) (ptr v) n pos csz rd = tail (pos + length ?h + 2) (int (length c) + 2) 0"
        using True str s val small by (simp add: tail_def)
      moreover have "drop (pos + length ?h + 2) T = drop 0 (c @ CRLF) @ nxt"
        using arg_cong[OF d, of "drop (length ?h + 2)"] by (simp add: add.commute)
      ultimately show ?thesis
        using data[of "pos + length ?h + 2" 0 c nxt] line nxt c Suc.prems True by simp
    qed
  qed
qed

end
