(* ===== verification/Request_Key.thy ===== *)
theory Request_Key
  imports Http_Parser Hash_Map
begin

text \<open>
  The key functions that \<open>proxy/proxy.c\<close> gives to the hash map: \<open>request_hash\<close> and
  \<open>request_equals\<close>. The hash map's interface \<open>key_ops\<close> is interpreted on them: on requests
  whose type, URI, version and Host header are present, \<open>request_equals\<close> is equality of those
  four strings, and the constant hash respects it.
\<close>

section \<open>Operations\<close>

definition request_hash :: "request_t \<Rightarrow> int" where
  "request_hash req = 1"

text \<open>One conjunct: \<open>strcmp(a, b) == 0\<close>, then the rest of the conjunction.\<close>

definition strcmp_and :: "cstr \<Rightarrow> cstr \<Rightarrow> bool res \<Rightarrow> bool res" where
  "strcmp_and a b rest =
     bind_r (cstr_val a) (\<lambda>s. bind_r (cstr_val b) (\<lambda>t. if strcmp s t = 0 then rest else Inr False))"

definition request_equals :: "request_t \<Rightarrow> request_t \<Rightarrow> bool res" where
  "request_equals req1 req2 =
     bind_r (find_header (req_headers req1) ''Host'') (\<lambda>host1.
     bind_r (find_header (req_headers req2) ''Host'') (\<lambda>host2.
     (case (host1, host2) of
        (Some i, Some j) \<Rightarrow>
          bind_r (vector_get (req_headers req1) i) (\<lambda>h1.
          bind_r (vector_get (req_headers req2) j) (\<lambda>h2.
          strcmp_and (hdr_value h1) (hdr_value h2)
            (strcmp_and (req_type req1) (req_type req2)
              (strcmp_and (req_version req1) (req_version req2)
                (strcmp_and (uri req1) (uri req2) (Inr True))))))
      | _ \<Rightarrow> Inr False)))"

section \<open>Equality of keys\<close>

text \<open>The value of the first Host header.\<close>

definition host_of :: "(char list \<times> char list) list \<Rightarrow> char list option" where
  "host_of hs = map_of hs ''Host''"

text \<open>The four strings a request is compared by: host, type, version, URI.\<close>

type_synonym view = "char list \<times> char list \<times> char list \<times> char list"

definition request_is :: "request_t \<Rightarrow> view \<Rightarrow> (char list \<times> char list) list \<Rightarrow> bool" where
  "request_is r k hs =
     (case k of (h, t, v, u) \<Rightarrow>
       headers_are (req_headers r) hs \<and> host_of hs = Some h \<and>
       req_type r = Str t \<and> req_version r = Str v \<and> uri r = Str u)"

definition has_view :: "request_t \<Rightarrow> view \<Rightarrow> bool" where
  "has_view r k = (\<exists>hs. request_is r k hs)"

definition valid_key :: "request_t \<Rightarrow> bool" where
  "valid_key r = (\<exists>k. has_view r k)"

definition same_key :: "request_t \<Rightarrow> request_t \<Rightarrow> bool" where
  "same_key a b = (\<exists>k. has_view a k \<and> has_view b k)"

lemma first_index_map_of:
  "map_of hs type = (case first_index (\<lambda>tv. fst tv = type) hs of None \<Rightarrow> None | Some i \<Rightarrow> Some (snd (hs ! i)))"
  by (induction hs) (auto split: option.splits)

text \<open>\<open>find_header\<close> points at the header whose value the list of pairs gives to the name.\<close>

lemma find_header_None:
  "headers_are headers hs \<Longrightarrow> map_of hs type = None \<Longrightarrow> find_header headers type = Inr None"
  by (simp add: find_header_headers_are first_index_map_of split: option.splits)

lemma find_header_SomeD:
  assumes "headers_are headers hs" and "map_of hs type = Some v"
  obtains i where "find_header headers type = Inr (Some i)" "i < length hs"
    "vector_get headers i = Inr \<lparr>hdr_type = Str type, hdr_value = Str v\<rparr>"
proof -
  obtain i where i: "first_index (\<lambda>tv. fst tv = type) hs = Some i" "v = snd (hs ! i)"
    using assms(2) by (auto simp: first_index_map_of split: option.splits)
  then have b: "i < length (map hdr hs)" "type = fst (hs ! i)" by (simp_all add: first_index_Some)
  show ?thesis
  proof (rule that)
    show "find_header headers type = Inr (Some i)" using find_header_headers_are[OF assms(1)] i(1) by simp
    show "vector_get headers i = Inr \<lparr>hdr_type = Str type, hdr_value = Str v\<rparr>"
      using vector_get_represents[OF assms(1)[unfolded headers_are_def] b(1)] b i(2) by (simp add: hdr_def)
  qed (use b in simp)
qed

lemma strcmp_and_Str [simp]:
  "strcmp_and (Str a) (Str b) rest = (if a = b then rest else Inr False)"
  by (simp add: strcmp_and_def)

lemma request_equals_view:
  assumes "has_view a k" and "has_view b l"
  shows "request_equals a b = Inr (k = l)"
proof -
  obtain h t v u hs where a: "k = (h, t, v, u)" "request_is a k hs"
    using assms(1) by (cases k) (auto simp: has_view_def)
  obtain h' t' v' u' hs' where b: "l = (h', t', v', u')" "request_is b l hs'"
    using assms(2) by (cases l) (auto simp: has_view_def)
  obtain i where i: "find_header (req_headers a) ''Host'' = Inr (Some i)"
      "vector_get (req_headers a) i = Inr \<lparr>hdr_type = Str ''Host'', hdr_value = Str h\<rparr>"
    using a find_header_SomeD[of "req_headers a" hs "''Host''" h] by (auto simp: request_is_def host_of_def)
  obtain j where j: "find_header (req_headers b) ''Host'' = Inr (Some j)"
      "vector_get (req_headers b) j = Inr \<lparr>hdr_type = Str ''Host'', hdr_value = Str h'\<rparr>"
    using b find_header_SomeD[of "req_headers b" hs' "''Host''" h'] by (auto simp: request_is_def host_of_def)
  show ?thesis using a b i j by (auto simp: request_equals_def request_is_def)
qed

lemma has_view_unique: "has_view a k \<Longrightarrow> has_view a l \<Longrightarrow> k = l"
proof -
  assume k: "has_view a k" and l: "has_view a l"
  obtain hs hs' where hs: "request_is a k hs" "request_is a l hs'" using k l by (auto simp: has_view_def)
  then have "headers_are (req_headers a) hs" "headers_are (req_headers a) hs'"
    by (auto simp: request_is_def split: prod.splits)
  then have "hs = hs'" by (rule headers_are_unique)
  then show ?thesis using hs by (auto simp: request_is_def split: prod.splits)
qed

lemma same_key_view:
  assumes a: "has_view a k" and b: "has_view b l"
  shows "same_key a b = (k = l)"
proof
  assume "same_key a b"
  then obtain m where m: "has_view a m" "has_view b m" unfolding same_key_def by (elim exE conjE)
  show "k = l" using has_view_unique[OF a m(1)] has_view_unique[OF b m(2)] by (simp only:)
next
  assume "k = l"
  then have "has_view b k" using b by (simp only:)
  then show "same_key a b" unfolding same_key_def by (intro exI conjI) (rule a)
qed

lemma same_key_trans:
  assumes "same_key a b" and "same_key b c"
  shows "same_key a c"
proof -
  obtain k where k: "has_view a k" "has_view b k" using assms(1) unfolding same_key_def by (elim exE conjE)
  obtain l where l: "has_view b l" "has_view c l" using assms(2) unfolding same_key_def by (elim exE conjE)
  have "has_view c k" using l(2) has_view_unique[OF k(2) l(1)] by (simp only:)
  with k(1) show ?thesis unfolding same_key_def by (intro exI conjI)
qed

interpretation rk: key_ops request_hash request_equals valid_key same_key
proof
  fix a b
  assume a: "valid_key a" and b: "valid_key b"
  obtain k where k: "has_view a k" using a unfolding valid_key_def by (elim exE)
  obtain l where l: "has_view b l" using b unfolding valid_key_def by (elim exE)
  show "request_equals a b = Inr (same_key a b)"
    unfolding request_equals_view[OF k l] same_key_view[OF k l] by (rule refl)
next
  show "same_key a c" if "same_key a b" "same_key b c" for a b c
    using that by (rule same_key_trans)
  show "same_key a a" if "valid_key a" for a using that by (simp add: valid_key_def same_key_def)
  show "same_key b a" if "same_key a b" for a b using that unfolding same_key_def by (elim exE conjE) (intro exI conjI)
  show "request_hash a = request_hash b" for a b by (simp add: request_hash_def)
  show "INT_MIN < request_hash a \<and> request_hash a \<le> INT_MAX" for a
    by (simp add: request_hash_def INT_MIN_def INT_MAX_def)
qed

end
