(* ===== verification/Handler_Cache.thy ===== *)
theory Handler_Cache
  imports Handler_Buffers Request_Key
begin

text \<open>
  The cache of finished exchanges: the copies \<open>cache\<close> makes are faithful, the shared table stays
  well formed, and an equal request finds a copy of the response afterwards.
\<close>

section \<open>Copies\<close>

lemma str_copy_safe: "c \<noteq> Dangling \<Longrightarrow> safe (str_copy al c) (\<lambda>c'. c' = c)"
  by (cases c) (auto simp: str_copy_def assert_r_def)

lemma copy_header_safe: "safe (copy_header al (hdr tv)) (\<lambda>h. h = hdr tv)"
  unfolding copy_header_def
  by (rule safe_bind[OF str_copy_safe], simp add: hdr_def, rule safe_bind[OF str_copy_safe])
    (simp_all add: hdr_def)

definition same_request :: "request_t \<Rightarrow> (char list \<times> char list) list \<Rightarrow> request_t \<Rightarrow> bool" where
  "same_request rq hs r =
     (req_type r = req_type rq \<and> uri r = uri rq \<and> req_version r = req_version rq \<and>
      req_body r = req_body rq \<and> headers_are (req_headers r) hs)"

lemma copy_request_safe:
  assumes live: "live_request rq hs" and al: "al_ok al"
  shows "safe (copy_request al rq) (same_request rq hs)"
proof -
  let ?new = "vector_init \<lparr>ptr = null_block, cnt = 0, capacity = 0\<rparr> :: header_t vec"
  have rep: "represents HEADER_SIZE (req_headers rq) (map hdr hs)"
    using live by (simp add: live_request_def headers_are_def)
  note r = representsD[OF rep]
  have copies: "safe (copy_header al y) (\<lambda>x. x = y)" if "y \<in> set (map hdr hs)" for y
    using that copy_header_safe by auto
  have "safe (transfer (vector_get (req_headers rq)) (copy_header al) (vector_push_back al HEADER_SIZE)
      (cnt (req_headers rq)) 0 ?new) (\<lambda>w'. represents HEADER_SIZE w' ([] @ map (\<lambda>x. x) (drop 0 (map hdr hs))))"
    by (rule cv.transfer_from[OF al, where ys = "map hdr hs"])
      (use r(2) vector_get_represents[OF rep] copies in \<open>auto simp: vector_init_represents\<close>)
  then have tr: "safe (transfer (vector_get (req_headers rq)) (copy_header al) (vector_push_back al HEADER_SIZE)
      (cnt (req_headers rq)) 0 ?new) (\<lambda>w'. headers_are w' hs)"
    by (simp add: headers_are_def)
  have l: "req_type rq \<noteq> Dangling" "uri rq \<noteq> Dangling" "req_version rq \<noteq> Dangling" "req_body rq \<noteq> Dangling"
    using live by (simp_all add: live_request_def)
  show ?thesis unfolding copy_request_def Let_def
    by (intro safe_bind[OF str_copy_safe[OF l(1)]] safe_bind[OF str_copy_safe[OF l(2)]]
        safe_bind[OF str_copy_safe[OF l(3)]] safe_bind[OF str_copy_safe[OF l(4)]] safe_bind[OF tr])
      (simp add: same_request_def)
qed

lemma same_request_view: "request_is rq k hs \<Longrightarrow> same_request rq hs r \<Longrightarrow> request_is r k hs"
  by (auto simp: request_is_def same_request_def)

lemma copy_buffer_safe:
  assumes rep: "represents CHAR_SIZE v bs" and al: "al_ok al"
  shows "safe (copy_buffer al v) (\<lambda>v'. represents CHAR_SIZE v' bs)"
proof -
  note r = representsD[OF rep]
  have rd: "read_bytes (ptr v) 0 (cnt v) = Inr bs"
    using read_bytes_represents[OF rep, of 0 "cnt v"] r(2) by simp
  obtain b where b: "store_list (fresh_block (capacity v)) 0 bs = Inr b" "blk_len b = capacity v"
      "\<forall>i. blk_cell b i = (if i < length bs then Some (bs ! i) else None)"
    using store_list_in_block[of 0 bs "fresh_block (capacity v)"] r(3) by (auto simp: fresh_block_def)
  show ?thesis unfolding copy_buffer_def
  proof (rule safe_bind[OF safe_assert])
    show "safe (bind_r (read_bytes (ptr v) 0 (cnt v)) (\<lambda>bs. bind_r (store_list (fresh_block (capacity v)) 0 bs)
        (\<lambda>b. Inr \<lparr>ptr = b, cnt = cnt v, capacity = capacity v\<rparr>))) (\<lambda>v'. represents CHAR_SIZE v' bs)"
      using rd b r by (auto simp: represents_def)
  qed simp
qed

section \<open>The shared table\<close>

text \<open>The table of the world is well formed and every address it uses is below \<open>w_next\<close>.\<close>

definition world_is :: "world \<Rightarrow> (nat \<Rightarrow> pair_t list) \<Rightarrow> bool" where
  "world_is w P =
     (table request_hash request_equals valid_key (w_hm w) (w_cells w) P \<and>
      (\<forall>ind. \<forall>p \<in> set (P ind). key p < w_next w \<and> value p < w_next w))"

text \<open>What the table answers for a request.\<close>

definition cached :: "world \<Rightarrow> (nat \<Rightarrow> pair_t list) \<Rightarrow> request_t \<Rightarrow> char vec option" where
  "cached w P = lookup request_hash same_key (w_cells w) P"

lemma world_is_log: "world_is (log_io es w) P = world_is w P" "cached (log_io es w) P = cached w P"
  by (simp_all add: world_is_def cached_def log_io_def)

text \<open>New cells at unused addresses are invisible to the table.\<close>

lemma table_new_cells:
  assumes w: "world_is w P" and a: "w_next w \<le> ka" "w_next w \<le> va"
    and h_def: "h = (w_cells w)\<lparr>key_at := (key_at (w_cells w))(ka := k), val_at := (val_at (w_cells w))(va := v)\<rparr>"
  shows "table request_hash request_equals valid_key (w_hm w) h P"
    and "lookup request_hash same_key h P q = cached w P q"
    and "\<not> mentions key P ka" "\<not> mentions value P va"
proof -
  have b: "key p \<noteq> ka \<and> value p \<noteq> va" if "p \<in> set (P ind)" for ind p
    using w a that by (fastforce simp: world_is_def)
  then show "\<not> mentions key P ka" "\<not> mentions value P va" unfolding mentions_def by blast+
  have "live_pair request_hash valid_key h ind p = live_pair request_hash valid_key (w_cells w) ind p"
    if "p \<in> set (P ind)" for ind p
    using b[OF that] by (simp add: live_pair_def h_def)
  then show "table request_hash request_equals valid_key (w_hm w) h P"
    using w by (simp add: world_is_def table_def)
  have hit: "hit same_key h q p = hit same_key (w_cells w) q p" if "p \<in> set (P ind)" for ind p
    using b[OF that] by (simp add: hit_def h_def)
  have "first_index (hit same_key h q) xs = first_index (hit same_key (w_cells w) q) xs"
    if "set xs \<subseteq> set (P ind)" for xs ind
    using that by (induction xs) (auto simp: hit)
  then have pos: "position request_hash same_key h P q = position request_hash same_key (w_cells w) P q"
    unfolding position_def by blast
  have "val_at h (value (P ind ! i)) = val_at (w_cells w) (value (P ind ! i))" if "i < length (P ind)" for ind i
    using b[OF nth_mem[OF that]] by (simp add: h_def)
  then have "position request_hash same_key (w_cells w) P q = Some i \<Longrightarrow>
      val_at h (value (P (slot request_hash q) ! i)) = val_at (w_cells w) (value (P (slot request_hash q) ! i))" for i
    by (simp add: position_def first_index_Some)
  then show "lookup request_hash same_key h P q = cached w P q"
    unfolding cached_def lookup_def pos by (simp split: option.split)
qed

text \<open>
  \<open>cache\<close> changes nothing but the table; afterwards a request finds the new buffer exactly when
  it equals the cached one, and what it found before otherwise.
\<close>

definition cache_post :: "request_t \<Rightarrow> char list \<Rightarrow> hst \<Rightarrow> (nat \<Rightarrow> pair_t list) \<Rightarrow> hst \<Rightarrow> bool" where
  "cache_post rq s st P st' =
     (fst st' = fst st \<and> w_io (snd st') = w_io (snd st) \<and> last_fd (snd st') = last_fd (snd st) \<and>
      (\<exists>P' v. world_is (snd st') P' \<and> represents CHAR_SIZE v s \<and>
        (\<forall>q. valid_key q \<longrightarrow> cached (snd st') P' q = (if same_key rq q then Some v else cached (snd st) P q))))"

lemma cache_safe:
  assumes w: "world_is w P" and al: "al_ok al" "al VPAIR_SIZE"
    and live: "live_request (request ctx) hs" and k: "request_is (request ctx) k hs"
    and rep: "represents CHAR_SIZE (sbuff ctx) s"
  shows "safe (cache al (ctx, w)) (cache_post (request ctx) s (ctx, w) P)"
  unfolding cache_def prod.case
proof (rule safe_bind[OF safe_assert], rule TrueI, rule safe_bind[OF copy_request_safe[OF live al(1)]],
    rule safe_bind[OF copy_buffer_safe[OF rep al(1)]])
  fix rc bc
  assume rc: "same_request (request ctx) hs rc" and bc: "represents CHAR_SIZE bc s"
  let ?ka = "w_next w" and ?va = "w_next w + 1"
  define h where "h = (w_cells w)\<lparr>key_at := (key_at (w_cells w))(?ka := Some rc),
      val_at := (val_at (w_cells w))(?va := Some bc)\<rparr>"
  note new = table_new_cells[OF w, of ?ka ?va, OF _ _ h_def]
  have view: "has_view rc k" "has_view (request ctx) k"
    using same_request_view[OF k rc] k by (auto simp: has_view_def)
  then have valid: "valid_key rc" unfolding valid_key_def by blast
  have same: "same_key rc q = same_key (request ctx) q" for q
    using view has_view_unique unfolding same_key_def by metis
  have ca: "key_at h ?ka = Some rc" "val_at h ?va = Some bc" by (simp_all add: h_def)
  have put: "safe (hash_map_put al (w_hm w) h ?ka ?va)
      (put_post request_hash request_equals valid_key same_key h P \<lparr>key = ?ka, value = ?va\<rparr> rc bc)"
    using rk.hash_map_put_table[OF new(1) al(1) ca(1) valid ca(2) new(3,4)] al(2)
    by (cases "hash_map_put al (w_hm w) h ?ka ?va") auto
  have "safe (bind_r (hash_map_put al (w_hm w) h ?ka ?va) (\<lambda>(hm', h', _).
      Inr (ctx, w\<lparr>w_hm := hm', w_cells := h', w_next := w_next w + 2\<rparr>)))
      (cache_post (request ctx) s (ctx, w) P)"
  proof (rule safe_bind[OF put])
    fix r
    assume post: "put_post request_hash request_equals valid_key same_key h P \<lparr>key = ?ka, value = ?va\<rparr> rc bc r"
    obtain hm' h' ret where r: "r = (hm', h', ret)" by (cases r)
    let ?w = "w\<lparr>w_hm := hm', w_cells := h', w_next := w_next w + 2\<rparr>"
    obtain P' where P': "table request_hash request_equals valid_key hm' h' P'"
        "\<forall>ind. set (P' ind) \<subseteq> insert \<lparr>key = ?ka, value = ?va\<rparr> (set (P ind))"
        "\<forall>q. valid_key q \<longrightarrow> lookup request_hash same_key h' P' q =
           (if same_key rc q then Some bc else lookup request_hash same_key h P q)"
      using post r by (auto simp: put_post_def)
    have "key p < w_next ?w \<and> value p < w_next ?w" if "p \<in> set (P' ind)" for p ind
    proof -
      have "p = \<lparr>key = ?ka, value = ?va\<rparr> \<or> p \<in> set (P ind)" using P'(2) that by blast
      then show ?thesis using w by (fastforce simp: world_is_def)
    qed
    then have "world_is ?w P'" using P'(1) by (simp add: world_is_def)
    moreover have "\<forall>q. valid_key q \<longrightarrow>
        cached ?w P' q = (if same_key (request ctx) q then Some bc else cached w P q)"
      using P'(3) new(2) by (simp add: cached_def same)
    ultimately show "safe (case r of (hm', h', _) \<Rightarrow>
        Inr (ctx, w\<lparr>w_hm := hm', w_cells := h', w_next := w_next w + 2\<rparr>)) (cache_post (request ctx) s (ctx, w) P)"
      unfolding r cache_post_def prod.case safe_simps fst_conv snd_conv using bc
      by (intro conjI exI[of _ P'] exI[of _ bc]) (assumption | simp)+
  qed
  then show "safe (let ka = w_next w; va = w_next w + 1;
           h = (w_cells w)\<lparr>key_at := (key_at (w_cells w))(ka := Some rc),
                           val_at := (val_at (w_cells w))(va := Some bc)\<rparr> in
       bind_r (hash_map_put al (w_hm w) h ka va) (\<lambda>(hm', h', _).
       Inr (ctx, w\<lparr>w_hm := hm', w_cells := h', w_next := w_next w + 2\<rparr>)))
      (cache_post (request ctx) s (ctx, w) P)"
    unfolding Let_def h_def .
qed

end
