(* ===== verification/Handler_Invariant.thy ===== *)
theory Handler_Invariant
  imports Handler_Cache "HOL-Library.Sublist"
begin

text \<open>
  The invariant of a connection and the proof that every step keeps it: the buffers hold what was
  read, positions stay inside them, the strings are live, and what was written so far is a prefix
  of what was read from the other side. A finished connection keeps the prefix property, and one
  that ended as \<open>HANDLED\<close> has forwarded everything in both directions.
\<close>

section \<open>Traffic\<close>

fun received :: "int \<Rightarrow> io list \<Rightarrow> char list" where
  "received fd [] = []"
| "received fd (Read f bs # L) = (if f = fd then bs @ received fd L else received fd L)"
| "received fd (_ # L) = received fd L"

fun sent :: "int \<Rightarrow> io list \<Rightarrow> char list" where
  "sent fd [] = []"
| "sent fd (Write f bs # L) = (if f = fd then bs @ sent fd L else sent fd L)"
| "sent fd (_ # L) = sent fd L"

lemma received_append [simp]: "received fd (L @ M) = received fd L @ received fd M"
  by (induction fd L rule: received.induct) auto

lemma sent_append [simp]: "sent fd (L @ M) = sent fd L @ sent fd M"
  by (induction fd L rule: sent.induct) auto

definition client_only :: "int \<Rightarrow> io list \<Rightarrow> bool" where
  "client_only fd L = (\<forall>ev \<in> set L. \<exists>bs. ev = Read fd bs)"

lemma client_only_append [simp]: "client_only fd (L @ M) = (client_only fd L \<and> client_only fd M)"
  by (auto simp: client_only_def)

lemma client_only_other: "client_only fd L \<Longrightarrow> f \<noteq> fd \<Longrightarrow> received f L = []"
  and client_only_sent: "client_only fd L \<Longrightarrow> sent f L = []"
  by (induction f L rule: received.induct; simp add: client_only_def)
    (induction f L rule: sent.induct; simp add: client_only_def)

text \<open>All events of a log are on one of two descriptors.\<close>

fun ev_fd :: "io \<Rightarrow> int" where
  "ev_fd (Read f bs) = f"
| "ev_fd (Write f bs) = f"
| "ev_fd (Close f) = f"
| "ev_fd (Socket f) = f"
| "ev_fd (Bind f port) = f"
| "ev_fd (Listen f n) = f"
| "ev_fd (Connect f a) = f"

definition on_two :: "int \<Rightarrow> int \<Rightarrow> io list \<Rightarrow> bool" where
  "on_two a b L = (\<forall>ev \<in> set L. ev_fd ev = a \<or> ev_fd ev = b)"

lemma on_two_simps [simp]:
  "on_two a b []"
  "on_two a b (ev # L) = ((ev_fd ev = a \<or> ev_fd ev = b) \<and> on_two a b L)"
  "on_two a b (L @ M) = (on_two a b L \<and> on_two a b M)"
  by (auto simp: on_two_def)

lemma client_only_on_two: "client_only a L \<Longrightarrow> on_two a b L"
  by (auto simp: client_only_def on_two_def)

text \<open>No descriptor is closed, and what closes the descriptors of a connection.\<close>

definition no_close :: "io list \<Rightarrow> bool" where
  "no_close L = (\<forall>fd. Close fd \<notin> set L)"

lemma no_close_simps [simp]:
  "no_close []"
  "no_close (ev # L) = ((\<forall>fd. ev \<noteq> Close fd) \<and> no_close L)"
  "no_close (L @ M) = (no_close L \<and> no_close M)"
  by (auto simp: no_close_def)

lemma client_only_no_close: "client_only a L \<Longrightarrow> no_close L"
  by (auto simp: client_only_def no_close_def)

definition closing_events :: "int \<Rightarrow> int \<Rightarrow> io list" where
  "closing_events a b = Close a # (if b \<noteq> -1 then [Close b] else [])"

definition closed_once :: "int \<Rightarrow> int \<Rightarrow> io list \<Rightarrow> bool" where
  "closed_once a b L = (\<exists>M. no_close M \<and> L = M @ closing_events a b)"

section \<open>The invariant\<close>

definition phase :: "HandlingStep \<Rightarrow> nat" where
  "phase st = (case st of PARSING_REQ_TYPE \<Rightarrow> 0 | PARSING_REQ_HEADERS \<Rightarrow> 1 | CONNECT_STEP \<Rightarrow> 2
     | SENDING_REQ \<Rightarrow> 3 | PARSING_RESP_CODE \<Rightarrow> 4 | PARSING_RESP_HEADERS \<Rightarrow> 5
     | PARSING_RESP_BODY \<Rightarrow> 6 | SENDING_RESP \<Rightarrow> 7 | HANDLED \<Rightarrow> 8 | HANDLED_EXCEPTIONALLY \<Rightarrow> 9)"

definition finished :: "handler_context_t \<Rightarrow> bool" where
  "finished ctx = (handling_step ctx \<in> {HANDLED, HANDLED_EXCEPTIONALLY})"

definition buffers :: "handler_context_t \<Rightarrow> char list \<Rightarrow> char list \<Rightarrow> bool" where
  "buffers ctx c s =
     (holds (cbuff ctx) c \<and> holds (sbuff ctx) s \<and> cppos ctx \<le> length c \<and> sppos ctx \<le> length s)"

definition live :: "handler_context_t \<Rightarrow> bool" where
  "live ctx = ((\<exists>hs. live_request (request ctx) hs) \<and> (\<exists>hs. live_response (response ctx) hs))"

definition line_parsed :: "request_t \<Rightarrow> bool" where
  "line_parsed rq = (\<exists>t u v. req_type rq = Str t \<and> uri rq = Str u \<and> req_version rq = Str v)"

definition parsed :: "handler_context_t \<Rightarrow> char list \<Rightarrow> char list \<Rightarrow> bool" where
  "parsed ctx c s =
     (let ph = phase (handling_step ctx) in
      (1 \<le> ph \<longrightarrow> c \<noteq> [] \<and> line_parsed (request ctx)) \<and>
      (2 \<le> ph \<longrightarrow> valid_key (request ctx)) \<and>
      (ph = 2 \<longrightarrow> connection_state ctx \<noteq> NOT_CONNECTED) \<and>
      (ph = 3 \<longrightarrow> sended ctx < length c) \<and>
      (5 \<le> ph \<longrightarrow> s \<noteq> []) \<and>
      (6 \<le> ph \<longrightarrow> sended ctx \<le> length s \<and> read_cnt ctx \<le> length s))"

definition traffic :: "io list \<Rightarrow> handler_context_t \<Rightarrow> char list \<Rightarrow> char list \<Rightarrow> bool" where
  "traffic L ctx c s =
     (let ph = phase (handling_step ctx) in
      0 \<le> client_fd ctx \<and> received (client_fd ctx) L = c \<and>
      (if ph < 2
       then server_fd ctx = -1 \<and> connection_state ctx = NOT_CONNECTED \<and> s = [] \<and> client_only (client_fd ctx) L
       else 0 \<le> server_fd ctx \<and> server_fd ctx \<noteq> client_fd ctx \<and> received (server_fd ctx) L = s \<and>
         sent (server_fd ctx) L = (if ph = 2 then [] else if ph = 3 then take (sended ctx) c else c) \<and>
         sent (client_fd ctx) L = (if 6 \<le> ph then take (sended ctx) s else []) \<and>
         on_two (client_fd ctx) (server_fd ctx) L \<and> no_close L))"

definition conn :: "io list \<Rightarrow> handler_context_t \<Rightarrow> char list \<Rightarrow> char list \<Rightarrow> bool" where
  "conn L ctx c s =
     (\<not> finished ctx \<and> buffers ctx c s \<and> live ctx \<and> parsed ctx c s \<and> traffic L ctx c s)"

definition closed :: "io list \<Rightarrow> handler_context_t \<Rightarrow> bool" where
  "closed L ctx =
     (on_two (client_fd ctx) (server_fd ctx) L \<and> closed_once (client_fd ctx) (server_fd ctx) L \<and>
      prefix (sent (server_fd ctx) L) (received (client_fd ctx) L) \<and>
      prefix (sent (client_fd ctx) L) (received (server_fd ctx) L) \<and>
      (handling_step ctx = HANDLED \<longrightarrow>
        sent (server_fd ctx) L = received (client_fd ctx) L \<and>
        sent (client_fd ctx) L = received (server_fd ctx) L))"

text \<open>
  \<open>W\<close> is the log when the invocation starts, \<open>L\<close> the earlier traffic of this connection: other
  connections may have logged in between. \<open>A\<close> says which contents the buffers may have.
\<close>

definition good :: "io list \<Rightarrow> io list \<Rightarrow> (char list \<times> char list) set \<Rightarrow> hst \<Rightarrow> bool" where
  "good W L A st =
     (case st of (ctx, w) \<Rightarrow>
       \<exists>es P. w_io w = W @ es \<and> world_is w P \<and>
         (if finished ctx then closed (L @ es) ctx else \<exists>(c, s) \<in> A. conn (L @ es) ctx c s))"

lemma goodI:
  "w_io w = W @ es \<Longrightarrow> world_is w P \<Longrightarrow> conn (L @ es) ctx c s \<Longrightarrow> (c, s) \<in> A \<Longrightarrow> good W L A (ctx, w)"
  unfolding good_def prod.case
  by (intro exI[of _ es] exI[of _ P] conjI) (auto simp: conn_def intro!: bexI[of _ "(c, s)"])

lemma good_mono: "good W L A st \<Longrightarrow> A \<subseteq> B \<Longrightarrow> good W L B st"
  by (auto simp: good_def split: if_splits)

lemma connD:
  assumes "conn L ctx c s"
  shows "\<not> finished ctx" "holds (cbuff ctx) c" "holds (sbuff ctx) s" "cppos ctx \<le> length c"
    "sppos ctx \<le> length s" "live ctx" "parsed ctx c s" "traffic L ctx c s"
  using assms by (auto simp: conn_def buffers_def)

text \<open>What was written is always a prefix of what was read on the other side.\<close>

lemma traffic_closed:
  assumes "traffic L ctx c s" and "fd = server_fd ctx \<or> phase (handling_step ctx) < 2 \<and> fd \<noteq> client_fd ctx"
  shows "prefix (sent fd L) (received (client_fd ctx) L)"
    and "prefix (sent (client_fd ctx) L) (received fd L)"
  using assms by (auto simp: traffic_def Let_def client_only_sent take_is_prefix split: if_splits)

lemma traffic_on_two: "traffic L ctx c s \<Longrightarrow> on_two (client_fd ctx) (server_fd ctx) L"
  and traffic_no_close: "traffic L ctx c s \<Longrightarrow> no_close L"
  by (auto simp: traffic_def Let_def client_only_on_two client_only_no_close split: if_splits)

section \<open>Destruction\<close>

definition closes :: "io list \<Rightarrow> bool" where
  "closes es = (\<forall>ev \<in> set es. \<exists>fd. ev = Close fd)"

lemma closes_no_data: "closes es \<Longrightarrow> received fd es = []" "closes es \<Longrightarrow> sent fd es = []"
  by (induction fd es rule: received.induct; simp add: closes_def)
    (induction fd es rule: sent.induct; simp add: closes_def)

lemma destroy_context_live:
  assumes "live ctx"
  shows "\<exists>ctx' es. destroy_context (ctx, w) = Inr (ctx', log_io es w) \<and> closes es \<and>
    es = closing_events (client_fd ctx) (server_fd ctx) \<and> on_two (client_fd ctx) (server_fd ctx) es \<and> handling_step ctx' = HANDLED_EXCEPTIONALLY \<and> client_fd ctx' = client_fd ctx \<and>
    server_fd ctx' = server_fd ctx \<and> sended ctx' = sended ctx \<and> cnt (sbuff ctx') = 0"
proof -
  obtain hs hs' where l: "live_request (request ctx) hs" "live_response (response ctx) hs'"
    using assms by (auto simp: live_def)
  obtain rq where "request_destroy (request ctx) = Inr rq" using request_destroy_live[OF l(1)] by blast
  moreover obtain rs where "response_destroy (response ctx) = Inr rs" using response_destroy_live[OF l(2)] by blast
  ultimately show ?thesis
    by (intro exI[of _ "closing_events (client_fd ctx) (server_fd ctx)"] exI)
      (auto simp: closing_events_def destroy_context_def closes_def vector_free_def vector_init_def)
qed

lemma destroy_good:
  assumes "live ctx" and "w_io w = W @ es" and "world_is w P"
    and "prefix (sent (server_fd ctx) (L @ es)) (received (client_fd ctx) (L @ es))"
    and "prefix (sent (client_fd ctx) (L @ es)) (received (server_fd ctx) (L @ es))"
    and "on_two (client_fd ctx) (server_fd ctx) (L @ es)" and "no_close (L @ es)"
  shows "safe (destroy_context (ctx, w)) (good W L A)"
proof -
  obtain ctx' cs where d: "destroy_context (ctx, w) = Inr (ctx', log_io cs w)" "closes cs" "on_two (client_fd ctx) (server_fd ctx) cs"
      "cs = closing_events (client_fd ctx) (server_fd ctx)" "handling_step ctx' = HANDLED_EXCEPTIONALLY" "client_fd ctx' = client_fd ctx"
      "server_fd ctx' = server_fd ctx"
    using destroy_context_live[OF assms(1)] by blast
  have "closed_once (client_fd ctx) (server_fd ctx) (L @ es @ cs)"
    using assms(7) d(4) unfolding closed_once_def by (intro exI[of _ "L @ es"]) simp
  then have "closed (L @ es @ cs) ctx'"
    using assms(4-6) closes_no_data[OF d(2)] d(3,5-7) by (simp add: closed_def)
  moreover have "w_io (log_io cs w) = W @ es @ cs" using assms(2) by (simp add: log_io_def)
  ultimately have "good W L A (ctx', log_io cs w)"
    using assms(3) d(5) unfolding good_def prod.case
    by (intro exI[of _ "es @ cs"] exI[of _ P]) (simp add: world_is_log finished_def)
  then show ?thesis using d(1) by simp
qed

lemma conn_destroy:
  assumes "conn (L @ es) ctx c s" and "w_io w = W @ es" and "world_is w P"
    and "live ctx'" and "client_fd ctx' = client_fd ctx" and "server_fd ctx' = server_fd ctx"
  shows "safe (destroy_context (ctx', w)) (good W L A)"
  by (rule destroy_good[OF assms(4,2,3)])
    (use traffic_closed[OF connD(8)[OF assms(1)], of "server_fd ctx"] traffic_on_two[OF connD(8)[OF assms(1)]]
      traffic_no_close[OF connD(8)[OF assms(1)]] assms(5,6) in simp_all)

lemma log_io_Nil [simp]: "log_io [] w = w"
  by (cases w) (simp add: log_io_def)

section \<open>Reading\<close>

text \<open>What the buffers may hold after this invocation, and what the steps assume of the memory.\<close>

definition reach :: "env \<Rightarrow> char list \<Rightarrow> char list \<Rightarrow> (char list \<times> char list) set" where
  "reach e c s = {(c, s), (c @ arriving e, s), (c, s @ arriving e)}"

definition data_ok :: "allocator \<Rightarrow> char list \<Rightarrow> char list \<Rightarrow> bool" where
  "data_ok al c s = (grants_upto al (length c + length s + VPAIR_SIZE) \<and> chunk_sizes_ok s)"

lemma data_okD:
  assumes "data_ok al c s"
  shows "n \<le> length c \<Longrightarrow> grants_upto al n" "n \<le> length s \<Longrightarrow> grants_upto al n" "al VPAIR_SIZE" "chunk_sizes_ok s"
  using assms grants_uptoD[of al "length c + length s + VPAIR_SIZE" VPAIR_SIZE]
  by (auto simp: data_ok_def elim!: grants_upto_mono)

text \<open>A read from the client in the first two phases, and from the server in the others.\<close>

lemma conn_read_client:
  assumes c: "conn L ctx c s" and ph: "phase (handling_step ctx) < 2" and b: "holds b (c @ bs)"
  shows "conn (L @ [Read (client_fd ctx) bs]) (ctx\<lparr>cbuff := b\<rparr>) (c @ bs) s"
  using c ph b
  by (auto simp: conn_def buffers_def live_def parsed_def traffic_def Let_def finished_def client_only_def)

lemma conn_read_server:
  assumes c: "conn L ctx c s" and ph: "4 \<le> phase (handling_step ctx)" and b: "holds b (s @ bs)"
  shows "conn (L @ [Read (server_fd ctx) bs]) (ctx\<lparr>sbuff := b\<rparr>) c (s @ bs)"
  using c ph b
  by (auto simp: conn_def buffers_def live_def parsed_def traffic_def Let_def finished_def)

lemma read_client_step:
  assumes c: "conn (L @ es) ctx c s" and w: "w_io w = W @ es" "world_is w P" and al: "al_ok al"
    and ph: "phase (handling_step ctx) < 2"
    and k: "\<And>b w' es'. conn (L @ es') (ctx\<lparr>cbuff := b\<rparr>) (c @ arriving e) s \<Longrightarrow> w_io w' = W @ es' \<Longrightarrow>
        world_is w' P \<Longrightarrow> arriving e \<noteq> [] \<Longrightarrow> safe (K (SUCCESS, length (arriving e), b, w')) (good W L A)"
    and err: "\<And>n b. safe (K (ERROR, n, b, w)) (good W L A)"
  shows "safe (bind_r (read_to_vchar al e (client_fd ctx) (cbuff ctx) w) K) (good W L A)"
proof (rule safe_bind[OF read_to_vchar_safe[OF connD(2)[OF c] al]])
  fix r
  assume post: "read_post e (client_fd ctx) c w r"
  obtain st n b w' where r: "r = (st, n, b, w')" by (cases r)
  show "safe (K r) (good W L A)"
  proof (cases "arriving e = []")
    case True
    then show ?thesis using post err by (simp add: r read_post_def)
  next
    case False
    then have p: "st = SUCCESS" "n = length (arriving e)" "holds b (c @ arriving e)"
        "w' = log_io [Read (client_fd ctx) (arriving e)] w"
      using post r by (simp_all add: read_post_def)
    have "conn (L @ (es @ [Read (client_fd ctx) (arriving e)])) (ctx\<lparr>cbuff := b\<rparr>) (c @ arriving e) s"
      using conn_read_client[OF c ph p(3)] by simp
    from k[OF this _ _ False, of w'] w p show ?thesis by (simp add: r log_io_def world_is_def)
  qed
qed

lemma read_server_step:
  assumes c: "conn (L @ es) ctx c s" and w: "w_io w = W @ es" "world_is w P" and al: "al_ok al"
    and ph: "4 \<le> phase (handling_step ctx)"
    and k: "\<And>b w' es'. conn (L @ es') (ctx\<lparr>sbuff := b\<rparr>) c (s @ arriving e) \<Longrightarrow> w_io w' = W @ es' \<Longrightarrow>
        world_is w' P \<Longrightarrow> arriving e \<noteq> [] \<Longrightarrow> safe (K (SUCCESS, length (arriving e), b, w')) (good W L A)"
    and err: "\<And>n b. safe (K (ERROR, n, b, w)) (good W L A)"
  shows "safe (bind_r (read_to_vchar al e (server_fd ctx) (sbuff ctx) w) K) (good W L A)"
proof (rule safe_bind[OF read_to_vchar_safe[OF connD(3)[OF c] al]])
  fix r
  assume post: "read_post e (server_fd ctx) s w r"
  obtain st n b w' where r: "r = (st, n, b, w')" by (cases r)
  show "safe (K r) (good W L A)"
  proof (cases "arriving e = []")
    case True
    then show ?thesis using post err by (simp add: r read_post_def)
  next
    case False
    then have p: "st = SUCCESS" "n = length (arriving e)" "holds b (s @ arriving e)"
        "w' = log_io [Read (server_fd ctx) (arriving e)] w"
      using post r by (simp_all add: read_post_def)
    have "conn (L @ (es @ [Read (server_fd ctx) (arriving e)])) (ctx\<lparr>sbuff := b\<rparr>) c (s @ arriving e)"
      using conn_read_server[OF c ph p(3)] by simp
    from k[OF this _ _ False, of w'] w p show ?thesis by (simp add: r log_io_def world_is_def)
  qed
qed

section \<open>The request line\<close>

lemmas conn_defs = conn_def buffers_def live_def parsed_def traffic_def Let_def finished_def

lemma phase_simps [simp]:
  "phase PARSING_REQ_TYPE = 0" "phase PARSING_REQ_HEADERS = 1" "phase CONNECT_STEP = 2"
  "phase SENDING_REQ = 3" "phase PARSING_RESP_CODE = 4" "phase PARSING_RESP_HEADERS = 5"
  "phase PARSING_RESP_BODY = 6" "phase SENDING_RESP = 7"
  by (simp_all add: phase_def)

definition req_line_read :: "request_t \<Rightarrow> char list \<Rightarrow> parse_status \<times> nat \<times> request_t \<Rightarrow> bool" where
  "req_line_read rq cur r =
     (case r of (st, n, rq') \<Rightarrow>
       n \<le> length cur \<and>
       (if st = OK then \<exists>t u v. rq' = rq\<lparr>req_type := Str t, uri := Str u, req_version := Str v\<rparr> else rq' = rq))"

lemma parse_req_type_read: "in_memory cur \<Longrightarrow> safe (parse_req_type al cur rq) (req_line_read rq cur)"
  using strstr_bound[of cur CRLF]
  by (auto simp: parse_req_type_eq req_line_read_def split: option.splits)

lemma conn_req_line:
  assumes c: "conn L ctx c s" and st: "handling_step ctx = PARSING_REQ_TYPE" and ne: "c \<noteq> []"
    and n: "cppos ctx + n \<le> length c" and rq: "rq = (request ctx)\<lparr>req_type := Str t, uri := Str u, req_version := Str v\<rparr>"
  shows "conn L (ctx\<lparr>cppos := cppos ctx + n, request := rq, handling_step := PARSING_REQ_HEADERS\<rparr>) c s"
  using c st ne n by (auto simp: conn_defs rq line_parsed_def live_request_def)

lemma c_string_length: "length (c_string bs) \<le> length bs"
  by (rule length_takeWhile_le)

lemma type_body:
  assumes c: "conn (L @ es) ctx c s" and w: "w_io w = W @ es" "world_is w P"
    and st: "handling_step ctx = PARSING_REQ_TYPE" and ne: "c \<noteq> []"
  shows "safe (parsing_req_type_step al e fd events True (ctx, w)) (good W L {(c, s)})"
proof -
  let ?cur = "c_string (drop (cppos ctx) c)"
  note h = connD(2,4)[OF c]
  have str: "cstring_at (ptr (cbuff ctx)) (cppos ctx) = Inr ?cur" by (rule holds_string[OF h(1) ne h(2)])
  have len: "length ?cur \<le> length c - cppos ctx" using c_string_length[of "drop (cppos ctx) c"] by simp
  have mem: "in_memory ?cur" using len holdsD(3)[OF h(1)] by (simp add: in_memory_def)
  have "safe (let ctx' = ctx\<lparr>cppos := cppos ctx + n, request := rq\<rparr> in
      if status = PARSING_ERROR then destroy_context (ctx', w)
      else if status = OK then Inr (ctx'\<lparr>handling_step := PARSING_REQ_HEADERS\<rparr>, w)
      else Inr (ctx', w)) (good W L {(c, s)})"
    if r: "req_line_read (request ctx) ?cur (status, n, rq)" for status n rq
  proof -
    have "n \<le> length ?cur" using r by (simp add: req_line_read_def)
    then have n: "cppos ctx + n \<le> length c" using len h(2) by linarith
    show ?thesis
  proof (cases "status = OK")
    case True
    then obtain t u v where rq: "rq = (request ctx)\<lparr>req_type := Str t, uri := Str u, req_version := Str v\<rparr>"
      using r by (auto simp: req_line_read_def)
    from goodI[OF w conn_req_line[OF c st ne n rq], of "{(c, s)}"] True show ?thesis by (simp add: Let_def)
  next
    case False
    then have rq: "rq = request ctx" using r by (simp add: req_line_read_def)
    have c': "conn (L @ es) (ctx\<lparr>cppos := cppos ctx + n, request := rq\<rparr>) c s"
      using c n st by (auto simp: conn_defs rq)
    have "safe (destroy_context (ctx\<lparr>cppos := cppos ctx + n, request := rq\<rparr>, w)) (good W L {(c, s)})"
      by (rule conn_destroy[OF c w]) (use connD(6)[OF c'] in simp_all)
    then show ?thesis using False goodI[OF w c', of "{(c, s)}"] by (simp add: Let_def)
  qed
  qed
  then have "safe (bind_r (parse_req_type al ?cur (request ctx)) (\<lambda>(status, n, rq).
      let ctx' = ctx\<lparr>cppos := cppos ctx + n, request := rq\<rparr> in
      if status = PARSING_ERROR then destroy_context (ctx', w)
      else if status = OK then Inr (ctx'\<lparr>handling_step := PARSING_REQ_HEADERS\<rparr>, w)
      else Inr (ctx', w))) (good W L {(c, s)})"
    by (intro safe_bind[OF parse_req_type_read[OF mem]]) auto
  then show ?thesis by (simp add: parsing_req_type_step_def str Let_def)
qed

lemma type_step:
  assumes c: "conn (L @ es) ctx c s" and w: "w_io w = W @ es" "world_is w P" and al: "al_ok al"
    and st: "handling_step ctx = PARSING_REQ_TYPE"
  shows "safe (parsing_req_type_step al e fd events False (ctx, w)) (good W L (reach e c s))"
proof -
  have step: "parsing_req_type_step al e fd events False (ctx, w) =
      bind_r (assert_r (handling_step ctx = PARSING_REQ_TYPE \<and> fd = client_fd ctx \<and> has_event events POLLIN)) (\<lambda>_.
      bind_r (read_to_vchar al e (client_fd ctx) (cbuff ctx) w) (\<lambda>(status, _, b, w).
        if status \<noteq> SUCCESS then destroy_context (ctx\<lparr>cbuff := b\<rparr>, w)
        else parsing_req_type_step al e fd events True (ctx\<lparr>cbuff := b\<rparr>, w)))"
    unfolding parsing_req_type_step_def prod.case bind_r_assoc if_False if_True bind_r_simps
    by (auto intro!: bind_r_cong split: prod.split)
  show ?thesis unfolding step
  proof (rule safe_guard, rule read_client_step[OF c w al])
    fix b w' es'
    assume c': "conn (L @ es') (ctx\<lparr>cbuff := b\<rparr>) (c @ arriving e) s" and w': "w_io w' = W @ es'" "world_is w' P"
      and ne: "arriving e \<noteq> []"
    have "safe (parsing_req_type_step al e fd events True (ctx\<lparr>cbuff := b\<rparr>, w')) (good W L {(c @ arriving e, s)})"
      by (rule type_body[OF c' w']) (use st ne in simp_all)
    then show "safe (case (SUCCESS, length (arriving e), b, w') of (status, _, b, w) \<Rightarrow>
        if status \<noteq> SUCCESS then destroy_context (ctx\<lparr>cbuff := b\<rparr>, w)
        else parsing_req_type_step al e fd events True (ctx\<lparr>cbuff := b\<rparr>, w)) (good W L (reach e c s))"
      by (auto simp: reach_def elim!: safe_mono good_mono)
  next
    fix n b
    have "safe (destroy_context (ctx\<lparr>cbuff := b\<rparr>, w)) (good W L (reach e c s))"
      by (rule conn_destroy[OF c w]) (use connD(6)[OF c] in \<open>simp_all add: live_def\<close>)
    then show "safe (case (ERROR, n, b, w) of (status, _, b, w) \<Rightarrow>
        if status \<noteq> SUCCESS then destroy_context (ctx\<lparr>cbuff := b\<rparr>, w)
        else parsing_req_type_step al e fd events True (ctx\<lparr>cbuff := b\<rparr>, w)) (good W L (reach e c s))" by simp
  qed (simp add: st)
qed

section \<open>Connecting\<close>

definition env_ok :: "env \<Rightarrow> handler_context_t \<Rightarrow> bool" where
  "env_ok e ctx = (e_socket e \<noteq> client_fd ctx \<and> resolver_ok (e_resolve e))"

lemma connect_again:
  assumes c: "conn (L @ es) ctx c s" and w: "w_io w = W @ es" "world_is w P"
    and st: "handling_step ctx = CONNECT_STEP"
  shows "safe (connect_step al e fd events (ctx, w)) (good W L {(c, s)})"
proof -
  let ?ctx = "ctx\<lparr>client_events := 0, server_events := POLLOUT, sended := 0, handling_step := SENDING_REQ\<rparr>"
  have ne: "connection_state ctx \<noteq> NOT_CONNECTED" using c st by (simp add: conn_defs)
  then have cs: "connection_state ctx = CONNECTED \<or> connection_state ctx = AWAIT_CONNECTION"
    by (cases "connection_state ctx") simp_all
  have c1: "conn (L @ es) ?ctx c s" "conn (L @ es) (?ctx\<lparr>connection_state := CONNECTED\<rparr>) c s"
    using c st by (simp_all add: conn_defs)
  have "safe (destroy_context (?ctx, w)) (good W L {(c, s)})"
    by (rule conn_destroy[OF c w]) (use connD(6)[OF c1(1)] in simp_all)
  note fin = this goodI[OF w c1(1), of "{(c, s)}"] goodI[OF w c1(2), of "{(c, s)}"]
  show ?thesis unfolding connect_step_def prod.case
  proof (rule safe_guard)
    show "safe (if connection_state ctx = CONNECTED \<or> connection_state ctx = AWAIT_CONNECTION then
        let ctx = ?ctx in
        if connection_state ctx = AWAIT_CONNECTION then
          if \<not> (e_getsockopt e \<ge> 0 \<and> e_so_error e = 0) then destroy_context (ctx, w)
          else Inr (ctx\<lparr>connection_state := CONNECTED\<rparr>, w)
        else Inr (ctx, w) else X) (good W L {(c, s)})" for X
      using cs fin by (auto simp: Let_def)
  qed
qed

text \<open>The first call, from \<open>parsing_req_headers_step\<close>.\<close>

lemma valid_key_request:
  "live_request rq hs \<Longrightarrow> line_parsed rq \<Longrightarrow> map_of hs ''Host'' = Some h \<Longrightarrow> valid_key rq"
  unfolding valid_key_def has_view_def request_is_def live_request_def line_parsed_def host_of_def
  by auto blast

lemma connect_first:
  assumes c: "conn (L @ es) ctx c s" and w: "w_io w = W @ es" "world_is w P"
    and st: "handling_step ctx = PARSING_REQ_HEADERS" and e: "env_ok e ctx"
  shows "safe (connect_step al e fd events (ctx\<lparr>handling_step := CONNECT_STEP\<rparr>, w)) (good W L {(c, s)})"
proof -
  let ?ctx = "ctx\<lparr>handling_step := CONNECT_STEP, server_fd := e_socket e\<rparr>"
  have t: "server_fd ctx = -1" "connection_state ctx = NOT_CONNECTED" "s = []" "client_only (client_fd ctx) (L @ es)"
    using c st by (simp_all add: conn_defs)
  have ne: "e_socket e \<noteq> client_fd ctx" and res: "resolver_ok (e_resolve e)" using e by (simp_all add: env_ok_def)
  define quiet where "quiet = (\<lambda>evs :: io list. \<forall>ev \<in> set evs. ev = Socket (e_socket e) \<or> (\<exists>a. ev = Connect (e_socket e) a))"
  have q: "quiet evs \<Longrightarrow> received f evs = [] \<and> sent f evs = [] \<and> on_two g (e_socket e) evs \<and> no_close evs" for f g evs
    by (induction evs) (auto simp: quiet_def)
  have other: "received (e_socket e) (L @ es) = []" "sent f (L @ es) = []" "on_two (client_fd ctx) g (L @ es)" "no_close (L @ es)" for f g
    using client_only_other[OF t(4) ne] client_only_sent[OF t(4)] client_only_on_two[OF t(4)]
      client_only_no_close[OF t(4)] by simp_all
  have destroy: "safe (destroy_context (?ctx, log_io evs w)) (good W L {(c, s)})" if "quiet evs" for evs
    by (rule destroy_good[of _ _ W "es @ evs" P])
      (use connD(6)[OF c] w q[OF that] other in
        \<open>simp_all add: live_def log_io_def world_is_def\<close>)
  obtain hs where live: "live_request (request ctx) hs" using connD(6)[OF c] by (auto simp: live_def)
  have lp: "line_parsed (request ctx)" "c \<noteq> []" using connD(7)[OF c] st by (simp_all add: parsed_def)
  have step: "connect_step al e fd events (ctx\<lparr>handling_step := CONNECT_STEP\<rparr>, w) =
      (if \<not> e_socket e \<ge> 0 then destroy_context (?ctx, log_io [] w) else
       bind_r (find_header (req_headers (request ctx)) ''Host'') (\<lambda>host_name.
         (case host_name of
            None \<Rightarrow> destroy_context (?ctx, log_io [Socket (e_socket e)] w)
          | Some i \<Rightarrow>
              bind_r (vector_get (req_headers (request ctx)) i) (\<lambda>h.
              bind_r (cstr_val (hdr_value h)) (\<lambda>name.
              bind_r (connect_to_host (e_resolve e) (e_connect e) (e_junk_addr e) (e_socket e)
                        name DEFAULT_PORT) (\<lambda>(rc, evs).
              if rc = 0 then Inr (?ctx\<lparr>connection_state := CONNECTED\<rparr>, log_io evs (log_io [Socket (e_socket e)] w))
              else if e_errno e = EINPROGRESS
              then Inr (?ctx\<lparr>client_events := 0, server_events := POLLOUT, connection_state := AWAIT_CONNECTION\<rparr>,
                        log_io evs (log_io [Socket (e_socket e)] w))
              else destroy_context (?ctx, log_io evs (log_io [Socket (e_socket e)] w))))))))"
    using t(2) by (simp add: connect_step_def Let_def)
  show ?thesis
  proof (cases "e_socket e \<ge> 0")
    case False
    then show ?thesis unfolding step using destroy[of "[]"] by (simp add: quiet_def)
  next
    case True
    show ?thesis
    proof (cases "map_of hs ''Host''")
      case None
      then have "find_header (req_headers (request ctx)) ''Host'' = Inr None"
        using live by (auto simp: live_request_def intro: find_header_None)
      then show ?thesis unfolding step using True destroy[of "[Socket (e_socket e)]"] by (simp add: quiet_def)
    next
      case (Some host)
      have hh: "headers_are (req_headers (request ctx)) hs" using live by (simp add: live_request_def)
      obtain i where i: "find_header (req_headers (request ctx)) ''Host'' = Inr (Some i)"
          "vector_get (req_headers (request ctx)) i = Inr \<lparr>hdr_type = Str ''Host'', hdr_value = Str host\<rparr>"
        using find_header_SomeD[OF hh Some] by blast
      obtain rc evs where cn: "connect_to_host (e_resolve e) (e_connect e) (e_junk_addr e) (e_socket e) host DEFAULT_PORT =
          Inr (rc, evs)" "evs = [] \<or> (\<exists>a. evs = [Connect (e_socket e) a])"
        using connect_to_host_safe[OF res] by blast
      let ?evs = "Socket (e_socket e) # evs"
      have qe: "quiet ?evs" using cn(2) by (auto simp: quiet_def)
      have log: "log_io evs (log_io [Socket (e_socket e)] w) = log_io ?evs w" by (simp add: log_io_def)
      have vk: "valid_key (request ctx)" by (rule valid_key_request[OF live lp(1) Some])
      have new: "conn (L @ (es @ ?evs)) (?ctx\<lparr>connection_state := k\<rparr>) c s"
          "conn (L @ (es @ ?evs)) (?ctx\<lparr>client_events := ce, server_events := se, connection_state := k\<rparr>) c s"
        if "k \<noteq> NOT_CONNECTED" for k ce se
        using c st that vk lp True ne q[OF qe] other t by (simp_all add: conn_defs)
      have w': "w_io (log_io ?evs w) = W @ (es @ ?evs)" "world_is (log_io ?evs w) P"
        using w by (simp_all add: log_io_def world_is_def)
      show ?thesis unfolding step i(1) bind_r_simps option.case i(2) header_t.select_convs cstr_val.simps cn(1) prod.case log
        using True destroy[OF qe] goodI[OF w' new(1)[of CONNECTED], of "{(c, s)}"]
          goodI[OF w' new(2)[where k = AWAIT_CONNECTION and ce = 0 and se = POLLOUT], of "{(c, s)}"] by simp
    qed
  qed
qed

section \<open>The request headers\<close>

lemma header_loop_client:
  assumes c: "conn L ctx c s" and ne: "c \<noteq> []" and al: "al_ok al" and d: "data_ok al c s"
  shows "safe (headers_loop al (ptr (cbuff ctx)) (cppos ctx) (req_headers (request ctx)))
    (\<lambda>(st, p, v). p \<le> length c \<and> (\<exists>hs. headers_are v hs))"
proof -
  let ?cur = "c_string (drop (cppos ctx) c)"
  note h = connD(2,4,6)[OF c]
  obtain hs where hs: "headers_are (req_headers (request ctx)) hs"
    using h(3) by (auto simp: live_def live_request_def)
  have str: "cstring_at (ptr (cbuff ctx)) (cppos ctx) = Inr ?cur" by (rule holds_string[OF h(1) ne h(2)])
  have len: "cppos ctx + length ?cur \<le> length c"
    using c_string_length[of "drop (cppos ctx) c"] h(2) by simp
  have mem: "in_memory ?cur" using len holdsD(3)[OF h(1)] by (simp add: in_memory_def)
  have g: "grants_upto al (length ?cur)" by (rule data_okD(1)[OF d]) (use len in simp)
  show ?thesis
    by (rule safe_mono[OF headers_loop_safe[OF str mem g al hs]])
      (use len header_lines_bound[of ?cur] in \<open>auto simp: loop_post_def split: prod.splits\<close>)
qed

lemma headers_body:
  assumes c: "conn (L @ es) ctx c s" and w: "w_io w = W @ es" "world_is w P"
    and al: "al_ok al" and st: "handling_step ctx = PARSING_REQ_HEADERS"
    and d: "data_ok al c s" and e: "env_ok e ctx"
  shows "safe (parsing_req_headers_step al e fd events True (ctx, w)) (good W L {(c, s)})"
proof -
  have ne: "c \<noteq> []" and lp: "line_parsed (request ctx)"
    using connD(7)[OF c] st by (simp_all add: parsed_def)
  obtain t where t: "req_type (request ctx) = Str t" using lp by (auto simp: line_parsed_def)
  show ?thesis unfolding parsing_req_headers_step_def prod.case if_True bind_r_simps
  proof (rule safe_guard, simp only: simp_thms if_False,
      rule safe_bind[OF header_loop_client[OF c ne al d]])
    fix r :: "parse_status \<times> nat \<times> header_t vec"
    assume post: "case r of (st, p, v) \<Rightarrow> p \<le> length c \<and> (\<exists>hs. headers_are v hs)"
    obtain status p v where r: "r = (status, p, v)" by (cases r)
    obtain hs where p: "p \<le> length c" "headers_are v hs" using post r by auto
    let ?ctx = "ctx\<lparr>cppos := p, request := (request ctx)\<lparr>req_headers := v\<rparr>\<rparr>"
    have lr: "live_request ((request ctx)\<lparr>req_headers := v\<rparr>) hs"
      using connD(6)[OF c] p(2) by (auto simp: live_def live_request_def)
    have lp': "line_parsed ((request ctx)\<lparr>req_headers := v\<rparr>)" using lp by (simp add: line_parsed_def)
    have c': "conn (L @ es) ?ctx c s"
      using c p(1) lr lp' st by (auto simp: conn_defs)
    have destroy: "safe (destroy_context (?ctx, w)) (good W L {(c, s)})"
      by (rule conn_destroy[OF c w]) (use connD(6)[OF c'] in simp_all)
    have connect: "safe (connect_step al e (-1) 0 (?ctx\<lparr>handling_step := CONNECT_STEP\<rparr>, w)) (good W L {(c, s)})"
      by (rule connect_first[OF c' w]) (use st e in \<open>simp_all add: env_ok_def\<close>)
    show "safe (case r of (status, pos, hs) \<Rightarrow>
        let ctx = ctx\<lparr>cppos := pos, request := (request ctx)\<lparr>req_headers := hs\<rparr>\<rparr> in
        if status = PARSING_ERROR then destroy_context (ctx, w)
        else if status = NO_END_OF_LINE then Inr (ctx, w)
        else bind_r (cstr_val (req_type (request ctx))) (\<lambda>t.
          if \<not> strcmp t ''GET'' = 0 then destroy_context (ctx, w)
          else connect_step al e (- 1) 0 (ctx\<lparr>handling_step := CONNECT_STEP\<rparr>, w)))
        (good W L {(c, s)})"
      using destroy connect goodI[OF w c', of "{(c, s)}"] by (simp add: r Let_def t)
  qed
qed

lemma headers_step:
  assumes c: "conn (L @ es) ctx c s" and w: "w_io w = W @ es" "world_is w P" and al: "al_ok al"
    and st: "handling_step ctx = PARSING_REQ_HEADERS" and e: "env_ok e ctx"
    and d: "data_ok al (c @ arriving e) s"
  shows "safe (parsing_req_headers_step al e fd events False (ctx, w)) (good W L (reach e c s))"
proof -
  let ?guard = "handling_step ctx = PARSING_REQ_HEADERS \<and> fd = client_fd ctx \<and> has_event events POLLIN"
  have step: "parsing_req_headers_step al e fd events False (ctx, w) =
      bind_r (assert_r ?guard) (\<lambda>_.
      bind_r (read_to_vchar al e (client_fd ctx) (cbuff ctx) w) (\<lambda>(status, _, b, w).
        if status \<noteq> SUCCESS then destroy_context (ctx\<lparr>cbuff := b\<rparr>, w)
        else parsing_req_headers_step al e fd events True (ctx\<lparr>cbuff := b\<rparr>, w)))"
    unfolding parsing_req_headers_step_def prod.case bind_r_assoc if_False if_True bind_r_simps
    by (auto intro!: bind_r_cong split: prod.split)
  show ?thesis unfolding step
  proof (rule safe_guard, rule read_client_step[OF c w al])
    fix b w' es'
    assume c': "conn (L @ es') (ctx\<lparr>cbuff := b\<rparr>) (c @ arriving e) s" and w': "w_io w' = W @ es'" "world_is w' P"
      and ne: "arriving e \<noteq> []"
    have "safe (parsing_req_headers_step al e fd events True (ctx\<lparr>cbuff := b\<rparr>, w')) (good W L {(c @ arriving e, s)})"
      by (rule headers_body[OF c' w' al _ d]) (use st e in \<open>simp_all add: env_ok_def\<close>)
    then show "safe (case (SUCCESS, length (arriving e), b, w') of (status, _, b, w) \<Rightarrow>
        if status \<noteq> SUCCESS then destroy_context (ctx\<lparr>cbuff := b\<rparr>, w)
        else parsing_req_headers_step al e fd events True (ctx\<lparr>cbuff := b\<rparr>, w)) (good W L (reach e c s))"
      by (auto simp: reach_def elim!: safe_mono good_mono)
  next
    fix n b
    have "safe (destroy_context (ctx\<lparr>cbuff := b\<rparr>, w)) (good W L (reach e c s))"
      by (rule conn_destroy[OF c w]) (use connD(6)[OF c] in \<open>simp_all add: live_def\<close>)
    then show "safe (case (ERROR, n, b, w) of (status, _, b, w) \<Rightarrow>
        if status \<noteq> SUCCESS then destroy_context (ctx\<lparr>cbuff := b\<rparr>, w)
        else parsing_req_headers_step al e fd events True (ctx\<lparr>cbuff := b\<rparr>, w)) (good W L (reach e c s))" by simp
  qed (simp add: st)
qed

section \<open>Sending the request\<close>

lemma sys_write_bound: "sys_write e bytes > 0 \<Longrightarrow> nat (sys_write e bytes) \<le> length bytes"
  by (auto simp: sys_write_def min_def split: if_splits)

lemma sending_step:
  assumes c: "conn (L @ es) ctx c s" and w: "w_io w = W @ es" "world_is w P"
    and st: "handling_step ctx = SENDING_REQ"
  shows "safe (sending_req_step e fd events (ctx, w)) (good W L {(c, s)})"
proof -
  note h = holdsD[OF connD(2)[OF c]]
  have lt: "sended ctx < length c" using connD(7)[OF c] st by (simp add: parsed_def)
  have n: "cnt (cbuff ctx) = length c" "sz_sub (length c) (sended ctx) = length c - sended ctx"
    using h lt by simp_all
  let ?bytes = "drop (sended ctx) c"
  have rd: "read_bytes (ptr (cbuff ctx)) (sended ctx) (length c - sended ctx) = Inr ?bytes"
    using read_bytes_represents[OF h(1), of "sended ctx" "length c - sended ctx"] lt by simp
  let ?k = "nat (sys_write e ?bytes)"
  have destroy: "safe (destroy_context (ctx, w)) (good W L {(c, s)})"
    by (rule conn_destroy[OF c w connD(6)[OF c]]) simp_all
  consider (pipe) "raises_sigpipe e" | (fail) "\<not> raises_sigpipe e" "\<not> sys_write e ?bytes > 0"
    | (ok) "\<not> raises_sigpipe e" "sys_write e ?bytes > 0" by blast
  then show ?thesis
  proof cases
    case pipe
    then show ?thesis unfolding sending_req_step_def prod.case by (intro safe_guard) (simp add: n rd)
  next
    case fail
    then show ?thesis unfolding sending_req_step_def prod.case
      by (intro safe_guard) (simp add: n rd Let_def destroy)
  next
    case ok
    note True = ok(2)
    then have k: "0 < ?k" "sended ctx + ?k \<le> length c"
      using sys_write_bound[OF True] lt by simp_all
    have add: "sz_add (sended ctx) ?k = sended ctx + ?k" using k h(4) by simp
    let ?ev = "Write (server_fd ctx) (take ?k ?bytes)"
    have tk: "take (sended ctx) c @ take ?k ?bytes = take (sended ctx + ?k) c" by (simp add: take_add)
    have srv: "sent (server_fd ctx) (L @ es) = take (sended ctx) c" "server_fd ctx \<noteq> client_fd ctx"
      using connD(8)[OF c] st by (simp_all add: traffic_def)
    have srv': "sent (server_fd ctx) (L @ es @ [?ev]) = take (sended ctx + ?k) c"
    proof -
      have "sent (server_fd ctx) (L @ es @ [?ev]) = sent (server_fd ctx) (L @ es) @ take ?k ?bytes" by simp
      then show ?thesis by (simp only: srv(1) tk)
    qed
    have w': "w_io (log_io [?ev] w) = W @ (es @ [?ev])" "world_is (log_io [?ev] w) P"
      using w by (simp_all add: log_io_def world_is_def)
    show ?thesis
    proof (cases "sended ctx + ?k = length c")
      case fin: True
      have "conn (L @ (es @ [?ev])) (ctx\<lparr>sended := sended ctx + ?k, client_events := 0, server_events := POLLIN,
          handling_step := PARSING_RESP_CODE\<rparr>) c s"
        using c st srv' srv(2) fin by (simp add: conn_defs)
      from goodI[OF w' this, of "{(c, s)}"] show ?thesis unfolding sending_req_step_def prod.case
        by (intro safe_guard) (use ok fin in \<open>simp add: n rd Let_def add\<close>)
    next
      case False
      have "conn (L @ (es @ [?ev])) (ctx\<lparr>sended := sended ctx + ?k\<rparr>) c s"
        using c st srv' srv(2) False k by (simp add: conn_defs)
      from goodI[OF w' this, of "{(c, s)}"] show ?thesis unfolding sending_req_step_def prod.case
        by (intro safe_guard) (use ok False in \<open>simp add: n rd Let_def add\<close>)
    qed
  qed
qed

end
