(* ===== verification/Handler_Run.thy ===== *)
theory Handler_Run
  imports Handler_Invariant
begin

text \<open>
  The response half of the handler keeps the invariant, and so does \<open>handle\<close>: it never runs into
  undefined behaviour or an endless loop, except where a failed write with nothing sent yet makes
  \<open>send_resp_step\<close> destroy the context twice.
\<close>

section \<open>The status line\<close>

definition status_line_read :: "response_t \<Rightarrow> char list \<Rightarrow> parse_status \<times> nat \<times> response_t \<Rightarrow> bool" where
  "status_line_read rs cur r =
     (case r of (st, n, rs') \<Rightarrow>
       n \<le> length cur \<and> (if st = OK then \<exists>v d. rs' = rs\<lparr>resp_version := Str v, code := Str d\<rparr> else rs' = rs))"

lemma parse_response_code_read:
  "in_memory cur \<Longrightarrow> grants_upto al (length cur) \<Longrightarrow> safe (parse_response_code al cur rs) (status_line_read rs cur)"
  using strstr_bound[of cur CRLF] grants_uptoD[of al "length cur"]
  by (auto simp: parse_response_code_eq status_line_read_def split: option.splits)

lemma live_read: "live ctx \<Longrightarrow> live (ctx\<lparr>sbuff := b\<rparr>)" "live ctx \<Longrightarrow> live (ctx\<lparr>cbuff := b\<rparr>)"
  by (simp_all add: live_def)

lemma code_step:
  assumes c: "conn (L @ es) ctx c s" and w: "w_io w = W @ es" "world_is w P" and al: "al_ok al"
    and st: "handling_step ctx = PARSING_RESP_CODE" and d: "data_ok al c (s @ arriving e)"
  shows "safe (parsing_resp_code_step al e fd events (ctx, w)) (good W L (reach e c s))"
  unfolding parsing_resp_code_step_def prod.case
proof (rule safe_guard, rule read_server_step[OF c w al])
  show "4 \<le> phase (handling_step ctx)" using st by simp
next
  fix n b
  have "safe (destroy_context (ctx\<lparr>sbuff := b\<rparr>, w)) (good W L (reach e c s))"
    by (rule conn_destroy[OF c w live_read(1)[OF connD(6)[OF c]]]) simp_all
  then show "safe (case (ERROR, n, b, w) of (st, _, b, w) \<Rightarrow>
      let ctx = ctx\<lparr>sbuff := b\<rparr> in
      if st \<noteq> SUCCESS then destroy_context (ctx, w)
      else bind_r (cstring_at (ptr (sbuff ctx)) (sppos ctx)) (\<lambda>cur.
           bind_r (parse_response_code al cur (response ctx)) (\<lambda>(status, n, rs).
             let ctx = ctx\<lparr>sppos := sppos ctx + n, response := rs\<rparr> in
             if status = PARSING_ERROR then destroy_context (ctx, w)
             else if status = OK then Inr (ctx\<lparr>handling_step := PARSING_RESP_HEADERS\<rparr>, w) else Inr (ctx, w))))
      (good W L (reach e c s))" by simp
next
  fix b w' es'
  let ?s = "s @ arriving e" and ?ctx = "ctx\<lparr>sbuff := b\<rparr>"
  assume c': "conn (L @ es') ?ctx c ?s" and w': "w_io w' = W @ es'" "world_is w' P" and ne: "arriving e \<noteq> []"
  let ?cur = "c_string (drop (sppos ctx) ?s)"
  have h: "holds b ?s" "sppos ctx \<le> length ?s" using connD(3,5)[OF c'] by simp_all
  have str: "cstring_at (ptr b) (sppos ctx) = Inr ?cur" by (rule holds_string[OF h(1) _ h(2)]) (use ne in simp)
  have len: "sppos ctx + length ?cur \<le> length ?s" using c_string_length[of "drop (sppos ctx) ?s"] h(2) by simp
  have mem: "in_memory ?cur" using len holdsD(3)[OF h(1)] by (simp add: in_memory_def)
  have g: "grants_upto al (length ?cur)" by (rule data_okD(2)[OF d]) (use len in simp)
  have A: "(c, ?s) \<in> reach e c s" by (simp add: reach_def)
  have "safe (let ctx = ?ctx\<lparr>sppos := sppos ctx + n, response := rs\<rparr> in
             if status = PARSING_ERROR then destroy_context (ctx, w')
             else if status = OK then Inr (ctx\<lparr>handling_step := PARSING_RESP_HEADERS\<rparr>, w') else Inr (ctx, w'))
      (good W L (reach e c s))"
    if r: "status_line_read (response ctx) ?cur (status, n, rs)" for status n rs
  proof -
    let ?new = "?ctx\<lparr>sppos := sppos ctx + n, response := rs\<rparr>"
    have "n \<le> length ?cur" using r by (simp add: status_line_read_def)
    then have n: "sppos ctx + n \<le> length ?s" using len by linarith
    have rs: "\<exists>hs. live_response rs hs"
      using connD(6)[OF c'] r by (auto simp: live_def live_response_def status_line_read_def split: if_splits)
    have c1: "conn (L @ es') ?new c ?s" "conn (L @ es') (?new\<lparr>handling_step := PARSING_RESP_HEADERS\<rparr>) c ?s"
      using c' n rs st ne by (simp_all add: conn_defs)
    have "safe (destroy_context (?new, w')) (good W L (reach e c s))"
      by (rule conn_destroy[OF c' w' connD(6)[OF c1(1)]]) simp_all
    then show ?thesis using goodI[OF w' c1(1) A] goodI[OF w' c1(2) A] by (simp add: Let_def)
  qed
  then have "safe (bind_r (parse_response_code al ?cur (response ctx)) (\<lambda>(status, n, rs).
             let ctx = ?ctx\<lparr>sppos := sppos ctx + n, response := rs\<rparr> in
             if status = PARSING_ERROR then destroy_context (ctx, w')
             else if status = OK then Inr (ctx\<lparr>handling_step := PARSING_RESP_HEADERS\<rparr>, w') else Inr (ctx, w')))
      (good W L (reach e c s))"
    by (intro safe_bind[OF parse_response_code_read[OF mem g]]) auto
  then show "safe (case (SUCCESS, length (arriving e), b, w') of (st, _, b, w) \<Rightarrow>
      let ctx = ctx\<lparr>sbuff := b\<rparr> in
      if st \<noteq> SUCCESS then destroy_context (ctx, w)
      else bind_r (cstring_at (ptr (sbuff ctx)) (sppos ctx)) (\<lambda>cur.
           bind_r (parse_response_code al cur (response ctx)) (\<lambda>(status, n, rs).
             let ctx = ctx\<lparr>sppos := sppos ctx + n, response := rs\<rparr> in
             if status = PARSING_ERROR then destroy_context (ctx, w)
             else if status = OK then Inr (ctx\<lparr>handling_step := PARSING_RESP_HEADERS\<rparr>, w) else Inr (ctx, w))))
      (good W L (reach e c s))"
    by (simp add: Let_def str)
qed

section \<open>The response headers\<close>

lemma header_loop_server:
  assumes c: "conn L ctx c s" and ne: "s \<noteq> []" and al: "al_ok al" and d: "data_ok al c s"
  shows "safe (headers_loop al (ptr (sbuff ctx)) (sppos ctx) (resp_headers (response ctx)))
    (\<lambda>(st, p, v). p \<le> length s \<and> (\<exists>hs. headers_are v hs))"
proof -
  let ?cur = "c_string (drop (sppos ctx) s)"
  note h = connD(3,5,6)[OF c]
  obtain hs where hs: "headers_are (resp_headers (response ctx)) hs"
    using h(3) by (auto simp: live_def live_response_def)
  have str: "cstring_at (ptr (sbuff ctx)) (sppos ctx) = Inr ?cur" by (rule holds_string[OF h(1) ne h(2)])
  have len: "sppos ctx + length ?cur \<le> length s"
    using c_string_length[of "drop (sppos ctx) s"] h(2) by simp
  have mem: "in_memory ?cur" using len holdsD(3)[OF h(1)] by (simp add: in_memory_def)
  have g: "grants_upto al (length ?cur)" by (rule data_okD(2)[OF d]) (use len in simp)
  show ?thesis
    by (rule safe_mono[OF headers_loop_safe[OF str mem g al hs]])
      (use len header_lines_bound[of ?cur] in \<open>auto simp: loop_post_def split: prod.splits\<close>)
qed

text \<open>The value of a header, read as the code reads it.\<close>

lemma length_header:
  assumes "headers_are v hs"
  obtains (absent) "find_header v name = Inr None"
    | (found) i h val where "find_header v name = Inr (Some i)" "vector_get v i = Inr h" "hdr_value h = Str val"
proof (cases "map_of hs name")
  case None
  then show ?thesis using absent find_header_None[OF assms] by simp
next
  case (Some val)
  then show ?thesis using found find_header_SomeD[OF assms Some] by (metis header_t.select_convs(2))
qed

lemma resp_headers_body:
  assumes c: "conn (L @ es) ctx c s" and w: "w_io w = W @ es" "world_is w P"
    and al: "al_ok al" and st: "handling_step ctx = PARSING_RESP_HEADERS" and d: "data_ok al c s"
  shows "safe (parsing_resp_headers_step al e fd events True (ctx, w)) (good W L {(c, s)})"
proof -
  have ne: "s \<noteq> []" using connD(7)[OF c] st by (simp add: parsed_def)
  show ?thesis unfolding parsing_resp_headers_step_def prod.case if_True bind_r_simps
  proof (rule safe_guard, simp only: simp_thms if_False, rule safe_bind[OF header_loop_server[OF c ne al d]])
    fix r :: "parse_status \<times> nat \<times> header_t vec"
    assume post: "case r of (st, p, v) \<Rightarrow> p \<le> length s \<and> (\<exists>hs. headers_are v hs)"
    obtain status p v where r: "r = (status, p, v)" by (cases r)
    obtain hs where p: "p \<le> length s" "headers_are v hs" using post r by auto
    let ?ctx = "ctx\<lparr>sppos := p, response := (response ctx)\<lparr>resp_headers := v\<rparr>\<rparr>"
    have lr: "\<exists>hs. live_response ((response ctx)\<lparr>resp_headers := v\<rparr>) hs"
      "\<exists>hs. live_response ((response ctx)\<lparr>resp_headers := v, content_length := n\<rparr>) hs" for n
      using connD(6)[OF c] p(2) by (auto simp: live_def live_response_def)
    have c': "conn (L @ es) ?ctx c s"
      using c p(1) lr(1) st ne by (auto simp: conn_defs)
    have destroy: "safe (destroy_context (?ctx, w)) (good W L {(c, s)})"
      by (rule conn_destroy[OF c' w connD(6)[OF c']]) simp_all
    have sub: "sz_sub (cnt (sbuff ctx)) p = length s - p" using holdsD(2,4)[OF connD(3)[OF c]] p(1) by simp
    have fin: "conn (L @ es) (?ctx\<lparr>response := (response ?ctx)\<lparr>content_length := len\<rparr>,
        read_cnt := length s - p, chunk_size := -1, chunk_read := 0,
        client_events := POLLOUT, sended := 0, handling_step := PARSING_RESP_BODY\<rparr>) c s" for len
      using c p(1) st ne lr(2)[of len] by (simp add: conn_defs)
    note res = goodI[OF w c', of "{(c, s)}"] goodI[OF w fin, of "{(c, s)}"]
    show "safe (case r of (status, pos, hs) \<Rightarrow>
        let ctx = ctx\<lparr>sppos := pos, response := (response ctx)\<lparr>resp_headers := hs\<rparr>\<rparr> in
        if status = PARSING_ERROR then destroy_context (ctx, w)
        else if status = NO_END_OF_LINE then Inr (ctx, w)
        else bind_r (find_header hs ''Content-Length'') (\<lambda>cl_header.
         bind_r (find_header hs ''Transfer-Encoding'') (\<lambda>ch_header.
         if \<not> (ch_header \<noteq> None \<or> cl_header \<noteq> None) then destroy_context (ctx, w) else
         bind_r (case cl_header of
                   None \<Rightarrow> Inr (-1)
                 | Some i \<Rightarrow> bind_r (vector_get hs i) (\<lambda>h.
                             bind_r (cstr_val (hdr_value h)) (\<lambda>v. Inr (strtol v 10)))) (\<lambda>len.
         Inr (ctx\<lparr>response := (response ctx)\<lparr>content_length := len\<rparr>,
                read_cnt := sz_sub (cnt (sbuff ctx)) (sppos ctx), chunk_size := -1, chunk_read := 0,
                client_events := POLLOUT, sended := 0, handling_step := PARSING_RESP_BODY\<rparr>, w)))))
        (good W L {(c, s)})"
      by (rule length_header[OF p(2), of "''Content-Length''"]; rule length_header[OF p(2), of "''Transfer-Encoding''"])
        (use destroy res in \<open>simp_all add: r Let_def sub\<close>)
  qed
qed

lemma resp_headers_step:
  assumes c: "conn (L @ es) ctx c s" and w: "w_io w = W @ es" "world_is w P" and al: "al_ok al"
    and st: "handling_step ctx = PARSING_RESP_HEADERS" and d: "data_ok al c (s @ arriving e)"
  shows "safe (parsing_resp_headers_step al e fd events False (ctx, w)) (good W L (reach e c s))"
proof -
  let ?guard = "handling_step ctx = PARSING_RESP_HEADERS \<and> fd = server_fd ctx \<and> has_event events POLLIN"
  have step: "parsing_resp_headers_step al e fd events False (ctx, w) =
      bind_r (assert_r ?guard) (\<lambda>_.
      bind_r (read_to_vchar al e (server_fd ctx) (sbuff ctx) w) (\<lambda>(status, _, b, w).
        if status \<noteq> SUCCESS then destroy_context (ctx\<lparr>sbuff := b\<rparr>, w)
        else parsing_resp_headers_step al e fd events True (ctx\<lparr>sbuff := b\<rparr>, w)))"
    unfolding parsing_resp_headers_step_def prod.case bind_r_assoc if_False if_True bind_r_simps
    by (auto intro!: bind_r_cong split: prod.split)
  show ?thesis unfolding step
  proof (rule safe_guard, rule read_server_step[OF c w al])
    fix b w' es'
    assume c': "conn (L @ es') (ctx\<lparr>sbuff := b\<rparr>) c (s @ arriving e)" and w': "w_io w' = W @ es'" "world_is w' P"
    have "safe (parsing_resp_headers_step al e fd events True (ctx\<lparr>sbuff := b\<rparr>, w')) (good W L {(c, s @ arriving e)})"
      by (rule resp_headers_body[OF c' w' al _ d]) (use st in simp)
    then show "safe (case (SUCCESS, length (arriving e), b, w') of (status, _, b, w) \<Rightarrow>
        if status \<noteq> SUCCESS then destroy_context (ctx\<lparr>sbuff := b\<rparr>, w)
        else parsing_resp_headers_step al e fd events True (ctx\<lparr>sbuff := b\<rparr>, w)) (good W L (reach e c s))"
      by (auto simp: reach_def elim!: safe_mono good_mono)
  next
    fix n b
    have "safe (destroy_context (ctx\<lparr>sbuff := b\<rparr>, w)) (good W L (reach e c s))"
      by (rule conn_destroy[OF c w live_read(1)[OF connD(6)[OF c]]]) simp_all
    then show "safe (case (ERROR, n, b, w) of (status, _, b, w) \<Rightarrow>
        if status \<noteq> SUCCESS then destroy_context (ctx\<lparr>sbuff := b\<rparr>, w)
        else parsing_resp_headers_step al e fd events True (ctx\<lparr>sbuff := b\<rparr>, w)) (good W L (reach e c s))" by simp
  qed (simp add: st)
qed

section \<open>The response body\<close>

lemma cache_good:
  assumes c: "conn (L @ es) ctx c s" and w: "w_io w = W @ es" "world_is w P" and al: "al_ok al"
    and ph: "2 \<le> phase (handling_step ctx)" and d: "data_ok al c s"
  shows "safe (cache al (ctx, w)) (good W L {(c, s)})"
proof -
  obtain hs where live: "live_request (request ctx) hs" using connD(6)[OF c] by (auto simp: live_def)
  have "valid_key (request ctx)" using connD(7)[OF c] ph by (simp add: parsed_def Let_def)
  then obtain k hs' where k: "request_is (request ctx) k hs'" unfolding valid_key_def has_view_def by blast
  have "hs = hs'" using live k
    by (auto simp: live_request_def request_is_def intro: headers_are_unique split: prod.splits)
  then have "request_is (request ctx) k hs" using k by simp
  from cache_safe[OF w(2) al data_okD(3)[OF d] live this holdsD(1)[OF connD(3)[OF c]]]
  show ?thesis
  proof (rule safe_mono)
    fix st'
    assume post: "cache_post (request ctx) s (ctx, w) P st'"
    obtain ctx' w' where st': "st' = (ctx', w')" by (cases st')
    obtain P' where P': "world_is w' P'" "ctx' = ctx" "w_io w' = w_io w"
      using post st' by (auto simp: cache_post_def)
    show "good W L {(c, s)} st'" unfolding st' P'(2)
      by (rule goodI[of _ _ es, OF _ P'(1) c]) (use P'(3) w in simp_all)
  qed
qed

lemma body_body:
  assumes c: "conn (L @ es) ctx c s" and w: "w_io w = W @ es" "world_is w P" and al: "al_ok al"
    and st: "handling_step ctx = PARSING_RESP_BODY" and d: "data_ok al c s"
  shows "safe (parsing_resp_body al e fd events True (ctx, w)) (good W L {(c, s)})"
proof -
  have ps: "s \<noteq> []" "sended ctx \<le> length s" "read_cnt ctx \<le> length s"
    using connD(7)[OF c] st by (simp_all add: parsed_def)
  note h = connD(3,5)[OF c]
  note hD = holdsD[OF h(1)]
  have len_case: "safe (cache al (ctx\<lparr>client_events := POLLOUT, server_events := 0, sppos := cnt (sbuff ctx),
      handling_step := SENDING_RESP\<rparr>, w)) (good W L {(c, s)})"
    by (rule cache_good[OF _ w al _ d]) (use c st hD(2) in \<open>auto simp: conn_defs\<close>)
  have same: "good W L {(c, s)} (ctx, w)" by (rule goodI[OF w c]) simp
  have chunk_case: "safe (bind_r (chunk_loop (blk_len (ptr (sbuff ctx)) + 2) (ptr (sbuff ctx)) (cnt (sbuff ctx))
                   (sppos ctx) (chunk_size ctx) (chunk_read ctx)) (\<lambda>(complete, pos, csz, rd).
         let ctx = ctx\<lparr>sppos := pos, chunk_size := csz, chunk_read := rd\<rparr> in
         if complete then
           bind_r (assert_r (al (sz_add (read_cnt ctx) 1))) (\<lambda>_.
           bind_r (read_bytes (ptr (sbuff ctx)) (sz_sub (cnt (sbuff ctx)) (read_cnt ctx)) (read_cnt ctx)) (\<lambda>body.
           cache al (ctx\<lparr>client_events := POLLOUT, server_events := 0,
               response := (response ctx)\<lparr>content_length := int (read_cnt ctx), resp_body := Str body\<rparr>,
               handling_step := SENDING_RESP\<rparr>, w)))
         else Inr (ctx, w))) (good W L {(c, s)})"
  proof (rule safe_bind[OF chunk_loop_enough[OF h(1) ps(1) data_okD(4)[OF d] h(2)]])
    fix r :: "bool \<times> nat \<times> int \<times> nat"
    assume post: "fst (snd r) \<le> length s"
    obtain complete pos csz rd where r: "r = (complete, pos, csz, rd)" by (cases r)
    have pos: "pos \<le> length s" using post r by simp
    let ?ctx = "ctx\<lparr>sppos := pos, chunk_size := csz, chunk_read := rd\<rparr>"
    have c1: "conn (L @ es) ?ctx c s" using c st pos by (simp add: conn_defs)
    let ?last = "\<lambda>body. ?ctx\<lparr>client_events := POLLOUT, server_events := 0,
        response := (response ctx)\<lparr>content_length := int (read_cnt ctx), resp_body := Str body\<rparr>,
        handling_step := SENDING_RESP\<rparr>"
    have c2: "conn (L @ es) (?last body) c s" for body
    proof -
      have "\<exists>hs. live_response ((response ctx)\<lparr>content_length := int (read_cnt ctx), resp_body := Str body\<rparr>) hs"
        using connD(6)[OF c] by (auto simp: live_def live_response_def)
      then show ?thesis using c st pos by (simp add: conn_defs)
    qed
    have fin: "safe (cache al (?last body, w)) (good W L {(c, s)})" for body
      by (rule cache_good[OF c2 w al _ d]) simp
    have rd_body: "\<exists>body. read_bytes (ptr (sbuff ctx)) (sz_sub (cnt (sbuff ctx)) (read_cnt ctx)) (read_cnt ctx) = Inr body"
      using read_bytes_represents[OF hD(1), of "length s - read_cnt ctx" "read_cnt ctx"] ps(3) hD(2,4) by simp
    show "safe (case r of (complete, pos, csz, rd) \<Rightarrow>
         let ctx = ctx\<lparr>sppos := pos, chunk_size := csz, chunk_read := rd\<rparr> in
         if complete then
           bind_r (assert_r (al (sz_add (read_cnt ctx) 1))) (\<lambda>_.
           bind_r (read_bytes (ptr (sbuff ctx)) (sz_sub (cnt (sbuff ctx)) (read_cnt ctx)) (read_cnt ctx)) (\<lambda>body.
           cache al (ctx\<lparr>client_events := POLLOUT, server_events := 0,
               response := (response ctx)\<lparr>content_length := int (read_cnt ctx), resp_body := Str body\<rparr>,
               handling_step := SENDING_RESP\<rparr>, w)))
         else Inr (ctx, w)) (good W L {(c, s)})"
      using rd_body fin goodI[OF w c1, of "{(c, s)}"] by (auto simp: r Let_def intro!: safe_guard)
  qed
  show ?thesis unfolding parsing_resp_body_def prod.case if_True bind_r_simps
    by (rule safe_guard) (use len_case same chunk_case in \<open>simp add: Let_def\<close>)
qed

lemma body_step:
  assumes c: "conn (L @ es) ctx c s" and w: "w_io w = W @ es" "world_is w P" and al: "al_ok al"
    and st: "handling_step ctx = PARSING_RESP_BODY" and d: "data_ok al c (s @ arriving e)"
  shows "safe (parsing_resp_body al e fd events False (ctx, w)) (good W L (reach e c s))"
proof -
  let ?guard = "handling_step ctx = PARSING_RESP_BODY \<and> fd = server_fd ctx \<and> has_event events POLLIN"
  have step: "parsing_resp_body al e fd events False (ctx, w) =
      bind_r (assert_r ?guard) (\<lambda>_.
      bind_r (read_to_vchar al e (server_fd ctx) (sbuff ctx) w) (\<lambda>(status, k, b, w).
        if status \<noteq> SUCCESS then destroy_context (ctx\<lparr>sbuff := b\<rparr>, w)
        else parsing_resp_body al e fd events True (ctx\<lparr>sbuff := b, read_cnt := sz_add (read_cnt ctx) k\<rparr>, w)))"
    unfolding parsing_resp_body_def prod.case bind_r_assoc if_False if_True bind_r_simps
    by (auto intro!: bind_r_cong split: prod.split)
  have rc: "read_cnt ctx \<le> length s" using connD(7)[OF c] st by (simp add: parsed_def)
  have add: "sz_add (read_cnt ctx) (length (arriving e)) = read_cnt ctx + length (arriving e)"
    using rc holdsD(4)[OF connD(3)[OF c]] arriving_length[of e] by simp
  show ?thesis unfolding step
  proof (rule safe_guard, rule read_server_step[OF c w al])
    fix b w' es'
    assume c': "conn (L @ es') (ctx\<lparr>sbuff := b\<rparr>) c (s @ arriving e)" and w': "w_io w' = W @ es'" "world_is w' P"
    let ?ctx = "ctx\<lparr>sbuff := b, read_cnt := sz_add (read_cnt ctx) (length (arriving e))\<rparr>"
    have "conn (L @ es') ?ctx c (s @ arriving e)" using c' st rc by (simp add: conn_defs add)
    then have "safe (parsing_resp_body al e fd events True (?ctx, w')) (good W L {(c, s @ arriving e)})"
      by (rule body_body[OF _ w' al _ d]) (use st in simp)
    then show "safe (case (SUCCESS, length (arriving e), b, w') of (status, k, b, w) \<Rightarrow>
        if status \<noteq> SUCCESS then destroy_context (ctx\<lparr>sbuff := b\<rparr>, w)
        else parsing_resp_body al e fd events True (ctx\<lparr>sbuff := b, read_cnt := sz_add (read_cnt ctx) k\<rparr>, w))
        (good W L (reach e c s))"
      by (auto simp: reach_def elim!: safe_mono good_mono)
  next
    fix n b
    have "safe (destroy_context (ctx\<lparr>sbuff := b\<rparr>, w)) (good W L (reach e c s))"
      by (rule conn_destroy[OF c w live_read(1)[OF connD(6)[OF c]]]) simp_all
    then show "safe (case (ERROR, n, b, w) of (status, k, b, w) \<Rightarrow>
        if status \<noteq> SUCCESS then destroy_context (ctx\<lparr>sbuff := b\<rparr>, w)
        else parsing_resp_body al e fd events True (ctx\<lparr>sbuff := b, read_cnt := sz_add (read_cnt ctx) k\<rparr>, w))
        (good W L (reach e c s))" by simp
  qed (simp add: st)
qed

section \<open>Sending the response\<close>

text \<open>
  The two ways \<open>send_resp_in_receiving\<close> returns: the connection goes on in the same step, or a
  failed write destroyed the context and left \<open>sended\<close> alone.
\<close>

definition sent_post :: "io list \<Rightarrow> io list \<Rightarrow> handler_context_t \<Rightarrow> char list \<Rightarrow> char list \<Rightarrow> hst \<Rightarrow> bool" where
  "sent_post W L ctx c s st =
     (case st of (ctx', w') \<Rightarrow>
       (\<exists>es P. w_io w' = W @ es \<and> world_is w' P \<and> conn (L @ es) ctx' c s \<and>
         handling_step ctx' = handling_step ctx) \<or>
       good W L {(c, s)} st \<and> finished ctx' \<and> sended ctx' = sended ctx \<and> cnt (sbuff ctx') = 0)"

lemma sent_post_good: "sent_post W L ctx c s st \<Longrightarrow> good W L {(c, s)} st"
  by (cases st) (auto simp: sent_post_def intro: goodI)

lemma send_safe:
  assumes c: "conn (L @ es) ctx c s" and w: "w_io w = W @ es" "world_is w P"
    and st: "handling_step ctx \<in> {PARSING_RESP_BODY, SENDING_RESP}"
  shows "safe (send_resp_in_receiving e fd events (ctx, w))
    (\<lambda>r. sent_post W L ctx c s r \<and> (0 < e_write e \<longrightarrow> \<not> finished (fst r)))"
proof -
  note h = holdsD[OF connD(3)[OF c]]
  have ph: "6 \<le> phase (handling_step ctx)" "phase (handling_step ctx) \<le> 7" using st by auto
  have le: "sended ctx \<le> length s" using connD(7)[OF c] ph by (simp add: parsed_def Let_def)
  have n: "cnt (sbuff ctx) = length s" "sz_sub (length s) (sended ctx) = length s - sended ctx"
    using h le by simp_all
  let ?bytes = "drop (sended ctx) s"
  have rd: "read_bytes (ptr (sbuff ctx)) (sended ctx) (length s - sended ctx) = Inr ?bytes"
    using read_bytes_represents[OF h(1), of "sended ctx" "length s - sended ctx"] le by simp
  have same: "sent_post W L ctx c s (ctx, w) \<and> \<not> finished ctx"
    using c w connD(1)[OF c] by (auto simp: sent_post_def)
  have pos: "0 < e_write e \<Longrightarrow> sended ctx < length s \<Longrightarrow> 0 < sys_write e ?bytes"
    by (simp add: sys_write_def)
  let ?k = "nat (sys_write e ?bytes)"
  show ?thesis unfolding send_resp_in_receiving_def prod.case
  proof (rule safe_guard)
    show "safe (let n = sz_sub (cnt (sbuff ctx)) (sended ctx) in
       if n > 0 then
         bind_r (read_bytes (ptr (sbuff ctx)) (sended ctx) n) (\<lambda>bytes.
         bind_r (assert_r (\<not> raises_sigpipe e)) (\<lambda>_.
         let k = sys_write e bytes in
         if \<not> k > 0 then destroy_context (ctx, w)
         else Inr (ctx\<lparr>sended := sz_add (sended ctx) (nat k)\<rparr>,
                   log_io [Write (client_fd ctx) (take (nat k) bytes)] w)))
       else Inr (ctx, w)) (\<lambda>r. sent_post W L ctx c s r \<and> (0 < e_write e \<longrightarrow> \<not> finished (fst r)))"
    proof (cases "sended ctx < length s")
      case False
      then show ?thesis using same by (simp add: n)
    next
      case lt: True
      consider (pipe) "raises_sigpipe e" | (fail) "\<not> raises_sigpipe e" "\<not> 0 < sys_write e ?bytes"
        | (ok) "\<not> raises_sigpipe e" "0 < sys_write e ?bytes" by blast
      then show ?thesis
      proof cases
        case pipe
        then show ?thesis using lt by (simp add: n rd)
      next
        case fail
        obtain ctx' cs where d: "destroy_context (ctx, w) = Inr (ctx', log_io cs w)"
            "handling_step ctx' = HANDLED_EXCEPTIONALLY" "sended ctx' = sended ctx" "cnt (sbuff ctx') = 0"
          using destroy_context_live[OF connD(6)[OF c], of w] by blast
        have "safe (destroy_context (ctx, w)) (good W L {(c, s)})"
          by (rule conn_destroy[OF c w connD(6)[OF c]]) simp_all
        then have "good W L {(c, s)} (ctx', log_io cs w)" using d(1) by simp
        then have "sent_post W L ctx c s (ctx', log_io cs w)" using d by (simp add: sent_post_def finished_def)
        then show ?thesis using lt fail pos d(1) by (auto simp: n rd Let_def)
      next
        case ok
        note True = ok(2)
        have k: "sended ctx + ?k \<le> length s" using sys_write_bound[OF True] lt by simp
        have add: "sz_add (sended ctx) ?k = sended ctx + ?k" using k h(4) by simp
        let ?ev = "Write (client_fd ctx) (take ?k ?bytes)"
        have cl: "sent (client_fd ctx) (L @ es) = take (sended ctx) s" "server_fd ctx \<noteq> client_fd ctx"
          using connD(8)[OF c] ph by (simp_all add: traffic_def Let_def split: if_splits)
        have cl': "sent (client_fd ctx) (L @ es @ [?ev]) = take (sended ctx + ?k) s"
        proof -
          have "sent (client_fd ctx) (L @ es @ [?ev]) = sent (client_fd ctx) (L @ es) @ take ?k ?bytes" by simp
          then show ?thesis by (simp only: cl(1) take_add)
        qed
        have "conn (L @ (es @ [?ev])) (ctx\<lparr>sended := sended ctx + ?k\<rparr>) c s"
        proof (cases "handling_step ctx = SENDING_RESP")
          case True
          then show ?thesis using c cl' cl(2) k by (simp add: conn_defs)
        next
          case False
          then have "handling_step ctx = PARSING_RESP_BODY" using st by simp
          then show ?thesis using c cl' cl(2) k by (simp add: conn_defs)
        qed
        moreover have "w_io (log_io [?ev] w) = W @ (es @ [?ev])" "world_is (log_io [?ev] w) P"
          using w by (simp_all add: log_io_def world_is_def)
        ultimately have "sent_post W L ctx c s (ctx\<lparr>sended := sended ctx + ?k\<rparr>, log_io [?ev] w)"
          unfolding sent_post_def prod.case
          by (intro disjI1 exI[of _ "es @ [?ev]"] exI[of _ P] conjI) simp_all
        then show ?thesis using lt ok connD(1)[OF c] by (simp add: n rd Let_def add finished_def)
      qed
    qed
  qed
qed

text \<open>
  The step closes the connection as \<open>HANDLED\<close> when everything was written. A write that fails
  before anything was written is the one case in which it destroys the context a second time.
\<close>

lemma send_step:
  assumes c: "conn (L @ es) ctx c s" and w: "w_io w = W @ es" "world_is w P"
    and st: "handling_step ctx = SENDING_RESP" and once: "sended ctx = 0 \<longrightarrow> 0 < e_write e"
  shows "safe (send_resp_step e fd events (ctx, w)) (good W L {(c, s)})"
  unfolding send_resp_step_def
proof (rule safe_bind[OF send_safe[OF c w]])
  show "handling_step ctx \<in> {PARSING_RESP_BODY, SENDING_RESP}" using st by simp
next
  fix r
  assume post: "sent_post W L ctx c s r \<and> (0 < e_write e \<longrightarrow> \<not> finished (fst r))"
  obtain ctx' w' where r: "r = (ctx', w')" by (cases r)
  consider (on) es' P' where "w_io w' = W @ es'" "world_is w' P'" "conn (L @ es') ctx' c s"
        "handling_step ctx' = SENDING_RESP"
    | (off) "good W L {(c, s)} (ctx', w')" "finished ctx'" "sended ctx' = sended ctx" "cnt (sbuff ctx') = 0"
    using post r st by (auto simp: sent_post_def)
  then show "safe (case r of (ctx, w) \<Rightarrow>
      if sended ctx = cnt (sbuff ctx)
      then bind_r (destroy_context (ctx, w)) (\<lambda>(ctx, w). Inr (ctx\<lparr>handling_step := HANDLED\<rparr>, w))
      else Inr (ctx, w)) (good W L {(c, s)})"
  proof cases
    case off
    then have "sended ctx' \<noteq> cnt (sbuff ctx')" using once post r by auto
    then show ?thesis using off(1) by (simp add: r)
  next
    case on
    show ?thesis
    proof (cases "sended ctx' = cnt (sbuff ctx')")
      case False
      then show ?thesis using goodI[OF on(1,2,3), of "{(c, s)}"] by (simp add: r)
    next
      case True
      then have all: "sended ctx' = length s" using holdsD(2)[OF connD(3)[OF on(3)]] by simp
      obtain ctx2 cs where d: "destroy_context (ctx', w') = Inr (ctx2, log_io cs w')" "closes cs"
          "client_fd ctx2 = client_fd ctx'" "server_fd ctx2 = server_fd ctx'"
          "on_two (client_fd ctx') (server_fd ctx') cs" "cs = closing_events (client_fd ctx') (server_fd ctx')"
        using destroy_context_live[OF connD(6)[OF on(3)], of w'] by blast
      have t: "sent (server_fd ctx') (L @ es') = c" "received (client_fd ctx') (L @ es') = c"
          "sent (client_fd ctx') (L @ es') = s" "received (server_fd ctx') (L @ es') = s"
        using connD(8)[OF on(3)] on(4) all by (simp_all add: traffic_def)
      let ?ctx = "ctx2\<lparr>handling_step := HANDLED\<rparr>"
      have "closed_once (client_fd ctx') (server_fd ctx') (L @ es' @ cs)"
        using traffic_no_close[OF connD(8)[OF on(3)]] d(6) unfolding closed_once_def by (intro exI[of _ "L @ es'"]) simp
      then have "closed (L @ es' @ cs) ?ctx"
        using t d(3-5) closes_no_data[OF d(2)] traffic_on_two[OF connD(8)[OF on(3)]] by (simp add: closed_def)
      moreover have "w_io (log_io cs w') = W @ es' @ cs" using on(1) by (simp add: log_io_def)
      ultimately have "good W L {(c, s)} (?ctx, log_io cs w')"
        using on(2) unfolding good_def prod.case
        by (intro exI[of _ "es' @ cs"] exI[of _ P']) (simp add: world_is_log finished_def)
      then show ?thesis using True d(1) by (simp add: r)
    qed
  qed
qed

section \<open>handle\<close>

text \<open>Which step follows which: what decides whether a later branch of \<open>handle\<close> runs.\<close>

lemma destroy_context_step: "destroy_context st = Inr st' \<Longrightarrow> handling_step (fst st') = HANDLED_EXCEPTIONALLY"
  by (cases st) (auto simp: destroy_context_def bind_r_Inr_iff)

definition returns :: "'a res \<Rightarrow> ('a \<Rightarrow> bool) \<Rightarrow> bool" where
  "returns m P = (\<forall>a. m = Inr a \<longrightarrow> P a)"

lemma returns_simps [simp]: "returns (Inr a) P = P a" "returns (Inl e) P"
  by (simp_all add: returns_def)

lemma returns_bind: "(\<And>a. m = Inr a \<Longrightarrow> returns (f a) P) \<Longrightarrow> returns (bind_r m f) P"
  by (cases m) simp_all

lemma returns_if: "returns m P \<Longrightarrow> returns n P \<Longrightarrow> returns (if b then m else n) P"
  by simp

definition step_in :: "HandlingStep set \<Rightarrow> hst \<Rightarrow> bool" where
  "step_in S st = (handling_step (fst st) \<in> S)"

lemma returns_destroy: "HANDLED_EXCEPTIONALLY \<in> S \<Longrightarrow> returns (destroy_context st) (step_in S)"
  using destroy_context_step by (auto simp: returns_def step_in_def)

lemma type_step_next:
  "returns (parsing_req_type_step al e fd events ns (ctx, w))
    (step_in {handling_step ctx, PARSING_REQ_HEADERS, HANDLED_EXCEPTIONALLY})"
  unfolding parsing_req_type_step_def prod.case Let_def
  by (cases ns) (auto simp: step_in_def bind_r_Inr_iff intro!: returns_bind returns_if returns_destroy)

lemma code_step_next:
  "returns (parsing_resp_code_step al e fd events (ctx, w))
    (step_in {handling_step ctx, PARSING_RESP_HEADERS, HANDLED_EXCEPTIONALLY})"
  unfolding parsing_resp_code_step_def prod.case Let_def
  by (auto simp: step_in_def bind_r_Inr_iff intro!: returns_bind returns_if returns_destroy)

lemma resp_headers_step_next:
  "returns (parsing_resp_headers_step al e fd events ns (ctx, w))
    (step_in {handling_step ctx, PARSING_RESP_BODY, HANDLED_EXCEPTIONALLY})"
  unfolding parsing_resp_headers_step_def prod.case Let_def
  by (cases ns) (auto simp: step_in_def bind_r_Inr_iff intro!: returns_bind returns_if returns_destroy)

lemma safe_returns: "safe m P \<Longrightarrow> returns m Q \<Longrightarrow> safe m (\<lambda>a. P a \<and> Q a)"
  by (cases m) simp_all

lemma goodE:
  assumes "good W L A st"
  obtains (over) "finished (fst st)"
    | (on) ctx w es P c s where "st = (ctx, w)" "w_io w = W @ es" "world_is w P" "(c, s) \<in> A" "conn (L @ es) ctx c s"
  using assms that by (cases st) (auto simp: good_def split: if_splits)

lemma send_any:
  assumes g: "good W L A st"
  shows "safe (send_resp_in_receiving e fd events st) (good W L A)"
  using g
proof (cases rule: goodE)
  case over
  then show ?thesis by (cases st) (auto simp: send_resp_in_receiving_def finished_def)
next
  case (on ctx w es P c s)
  show ?thesis
  proof (cases "handling_step ctx \<in> {PARSING_RESP_BODY, SENDING_RESP}")
    case True
    show ?thesis unfolding on(1)
      by (rule safe_mono[OF send_safe[OF on(5,2,3) True]])
        (use on(4) in \<open>blast intro: good_mono[OF sent_post_good]\<close>)
  next
    case False
    then show ?thesis by (auto simp: on(1) send_resp_in_receiving_def)
  qed
qed

definition all_ok :: "allocator \<Rightarrow> (char list \<times> char list) set \<Rightarrow> bool" where
  "all_ok al A = (\<forall>(c, s) \<in> A. data_ok al c s)"

lemma handle_body_other:
  "handling_step (fst st) \<notin> {PARSING_RESP_BODY, SENDING_RESP} \<Longrightarrow> handle_body al e fd events ns st = Inr st"
  by (simp add: handle_body_def)

lemma handle_body_read:
  assumes g: "good W L A st" and al: "al_ok al" "all_ok al A" and st: "handling_step (fst st) \<noteq> SENDING_RESP"
  shows "safe (handle_body al e fd events True st) (good W L A)"
proof (cases "handling_step (fst st) = PARSING_RESP_BODY")
  case False
  then show ?thesis using g st by (simp add: handle_body_def)
next
  case True
  obtain ctx w es P c s where on: "st = (ctx, w)" "w_io w = W @ es" "world_is w P" "(c, s) \<in> A"
      "conn (L @ es) ctx c s"
    using g by (cases rule: goodE) (use True in \<open>simp_all add: finished_def\<close>)
  have d: "data_ok al c s" using al(2) on(4) by (auto simp: all_ok_def)
  have "safe (parsing_resp_body al e fd events True st) (good W L {(c, s)})"
    unfolding on(1) by (rule body_body[OF on(5,2,3) al(1) _ d]) (use True on(1) in simp)
  then have "safe (parsing_resp_body al e fd events True st) (good W L A)"
    by (rule safe_mono) (use on(4) in \<open>blast intro: good_mono\<close>)
  then have "safe (if fd = server_fd (fst st) then parsing_resp_body al e fd events True st else Inr st) (good W L A)"
    using g by (intro safe_if) simp_all
  then have "safe (bind_r (if fd = server_fd (fst st) then parsing_resp_body al e fd events True st else Inr st) (\<lambda>s.
      if fd = client_fd (fst s) then send_resp_in_receiving e fd events s else Inr s)) (good W L A)"
    by (rule safe_bind) (auto intro: send_any)
  then show ?thesis using True by (simp add: handle_body_def)
qed

lemma handle_body_new:
  assumes c: "conn (L @ es) ctx c s" and w: "w_io w = W @ es" "world_is w P" and al: "al_ok al"
    and d: "all_ok al (reach e c s)"
    and once: "handling_step ctx = SENDING_RESP \<and> sended ctx = 0 \<longrightarrow> 0 < e_write e"
  shows "safe (handle_body al e fd events False (ctx, w)) (good W L (reach e c s))"
proof -
  have A: "(c, s) \<in> reach e c s" by (simp add: reach_def)
  have here: "good W L (reach e c s) (ctx, w)" by (rule goodI[OF w c A])
  have d': "data_ok al c (s @ arriving e)" using d by (simp add: all_ok_def reach_def)
  consider (body) "handling_step ctx = PARSING_RESP_BODY" | (send) "handling_step ctx = SENDING_RESP"
    | (other) "handling_step ctx \<notin> {PARSING_RESP_BODY, SENDING_RESP}" by blast
  then show ?thesis
  proof cases
    case body
    have "safe (if fd = server_fd ctx then parsing_resp_body al e fd events False (ctx, w) else Inr (ctx, w))
        (good W L (reach e c s))"
      using body_step[OF c w al body d'] here by simp
    then have "safe (bind_r (if fd = server_fd ctx then parsing_resp_body al e fd events False (ctx, w) else Inr (ctx, w)) (\<lambda>s.
        if fd = client_fd (fst s) then send_resp_in_receiving e fd events s else Inr s)) (good W L (reach e c s))"
      by (rule safe_bind) (auto intro: send_any)
    then show ?thesis using body by (simp add: handle_body_def)
  next
    case send
    have "safe (send_resp_step e fd events (ctx, w)) (good W L {(c, s)})"
      by (rule send_step[OF c w send]) (use once send in simp)
    then show ?thesis using send A
      by (auto simp: handle_body_def elim!: safe_mono good_mono)
  next
    case other
    then show ?thesis using here by (simp add: handle_body_other)
  qed
qed

lemma resp_headers_again:
  assumes g: "good W L A st" and al: "al_ok al" "all_ok al A" and st: "handling_step (fst st) = PARSING_RESP_HEADERS"
  shows "safe (parsing_resp_headers_step al e fd events True st)
    (\<lambda>r. good W L A r \<and> step_in {PARSING_RESP_HEADERS, PARSING_RESP_BODY, HANDLED_EXCEPTIONALLY} r)"
proof (rule safe_returns)
  obtain ctx w es P c s where on: "st = (ctx, w)" "w_io w = W @ es" "world_is w P" "(c, s) \<in> A"
      "conn (L @ es) ctx c s"
    using g by (cases rule: goodE) (use st in \<open>simp_all add: finished_def\<close>)
  have d: "data_ok al c s" using al(2) on(4) by (auto simp: all_ok_def)
  have "safe (parsing_resp_headers_step al e fd events True st) (good W L {(c, s)})"
    unfolding on(1) by (rule resp_headers_body[OF on(5,2,3) al(1) _ d]) (use st on(1) in simp)
  then show "safe (parsing_resp_headers_step al e fd events True st) (good W L A)"
    by (rule safe_mono) (use on(4) in \<open>blast intro: good_mono\<close>)
  show "returns (parsing_resp_headers_step al e fd events True st)
      (step_in {PARSING_RESP_HEADERS, PARSING_RESP_BODY, HANDLED_EXCEPTIONALLY})"
    using resp_headers_step_next[of al e fd events True ctx w] st on(1) by simp
qed

lemma resp_tail:
  assumes g: "good W L A st" and al: "al_ok al" "all_ok al A" and st: "handling_step (fst st) \<noteq> SENDING_RESP"
  shows "safe (bind_r (if handling_step (fst st) = PARSING_RESP_HEADERS
             then bind_r (parsing_resp_headers_step al e fd events True st) (\<lambda>s. Inr (True, s))
             else Inr (True, st)) (\<lambda>(ns, s). handle_body al e fd events ns s)) (good W L A)"
proof (cases "handling_step (fst st) = PARSING_RESP_HEADERS")
  case False
  then show ?thesis using handle_body_read[OF g al st] by simp
next
  case True
  have "safe (bind_r (parsing_resp_headers_step al e fd events True st)
      (\<lambda>s. handle_body al e fd events True s)) (good W L A)"
    by (rule safe_bind[OF resp_headers_again[OF g al True]])
      (auto intro: handle_body_read[OF _ al] simp: step_in_def)
  then show ?thesis using True by (simp add: bind_r_assoc)
qed

lemma handle_resp_good:
  assumes c: "conn (L @ es) ctx c s" and w: "w_io w = W @ es" "world_is w P" and al: "al_ok al"
    and d: "all_ok al (reach e c s)"
    and once: "handling_step ctx = SENDING_RESP \<and> sended ctx = 0 \<longrightarrow> 0 < e_write e"
  shows "safe (handle_resp al e fd events False (ctx, w)) (good W L (reach e c s))"
proof -
  have d': "data_ok al c (s @ arriving e)" using d by (simp add: all_ok_def reach_def)
  consider (code) "handling_step ctx = PARSING_RESP_CODE" | (headers) "handling_step ctx = PARSING_RESP_HEADERS"
    | (other) "handling_step ctx \<notin> {PARSING_RESP_CODE, PARSING_RESP_HEADERS}" by blast
  then show ?thesis
  proof cases
    case other
    then show ?thesis using handle_body_new[OF c w al d once] by (simp add: handle_resp_def)
  next
    case headers
    have "safe (bind_r (parsing_resp_headers_step al e fd events False (ctx, w))
        (\<lambda>s. handle_body al e fd events True s)) (good W L (reach e c s))"
      by (rule safe_bind[OF safe_returns[OF resp_headers_step[OF c w al headers d'] resp_headers_step_next]])
        (use headers in \<open>auto intro: handle_body_read[OF _ al d] simp: step_in_def\<close>)
    then show ?thesis using headers by (simp add: handle_resp_def bind_r_assoc)
  next
    case code
    have "safe (bind_r (parsing_resp_code_step al e fd events (ctx, w)) (\<lambda>st.
        bind_r (if handling_step (fst st) = PARSING_RESP_HEADERS
             then bind_r (parsing_resp_headers_step al e fd events True st) (\<lambda>s. Inr (True, s))
             else Inr (True, st)) (\<lambda>(ns, s). handle_body al e fd events ns s))) (good W L (reach e c s))"
    proof (rule safe_bind[OF safe_returns[OF code_step[OF c w al code d'] code_step_next]], rule resp_tail[OF _ al d])
      fix r
      assume r: "good W L (reach e c s) r \<and> step_in {handling_step ctx, PARSING_RESP_HEADERS, HANDLED_EXCEPTIONALLY} r"
      then show "good W L (reach e c s) r" by simp
      show "handling_step (fst r) \<noteq> SENDING_RESP" using r code by (auto simp: step_in_def)
    qed
    then show ?thesis using code by (simp add: handle_resp_def bind_r_assoc)
  qed
qed

text \<open>
  One invocation of \<open>handle\<close> on a connection that satisfies the invariant: no undefined
  behaviour, no endless loop, and the invariant holds afterwards, or the connection is closed
  and what it forwarded is a prefix of what it read, everything of it if it ended \<open>HANDLED\<close>.
\<close>

lemma handle_good:
  assumes c: "conn L ctx c s" and w: "world_is w P" and al: "al_ok al" and e: "env_ok e ctx"
    and d: "all_ok al (reach e c s)"
    and once: "handling_step ctx = SENDING_RESP \<and> sended ctx = 0 \<longrightarrow> 0 < e_write e"
  shows "safe (handle al e fd events (ctx, w)) (good (w_io w) L (reach e c s))"
proof -
  let ?A = "reach e c s" and ?W = "w_io w"
  define w1 where "w1 = (if client_fd ctx \<noteq> last_fd w then w\<lparr>last_fd := client_fd ctx\<rparr> else w)"
  have w1: "w_io w1 = ?W @ []" "world_is w1 P" using w by (simp_all add: w1_def world_is_def)
  have c1: "conn (L @ []) ctx c s" using c by simp
  have here: "(c, s) \<in> ?A" by (simp add: reach_def)
  have d': "data_ok al c s" "data_ok al (c @ arriving e) s" using d by (simp_all add: all_ok_def reach_def)
  have up: "safe m (good ?W L {(c, s)}) \<Longrightarrow> safe m (good ?W L ?A)" for m
    using here by (auto elim!: safe_mono good_mono)
  have h: "handle al e fd events (ctx, w) =
      bind_r (if handling_step ctx = PARSING_REQ_TYPE
              then bind_r (parsing_req_type_step al e fd events False (ctx, w1)) (\<lambda>s. Inr (True, s))
              else Inr (False, ctx, w1)) (\<lambda>(ns, s).
      if handling_step (fst s) = PARSING_REQ_HEADERS then parsing_req_headers_step al e fd events ns s
      else if handling_step (fst s) = CONNECT_STEP then connect_step al e fd events s
      else if handling_step (fst s) = SENDING_REQ then sending_req_step e fd events s
      else handle_resp al e fd events ns s)"
    by (simp add: handle_def w1_def Let_def)
  consider (type) "handling_step ctx = PARSING_REQ_TYPE" | (headers) "handling_step ctx = PARSING_REQ_HEADERS"
    | (connect) "handling_step ctx = CONNECT_STEP" | (sending) "handling_step ctx = SENDING_REQ"
    | (other) "handling_step ctx \<notin> {PARSING_REQ_TYPE, PARSING_REQ_HEADERS, CONNECT_STEP, SENDING_REQ}" by blast
  then show ?thesis
  proof cases
    case headers
    then show ?thesis unfolding h using headers_step[OF c1 w1 al headers e d'(2)] by simp
  next
    case connect
    then show ?thesis unfolding h using up[OF connect_again[OF c1 w1 connect]] by simp
  next
    case sending
    then show ?thesis unfolding h using up[OF sending_step[OF c1 w1 sending]] by simp
  next
    case other
    then show ?thesis unfolding h using handle_resp_good[OF c1 w1 al d once] by simp
  next
    case type
    have rest: "safe (if handling_step (fst r) = PARSING_REQ_HEADERS then parsing_req_headers_step al e fd events True r
      else if handling_step (fst r) = CONNECT_STEP then connect_step al e fd events r
      else if handling_step (fst r) = SENDING_REQ then sending_req_step e fd events r
      else handle_resp al e fd events True r) (good ?W L ?A)"
      if g: "good ?W L ?A r"
        and next_step: "step_in {handling_step ctx, PARSING_REQ_HEADERS, HANDLED_EXCEPTIONALLY} r"
        and keep: "client_fd (fst r) = client_fd ctx" for r
    proof (cases "handling_step (fst r) = PARSING_REQ_HEADERS")
      case False
      then show ?thesis using g next_step type
        by (auto simp: step_in_def handle_resp_def handle_body_def)
    next
      case True
      obtain ctx' w' es P' c' s' where on: "r = (ctx', w')" "w_io w' = ?W @ es" "world_is w' P'" "(c', s') \<in> ?A"
          "conn (L @ es) ctx' c' s'"
        using g by (cases rule: goodE) (use True in \<open>simp_all add: finished_def\<close>)
      have "safe (parsing_req_headers_step al e fd events True r) (good ?W L {(c', s')})"
        unfolding on(1)
        by (rule headers_body[OF on(5,2,3) al]) (use True on d e keep in \<open>auto simp: all_ok_def env_ok_def\<close>)
      then have "safe (parsing_req_headers_step al e fd events True r) (good ?W L ?A)"
        by (rule safe_mono) (use on(4) in \<open>blast intro: good_mono\<close>)
      then show ?thesis using True by simp
    qed
    have keep: "returns (parsing_req_type_step al e fd events False (ctx, w1)) (\<lambda>r. client_fd (fst r) = client_fd ctx)"
      unfolding parsing_req_type_step_def prod.case Let_def
      by (auto simp: bind_r_Inr_iff destroy_context_def intro!: returns_bind returns_if)
    have "safe (bind_r (parsing_req_type_step al e fd events False (ctx, w1)) (\<lambda>r.
      if handling_step (fst r) = PARSING_REQ_HEADERS then parsing_req_headers_step al e fd events True r
      else if handling_step (fst r) = CONNECT_STEP then connect_step al e fd events r
      else if handling_step (fst r) = SENDING_REQ then sending_req_step e fd events r
      else handle_resp al e fd events True r)) (good ?W L ?A)"
      by (rule safe_bind[OF safe_returns[OF safe_returns[OF type_step[OF c1 w1 al type] type_step_next] keep]])
        (rule rest, blast+)
    then show ?thesis unfolding h using type by (simp add: bind_r_assoc)
  qed
qed

end
