(* ===== verification/Handler_Relay.thy ===== *)
theory Handler_Relay
  imports Handler_Run
begin

text \<open>
  Whole connections: a new context satisfies the invariant, a run of \<open>handle\<close> over any sequence
  of readiness events keeps it unless the first write of a complete response fails; in that case
  \<open>send_resp_step\<close> destroys the context twice. \<open>event_fine\<close> is what is assumed of each event.
\<close>

section \<open>A new connection\<close>

lemma init_context_conn:
  assumes "al_ok al" and "0 \<le> fd"
  shows "safe (init_context al ctx fd) (\<lambda>ctx'. conn [] ctx' [] [] \<and> client_fd ctx' = fd)"
  unfolding init_context_def
proof (intro safe_bind[OF holds_init[OF assms(1)]] safe_bind[OF holds_init[OF assms(1)]])
  fix cb sb :: "char vec"
  assume "holds cb []" "holds sb []"
  moreover have "\<exists>hs. live_request (request_init (request ctx)) hs" "\<exists>hs. live_response (response_init (response ctx)) hs"
    using live_request_init live_response_init by blast+
  ultimately show "safe (Inr (ctx\<lparr>request := request_init (request ctx), response := response_init (response ctx),
       cbuff := cb, cppos := 0, sbuff := sb, sppos := 0, sended := 0,
       connection_state := NOT_CONNECTED, client_fd := fd, server_fd := -1,
       client_events := POLLIN, server_events := 0, handling_step := PARSING_REQ_TYPE\<rparr>))
     (\<lambda>ctx'. conn [] ctx' [] [] \<and> client_fd ctx' = fd)"
    using assms(2) by (simp add: conn_defs client_only_def)
qed

section \<open>Destroying twice\<close>

lemma destroy_twice:
  assumes "live ctx" and "line_parsed (request ctx)"
  shows "bind_r (destroy_context (ctx, w)) destroy_context = Inl Undefined"
proof -
  obtain hs hs' where l: "live_request (request ctx) hs" "live_response (response ctx) hs'"
    using assms(1) by (auto simp: live_def)
  obtain rq where rq: "request_destroy (request ctx) = Inr rq" using request_destroy_live[OF l(1)] by blast
  obtain rs where rs: "response_destroy (response ctx) = Inr rs" using response_destroy_live[OF l(2)] by blast
  have "req_type (request ctx) \<noteq> Null" using assms(2) by (auto simp: line_parsed_def)
  then have "request_destroy rq = Inl Undefined"
    using request_destroy_twice[OF l(1)] rq by simp
  then show ?thesis by (simp add: destroy_context_def rq rs)
qed

lemma send_resp_destroys_twice:
  assumes c: "conn L ctx c s" and st: "handling_step ctx = SENDING_RESP" and z: "sended ctx = 0"
    and wr: "e_write e \<le> 0" and ev: "fd = client_fd ctx" "has_event events POLLOUT"
  shows "handle al e fd events (ctx, w) = Inl (if raises_sigpipe e then Exit else Undefined)"
proof -
  note h = holdsD[OF connD(3)[OF c]]
  have ps: "s \<noteq> []" "line_parsed (request ctx)" using connD(7)[OF c] st by (simp_all add: parsed_def)
  have rd: "read_bytes (ptr (sbuff ctx)) 0 (length s) = Inr s"
    using read_bytes_represents[OF h(1), of 0 "length s"] by simp
  have k: "\<not> 0 < sys_write e s" using wr by (simp add: sys_write_def)
  have n: "cnt (sbuff ctx) = length s" "sz_sub (length s) 0 = length s" using h by simp_all
  define w1 where "w1 = (if client_fd ctx \<noteq> last_fd w then w\<lparr>last_fd := client_fd ctx\<rparr> else w)"
  obtain ctx' cs where d: "destroy_context (ctx, w1) = Inr (ctx', log_io cs w1)" "sended ctx' = sended ctx"
      "cnt (sbuff ctx') = 0"
    using destroy_context_live[OF connD(6)[OF c], of w1] by blast
  have "send_resp_in_receiving e fd events (ctx, w1) = (if raises_sigpipe e then Inl Exit else Inr (ctx', log_io cs w1))"
    using st ev z ps(1) k d(1) by (simp add: send_resp_in_receiving_def n rd)
  then have "send_resp_step e fd events (ctx, w1) =
      (if raises_sigpipe e then Inl Exit
       else bind_r (destroy_context (ctx', log_io cs w1)) (\<lambda>(ctx, w). Inr (ctx\<lparr>handling_step := HANDLED\<rparr>, w)))"
    using d z by (simp add: send_resp_step_def)
  moreover have "destroy_context (ctx', log_io cs w1) = Inl Undefined"
    using destroy_twice[OF connD(6)[OF c] ps(2), of w1] d(1) by simp
  ultimately show ?thesis using st
    by (auto simp: handle_def handle_resp_def handle_body_def w1_def Let_def split: if_splits)
qed

section \<open>Runs\<close>

text \<open>The bytes of a buffer, computed from its block.\<close>

definition bytes :: "char vec \<Rightarrow> char list" where
  "bytes v = map (\<lambda>i. case blk_cell (ptr v) i of Some ch \<Rightarrow> ch | None \<Rightarrow> NUL) [0..<cnt v]"

lemma bytes_holds: "holds v bs \<Longrightarrow> bytes v = bs"
  using representsD[of CHAR_SIZE v bs]
  by (intro nth_equalityI) (auto simp: bytes_def holds_def)

text \<open>
  What an invocation assumes of its environment: a new socket is not the client's descriptor, the
  resolver answers with IPv4 addresses, allocations no larger than the data are granted, and no
  text the server sent reads as a hexadecimal number that overflows \<open>long\<close>.
\<close>

definition event_fine :: "allocator \<Rightarrow> env \<Rightarrow> handler_context_t \<Rightarrow> bool" where
  "event_fine al e ctx = (env_ok e ctx \<and> all_ok al (reach e (bytes (cbuff ctx)) (bytes (sbuff ctx))))"

text \<open>A complete response waits, nothing of it was sent, and the first \<open>write\<close> fails without a SIGPIPE.\<close>

definition first_write_fails :: "env \<Rightarrow> int \<Rightarrow> int \<Rightarrow> handler_context_t \<Rightarrow> bool" where
  "first_write_fails e fd events ctx =
     (handling_step ctx = SENDING_RESP \<and> sended ctx = 0 \<and> fd = client_fd ctx \<and> has_event events POLLOUT \<and>
      e_write e \<le> 0 \<and> \<not> raises_sigpipe e)"

lemma handle_first_write:
  "conn L ctx c s \<Longrightarrow> first_write_fails e fd events ctx \<Longrightarrow> handle al e fd events (ctx, w) = Inl Undefined"
  using send_resp_destroys_twice[of L ctx c s e fd events al w] by (simp add: first_write_fails_def)

lemma handle_conn:
  assumes c: "conn L ctx c s" and w: "world_is w P" and al: "al_ok al" and fine: "event_fine al e ctx"
    and wr: "\<not> first_write_fails e fd events ctx"
  shows "safe (handle al e fd events (ctx, w)) (good (w_io w) L (reach e c s))"
proof (cases "handling_step ctx = SENDING_RESP \<and> sended ctx = 0 \<and> e_write e \<le> 0")
  case False
  have "bytes (cbuff ctx) = c" "bytes (sbuff ctx) = s"
    using connD(2,3)[OF c] by (simp_all add: bytes_holds)
  then show ?thesis using fine False by (intro handle_good[OF c w al]) (auto simp: event_fine_def)
next
  case True
  show ?thesis
  proof (cases "fd = client_fd ctx \<and> has_event events POLLOUT")
    case False
    then have "handle al e fd events (ctx, w) = Inl Exit" using True
      by (auto simp: handle_def handle_resp_def handle_body_def send_resp_step_def send_resp_in_receiving_def Let_def)
    then show ?thesis by simp
  next
    case ready: True
    then have "raises_sigpipe e" using True wr by (simp add: first_write_fails_def)
    then show ?thesis using send_resp_destroys_twice[OF c, of e fd events al w] True ready by simp
  qed
qed

text \<open>One invocation: that write is the only way to undefined behaviour.\<close>

lemma handle_outcome:
  assumes "conn L ctx c s" and "world_is w P" and "al_ok al" and "event_fine al e ctx"
  shows "undefined_when (first_write_fails e fd events ctx) (handle al e fd events (ctx, w)) (good (w_io w) L (reach e c s))"
  using handle_conn[OF assms] handle_first_write[OF assms(1)] by (simp add: undefined_when_def)

type_synonym poll_event = "env \<times> int \<times> int"

fun run :: "allocator \<Rightarrow> poll_event list \<Rightarrow> hst \<Rightarrow> hst res" where
  "run al [] st = Inr st"
| "run al ((e, fd, events) # evs) st =
     (if finished (fst st) then Inr st else bind_r (handle al e fd events st) (run al evs))"

fun run_fine :: "allocator \<Rightarrow> poll_event list \<Rightarrow> hst \<Rightarrow> bool" where
  "run_fine al [] st = True"
| "run_fine al ((e, fd, events) # evs) st =
     (finished (fst st) \<or> event_fine al e (fst st) \<and>
        (case handle al e fd events st of Inr st' \<Rightarrow> run_fine al evs st' | Inl _ \<Rightarrow> True))"

definition run_post :: "io list \<Rightarrow> io list \<Rightarrow> hst \<Rightarrow> bool" where
  "run_post W L st =
     (case st of (ctx, w) \<Rightarrow>
       \<exists>es P. w_io w = W @ es \<and> world_is w P \<and>
         (if finished ctx then closed (L @ es) ctx else \<exists>c s. conn (L @ es) ctx c s))"

text \<open>Whether such a write comes up in a run.\<close>

fun write_fails :: "allocator \<Rightarrow> poll_event list \<Rightarrow> hst \<Rightarrow> bool" where
  "write_fails al [] st = False"
| "write_fails al ((e, fd, events) # evs) st =
     (\<not> finished (fst st) \<and> (first_write_fails e fd events (fst st) \<or>
        (case handle al e fd events st of Inr st' \<Rightarrow> write_fails al evs st' | Inl _ \<Rightarrow> False)))"

lemma run_post_append:
  "run_post (W @ es) (L @ es) st \<Longrightarrow> run_post W L st"
  unfolding run_post_def by (cases st) (auto split: if_splits intro!: exI[of _ "es @ _"])

lemma run_outcome:
  assumes "al_ok al" and "run_fine al evs (ctx, w)" and "world_is w P" and "conn L ctx c s"
  shows "undefined_when (write_fails al evs (ctx, w)) (run al evs (ctx, w)) (run_post (w_io w) L)"
  using assms(2-)
proof (induction evs arbitrary: ctx w P L c s)
  case Nil
  have "run_post (w_io w) L (ctx, w)" unfolding run_post_def prod.case
    using connD(1)[OF Nil(3)] Nil by (intro exI[of _ "[]"] exI[of _ P]) auto
  then show ?case by (simp add: undefined_when_def)
next
  case (Cons ev evs)
  obtain e fd events where ev: "ev = (e, fd, events)" by (cases ev)
  have nf: "\<not> finished ctx" by (rule connD(1)[OF Cons.prems(3)])
  then have fine: "event_fine al e ctx"
    "\<And>st'. handle al e fd events (ctx, w) = Inr st' \<Longrightarrow> run_fine al evs st'"
    using Cons.prems(1) by (auto simp: ev)
  show ?case
  proof (cases "first_write_fails e fd events ctx")
    case True
    then show ?thesis using handle_first_write[OF Cons.prems(3) True] nf by (simp add: ev undefined_when_def)
  next
    case False
    have "undefined_when (case handle al e fd events (ctx, w) of Inr st' \<Rightarrow> write_fails al evs st' | Inl _ \<Rightarrow> False)
        (bind_r (handle al e fd events (ctx, w)) (run al evs)) (run_post (w_io w) L)"
    proof (rule undefined_when_bind[OF handle_conn[OF Cons.prems(3,2) assms(1) fine(1) False]])
      fix st'
      assume eq: "handle al e fd events (ctx, w) = Inr st'" and g: "good (w_io w) L (reach e c s) st'"
      obtain ctx' w' where st': "st' = (ctx', w')" by (cases st')
      obtain es P' where es: "w_io w' = w_io w @ es" "world_is w' P'"
          "if finished ctx' then closed (L @ es) ctx' else \<exists>c s. conn (L @ es) ctx' c s"
        using g unfolding st' good_def prod.case by (elim exE conjE) (auto split: if_splits)
      show "undefined_when (write_fails al evs st') (run al evs st') (run_post (w_io w) L)"
      proof (cases "finished ctx'")
        case True
        then have "run al evs st' = Inr st'" "\<not> write_fails al evs st'" unfolding st' by (cases evs; auto)+
        then show ?thesis using es True by (auto simp: st' run_post_def undefined_when_def)
      next
        case False
        then obtain c' s' where c': "conn (L @ es) ctx' c' s'" using es(3) by auto
        have "undefined_when (write_fails al evs st') (run al evs st') (run_post (w_io w') (L @ es))"
          unfolding st' by (rule Cons.IH[OF _ es(2) c']) (use fine(2)[OF eq] st' in simp)
        then show ?thesis by (rule undefined_when_mono) (simp add: es(1) run_post_append)
      qed
    qed
    then show ?thesis using nf False by (simp add: ev)
  qed
qed

text \<open>What a run has forwarded, read off the invariant.\<close>

lemma run_post_prefix:
  assumes "run_post W [] st"
  shows "case st of (ctx', w') \<Rightarrow> \<exists>es. w_io w' = W @ es \<and>
      prefix (sent (server_fd ctx') es) (received (client_fd ctx') es) \<and>
      prefix (sent (client_fd ctx') es) (received (server_fd ctx') es) \<and>
      (handling_step ctx' = HANDLED \<longrightarrow>
         sent (server_fd ctx') es = received (client_fd ctx') es \<and>
         sent (client_fd ctx') es = received (server_fd ctx') es)"
proof -
  obtain ctx' w' where st: "st = (ctx', w')" by (cases st)
  obtain es where es: "w_io w' = W @ es"
      "if finished ctx' then closed es ctx' else \<exists>c s. conn es ctx' c s"
    using assms unfolding run_post_def st prod.case append_Nil by blast
  show ?thesis
  proof (cases "finished ctx'")
    case True
    then show ?thesis using es by (auto simp: st closed_def)
  next
    case False
    then obtain c s where c: "conn es ctx' c s" using es(2) by auto
    have "handling_step ctx' \<noteq> HANDLED" using False by (auto simp: finished_def)
    then show ?thesis using traffic_closed[OF connD(8)[OF c], of "server_fd ctx'"] es(1) by (auto simp: st)
  qed
qed

end
