(* ===== verification/Handler_Frame.thy ===== *)
theory Handler_Frame
  imports Connection_Handler
begin

text \<open>
  What no invocation of \<open>handle\<close> changes: the client descriptor of the context. Each step is taken
  apart by rules for its sequencing; nothing is assumed of the context or of the system calls.
\<close>

section \<open>Rules\<close>

definition keeps :: "int \<Rightarrow> hst res \<Rightarrow> bool" where
  "keeps a m = (\<forall>ctx w. m = Inr (ctx, w) \<longrightarrow> client_fd ctx = a)"

lemma keeps_simps [simp]:
  "keeps a (Inl e)" "keeps a (Inr (ctx, w)) = (client_fd ctx = a)" "keeps a (Inr s) = (client_fd (fst s) = a)"
  by (auto simp: keeps_def) (metis prod.collapse)

lemma keeps_bind: "(\<And>x. keeps a (f x)) \<Longrightarrow> keeps a (bind_r m f)"
  by (cases m) auto

text \<open>The same for the results of the reading parts of the steps.\<close>

definition keeps3 :: "int \<Rightarrow> (STATUS \<times> handler_context_t \<times> world) res \<Rightarrow> bool" where
  "keeps3 a m = (\<forall>st ctx w. m = Inr (st, ctx, w) \<longrightarrow> client_fd ctx = a)"

lemma keeps3_simps [simp]: "keeps3 a (Inl e)" "keeps3 a (Inr (st, ctx, w)) = (client_fd ctx = a)"
  by (auto simp: keeps3_def)

lemma keeps3_bind: "(\<And>x. keeps3 a (f x)) \<Longrightarrow> keeps3 a (bind_r m f)"
  by (cases m) auto

lemma keeps_bind3:
  assumes "keeps3 a m" and "\<And>st ctx w. client_fd ctx = a \<Longrightarrow> keeps a (f st ctx w)"
  shows "keeps a (bind_r m (\<lambda>(st, ctx, w). f st ctx w))"
  using assms by (cases m) (auto simp: keeps3_def)

lemma keeps_if: "(c \<Longrightarrow> keeps a m) \<Longrightarrow> (\<not> c \<Longrightarrow> keeps a n) \<Longrightarrow> keeps a (if c then m else n)"
  by simp

lemma keeps3_if: "(c \<Longrightarrow> keeps3 a m) \<Longrightarrow> (\<not> c \<Longrightarrow> keeps3 a n) \<Longrightarrow> keeps3 a (if c then m else n)"
  by simp

lemma keeps3_prod: "(\<And>x y. keeps3 a (f x y)) \<Longrightarrow> keeps3 a (case p of (x, y) \<Rightarrow> f x y)"
  by (cases p) simp

lemma keeps_prod: "(\<And>x y. keeps a (f x y)) \<Longrightarrow> keeps a (case p of (x, y) \<Rightarrow> f x y)"
  by (cases p) simp

lemma keeps_option: "keeps a m \<Longrightarrow> (\<And>x. keeps a (f x)) \<Longrightarrow> keeps a (case p of None \<Rightarrow> m | Some x \<Rightarrow> f x)"
  by (cases p) simp_all

section \<open>The steps\<close>

lemma destroy_keeps: "client_fd ctx = a \<Longrightarrow> keeps a (destroy_context (ctx, w))"
  unfolding destroy_context_def prod.case by (intro keeps_bind) simp

lemma cache_keeps: "client_fd ctx = a \<Longrightarrow> keeps a (cache al (ctx, w))"
  unfolding cache_def prod.case Let_def by (intro keeps_bind keeps_prod) simp

lemmas keeps_intros = keeps_bind3 keeps3_bind keeps3_if keeps3_prod keeps_bind keeps_if keeps_prod keeps_option
  destroy_keeps cache_keeps

lemma req_type_keeps: "client_fd ctx = a \<Longrightarrow> keeps a (parsing_req_type_step al e fd events ns (ctx, w))"
  unfolding parsing_req_type_step_def prod.case Let_def by (intro keeps_intros; simp)

lemma connect_keeps: "client_fd ctx = a \<Longrightarrow> keeps a (connect_step al e fd events (ctx, w))"
  unfolding connect_step_def prod.case Let_def by (intro keeps_bind keeps_if keeps_option keeps_prod destroy_keeps; simp)

lemma req_headers_keeps: "client_fd ctx = a \<Longrightarrow> keeps a (parsing_req_headers_step al e fd events ns (ctx, w))"
  unfolding parsing_req_headers_step_def prod.case Let_def by (intro keeps_intros connect_keeps; simp)

lemma sending_keeps: "client_fd ctx = a \<Longrightarrow> keeps a (sending_req_step e fd events (ctx, w))"
  unfolding sending_req_step_def prod.case Let_def by (intro keeps_bind keeps_if destroy_keeps; simp)

lemma resp_code_keeps: "client_fd ctx = a \<Longrightarrow> keeps a (parsing_resp_code_step al e fd events (ctx, w))"
  unfolding parsing_resp_code_step_def prod.case Let_def by (intro keeps_bind keeps_if keeps_prod destroy_keeps; simp)

lemma resp_headers_keeps: "client_fd ctx = a \<Longrightarrow> keeps a (parsing_resp_headers_step al e fd events ns (ctx, w))"
  unfolding parsing_resp_headers_step_def prod.case Let_def by (intro keeps_intros; simp)

lemma resp_body_keeps: "client_fd ctx = a \<Longrightarrow> keeps a (parsing_resp_body al e fd events ns (ctx, w))"
  unfolding parsing_resp_body_def prod.case Let_def by (intro keeps_intros; simp)

lemma send_receiving_keeps: "client_fd ctx = a \<Longrightarrow> keeps a (send_resp_in_receiving e fd events (ctx, w))"
  unfolding send_resp_in_receiving_def prod.case Let_def by (intro keeps_bind keeps_if destroy_keeps; simp)

lemma keepsD: "keeps a m \<Longrightarrow> m = Inr s \<Longrightarrow> client_fd (fst s) = a"
  by simp

lemma keeps_chain: "keeps a m \<Longrightarrow> (\<And>ctx w. client_fd ctx = a \<Longrightarrow> keeps a (f (ctx, w))) \<Longrightarrow> keeps a (bind_r m f)"
  by (cases m) auto

lemma send_keeps: "client_fd ctx = a \<Longrightarrow> keeps a (send_resp_step e fd events (ctx, w))"
  unfolding send_resp_step_def
  by (rule keeps_chain[OF send_receiving_keeps]) (auto intro!: keeps_chain[OF destroy_keeps])

lemma body_keeps: "client_fd (fst s) = a \<Longrightarrow> keeps a (handle_body al e fd events ns s)"
  by (cases s) (auto simp: handle_body_def intro!: keeps_chain send_receiving_keeps send_keeps resp_body_keeps)

text \<open>A step and the flag with it.\<close>

lemma keeps_flag:
  assumes "keeps a m" and "client_fd (fst s) = a" and "\<And>b s. client_fd (fst s) = a \<Longrightarrow> keeps a (f (b, s))"
  shows "keeps a (bind_r (if c then bind_r m (\<lambda>s. Inr (True, s)) else Inr (ns, s)) f)"
  using assms by (cases m) auto

lemma resp_keeps:
  assumes "client_fd (fst s) = a"
  shows "keeps a (handle_resp al e fd events ns s)"
proof -
  have code: "keeps a (parsing_resp_code_step al e fd events t)" if "client_fd (fst t) = a" for t
    using that resp_code_keeps by (cases t) auto
  have headers: "keeps a (parsing_resp_headers_step al e fd events b t)" if "client_fd (fst t) = a" for b t
    using that resp_headers_keeps by (cases t) auto
  show ?thesis unfolding handle_resp_def
    by (rule keeps_flag[OF code[OF assms] assms], unfold prod.case, rule keeps_flag[OF headers], assumption+)
      (simp add: body_keeps)
qed

lemma handle_keeps:
  assumes "client_fd ctx = a"
  shows "keeps a (handle al e fd events (ctx, w))"
proof -
  define w1 where "w1 = (if client_fd ctx \<noteq> last_fd w then w\<lparr>last_fd := client_fd ctx\<rparr> else w)"
  have rest: "keeps a (if handling_step (fst t) = PARSING_REQ_HEADERS then parsing_req_headers_step al e fd events b t
      else if handling_step (fst t) = CONNECT_STEP then connect_step al e fd events t
      else if handling_step (fst t) = SENDING_REQ then sending_req_step e fd events t
      else handle_resp al e fd events b t)" if "client_fd (fst t) = a" for b t
    using that by (cases t) (simp add: req_headers_keeps connect_keeps sending_keeps resp_keeps)
  have "client_fd (fst (ctx, w1)) = a" using assms by simp
  then show ?thesis unfolding handle_def Let_def fst_conv snd_conv w1_def[symmetric]
    by (intro keeps_flag[OF req_type_keeps[OF assms]]) (simp_all only: prod.case fst_conv rest)
qed

end
