(* ===== verification/Proxy_Main.thy ===== *)
theory Proxy_Main
  imports Handler_Relay Handler_Frame
begin

text \<open>
  \<open>proxy/proxy.c\<close>: \<open>find_context\<close> and the rounds of the event loop of \<open>main\<close>. The contexts are a
  block of 100 cells and a count, the descriptors an array of 200 entries of which the first
  \<open>fds_count\<close> are used; writing past either is undefined. A round gets what its system calls
  return, the \<open>revents\<close> filled in by \<open>poll\<close> included.
\<close>

section \<open>State\<close>

record pollfd =
  pfd :: int
  pevents :: int
  revents :: int

record proxy_t =
  servsock :: int
  fds :: "pollfd list"
  context1 :: "handler_context_t block"
  contexts_count :: nat
  shared :: world

record round_env =
  re_poll :: int
  re_revents :: "nat \<Rightarrow> int"
  re_accept :: int
  re_setsockopt :: int
  re_env :: "nat \<Rightarrow> env"
  re_junk :: handler_context_t

definition MAX_CONTEXTS :: nat where
  "MAX_CONTEXTS = 100"

definition MAX_FDS :: nat where
  "MAX_FDS = 200"

section \<open>Operations\<close>

fun find_from :: "handler_context_t block \<Rightarrow> nat \<Rightarrow> nat \<Rightarrow> int \<Rightarrow> int res" where
  "find_from b 0 i fd = Inr (-1)"
| "find_from b (Suc k) i fd =
     bind_r (load b i) (\<lambda>ctx.
     if client_fd ctx = fd \<or> server_fd ctx = fd then Inr (int i) else find_from b k (i + 1) fd)"

definition find_context :: "handler_context_t block \<Rightarrow> nat \<Rightarrow> int \<Rightarrow> int res" where
  "find_context b n fd = find_from b n 0 fd"

text \<open>Before the loop; \<open>context1\<close> is not checked for null, and a refused \<open>malloc\<close> is a null block.\<close>

definition proxy_start :: "bool \<Rightarrow> int \<Rightarrow> world \<Rightarrow> proxy_t" where
  "proxy_start granted sfd w =
     \<lparr>servsock = sfd, fds = [\<lparr>pfd = sfd, pevents = POLLIN, revents = 0\<rparr>],
      context1 = (if granted then fresh_block MAX_CONTEXTS else null_block), contexts_count = 0, shared = w\<rparr>"

definition poll_fds :: "round_env \<Rightarrow> proxy_t \<Rightarrow> proxy_t" where
  "poll_fds r p = p\<lparr>fds := map (\<lambda>i. (fds p ! i)\<lparr>revents := re_revents r i\<rparr>) [0..<length (fds p)]\<rparr>"

definition accept_client :: "allocator \<Rightarrow> round_env \<Rightarrow> proxy_t \<Rightarrow> proxy_t res" where
  "accept_client al r p =
     (if has_event (revents (hd (fds p))) POLLIN then
        let new_fd = accept_servsock (re_accept r) 0 (\<lambda>_. 0) False in
        bind_r (assert_r (new_fd \<noteq> status_code ERROR)) (\<lambda>_.
        bind_r (assert_r (\<not> re_setsockopt r < 0)) (\<lambda>_.
        bind_r (init_context al (re_junk r) new_fd) (\<lambda>ctx.
        bind_r (store (context1 p) (contexts_count p) ctx) (\<lambda>b.
        Inr (p\<lparr>context1 := b, contexts_count := contexts_count p + 1\<rparr>)))))
      else Inr p)"

text \<open>
  One iteration of the loop over the descriptors. Removing a context is the loop
  \<open>for (j = ind; j < contexts_count; ++j) memcpy(context1 + j, context1 + j + 1, ...)\<close>.
\<close>

definition remove_context :: "nat \<Rightarrow> proxy_t \<Rightarrow> proxy_t res" where
  "remove_context ind p =
     bind_r (remove_loop (contexts_count p - ind) (context1 p) ind) (\<lambda>b.
     Inr (p\<lparr>context1 := b, contexts_count := contexts_count p - 1\<rparr>))"

definition wanted :: "handler_context_t \<Rightarrow> pollfd \<Rightarrow> bool" where
  "wanted ctx f =
     (client_fd ctx = pfd f \<and> has_event (client_events ctx) (revents f) \<or>
      server_fd ctx = pfd f \<and> has_event (server_events ctx) (revents f))"

definition serve_fd :: "allocator \<Rightarrow> env \<Rightarrow> pollfd \<Rightarrow> proxy_t \<Rightarrow> proxy_t res" where
  "serve_fd al e f p =
     bind_r (find_context (context1 p) (contexts_count p) (pfd f)) (\<lambda>ind.
     bind_r (assert_r (ind \<noteq> -1)) (\<lambda>_.
     let ind = nat ind in
     bind_r (load (context1 p) ind) (\<lambda>ctx.
     if wanted ctx f then
       bind_r (handle al e (pfd f) (revents f) (ctx, shared p)) (\<lambda>(ctx, w).
       bind_r (store (context1 p) ind ctx) (\<lambda>b.
       let p = p\<lparr>context1 := b, shared := w\<rparr> in
       if finished ctx then remove_context ind p else Inr p))
     else Inr p)))"

fun serve_fds :: "allocator \<Rightarrow> (nat \<Rightarrow> env) \<Rightarrow> nat \<Rightarrow> pollfd list \<Rightarrow> proxy_t \<Rightarrow> proxy_t res" where
  "serve_fds al envs i [] p = Inr p"
| "serve_fds al envs i (f # fs) p = bind_r (serve_fd al (envs i) f p) (serve_fds al envs (i + 1) fs)"

text \<open>Rebuilding \<open>fds\<close>: the descriptors with events to wait for, client before server.\<close>

definition put_fd :: "int \<Rightarrow> int \<Rightarrow> pollfd list \<Rightarrow> pollfd list res" where
  "put_fd fd ev out =
     bind_r (defined_r (length out < MAX_FDS)) (\<lambda>_. Inr (out @ [\<lparr>pfd = fd, pevents = ev, revents = 0\<rparr>]))"

fun collect_fds :: "nat \<Rightarrow> handler_context_t block \<Rightarrow> nat \<Rightarrow> pollfd list \<Rightarrow> pollfd list res" where
  "collect_fds 0 b i out = Inr out"
| "collect_fds (Suc k) b i out =
     bind_r (load b i) (\<lambda>ctx.
     bind_r (if client_events ctx \<noteq> 0 then put_fd (client_fd ctx) (client_events ctx) out else Inr out) (\<lambda>out.
     bind_r (if server_events ctx \<noteq> 0 \<and> server_fd ctx \<noteq> -1
             then put_fd (server_fd ctx) (server_events ctx) out else Inr out) (\<lambda>out.
     collect_fds k b (i + 1) out)))"

definition proxy_round :: "allocator \<Rightarrow> round_env \<Rightarrow> proxy_t \<Rightarrow> proxy_t res" where
  "proxy_round al r p =
     bind_r (assert_r (re_poll r \<noteq> -1)) (\<lambda>_.
     let p = poll_fds r p in
     bind_r (accept_client al r p) (\<lambda>p.
     bind_r (serve_fds al (re_env r) 1 (tl (fds p)) p) (\<lambda>p.
     bind_r (collect_fds (contexts_count p) (context1 p) 0
               [\<lparr>pfd = servsock p, pevents = POLLIN, revents = 0\<rparr>]) (\<lambda>out.
     Inr (p\<lparr>fds := out\<rparr>)))))"

section \<open>Lookup\<close>

text \<open>The contexts in use, as a list.\<close>

definition contexts_are :: "handler_context_t block \<Rightarrow> nat \<Rightarrow> handler_context_t list \<Rightarrow> bool" where
  "contexts_are b n xs =
     (n = length xs \<and> n \<le> blk_len b \<and> (\<forall>i < n. blk_cell b i = Some (xs ! i)))"

definition owns :: "int \<Rightarrow> handler_context_t \<Rightarrow> bool" where
  "owns fd ctx = (client_fd ctx = fd \<or> server_fd ctx = fd)"

lemma load_contexts: "contexts_are b n xs \<Longrightarrow> i < n \<Longrightarrow> load b i = Inr (xs ! i)"
  by (simp add: contexts_are_def load_Inr)

lemma find_from_index:
  assumes "contexts_are b n xs" and "i + k = n"
  shows "find_from b k i fd =
    Inr (case first_index (owns fd) (drop i xs) of None \<Rightarrow> -1 | Some j \<Rightarrow> int (i + j))"
  using assms(2)
proof (induction k arbitrary: i)
  case 0
  then show ?case using assms(1) by (simp add: contexts_are_def)
next
  case (Suc k)
  then have i: "i < length xs" using assms(1) by (simp add: contexts_are_def)
  have "drop i xs = xs ! i # drop (Suc i) xs" using i by (rule Cons_nth_drop_Suc[symmetric])
  then show ?case using Suc.IH[of "i + 1"] Suc.prems load_contexts[OF assms(1), of i]
    by (auto simp: owns_def split: option.split)
qed

lemma find_context_index:
  "contexts_are b n xs \<Longrightarrow>
   find_context b n fd = Inr (case first_index (owns fd) xs of None \<Rightarrow> -1 | Some j \<Rightarrow> int j)"
  using find_from_index[of b n xs 0 n fd] by (simp add: find_context_def split: option.split)


lemma find_context_owner:
  assumes "contexts_are b n xs"
  obtains (none) "find_context b n fd = Inr (-1)" "\<forall>ctx \<in> set xs. \<not> owns fd ctx"
    | (some) i where "find_context b n fd = Inr (int i)" "i < length xs" "owns fd (xs ! i)"
      "first_index (owns fd) xs = Some i"
proof (cases "first_index (owns fd) xs")
  case None
  then have "find_context b n fd = Inr (-1)" using find_context_index[OF assms, of fd] by simp
  then show ?thesis using none None by (simp add: first_index_None)
next
  case (Some i)
  then have "find_context b n fd = Inr (int i)" using find_context_index[OF assms, of fd] by simp
  then show ?thesis using some Some by (simp add: first_index_Some)
qed

section \<open>Rebuilding the descriptors\<close>

definition fds_of :: "handler_context_t \<Rightarrow> pollfd list" where
  "fds_of ctx =
     (if client_events ctx \<noteq> 0 then [\<lparr>pfd = client_fd ctx, pevents = client_events ctx, revents = 0\<rparr>] else []) @
     (if server_events ctx \<noteq> 0 \<and> server_fd ctx \<noteq> -1
      then [\<lparr>pfd = server_fd ctx, pevents = server_events ctx, revents = 0\<rparr>] else [])"

lemma fds_of_owned: "f \<in> set (fds_of ctx) \<Longrightarrow> owns (pfd f) ctx"
  by (auto simp: fds_of_def owns_def split: if_splits)

lemma fds_of_length: "length (fds_of ctx) \<le> 2"
  by (simp add: fds_of_def)

lemma collect_fds_from:
  assumes "contexts_are b n xs" and "i + k = n"
    and "length out + length (concat (map fds_of (drop i xs))) \<le> MAX_FDS"
  shows "collect_fds k b i out = Inr (out @ concat (map fds_of (drop i xs)))"
  using assms(2,3)
proof (induction k arbitrary: i out)
  case 0
  then show ?case using assms(1) by (simp add: contexts_are_def)
next
  case (Suc k)
  then have i: "i < length xs" using assms(1) by (simp add: contexts_are_def)
  have d: "drop i xs = xs ! i # drop (Suc i) xs" using i by (rule Cons_nth_drop_Suc[symmetric])
  have ld: "load b i = Inr (xs ! i)" using load_contexts[OF assms(1), of i] Suc.prems by simp
  have fit: "length out + length (fds_of (xs ! i)) + length (concat (map fds_of (drop (Suc i) xs))) \<le> MAX_FDS"
    using Suc.prems(2) by (simp add: d)
  have IH: "collect_fds k b (Suc i) (out @ fds_of (xs ! i)) =
      Inr (out @ fds_of (xs ! i) @ concat (map fds_of (drop (Suc i) xs)))"
    using Suc.IH[of "Suc i" "out @ fds_of (xs ! i)"] Suc.prems(1) fit by simp
  have "collect_fds (Suc k) b i out = collect_fds k b (Suc i) (out @ fds_of (xs ! i))"
    using fit by (auto simp: ld put_fd_def fds_of_def split: if_splits)
  then show ?case using IH d by simp
qed

lemma fds_total: "length (concat (map fds_of xs)) \<le> 2 * length xs"
proof (induction xs)
  case (Cons x xs)
  then show ?case using fds_of_length[of x] by simp
qed simp

text \<open>
  With at most 99 contexts the array is large enough, and every descriptor polled next belongs to
  a context.
\<close>

lemma collect_fds_owned:
  assumes "contexts_are b n xs" and "n < MAX_CONTEXTS"
  shows "collect_fds n b 0 [l] = Inr (l # concat (map fds_of xs)) \<and>
    (\<forall>f \<in> set (concat (map fds_of xs)). \<exists>ctx \<in> set xs. owns (pfd f) ctx)"
proof
  have "length (concat (map fds_of xs)) \<le> 2 * n"
    using fds_total[of xs] assms(1) by (simp add: contexts_are_def)
  then show "collect_fds n b 0 [l] = Inr (l # concat (map fds_of xs))"
    using collect_fds_from[OF assms(1), of 0 n "[l]"] assms(2) by (simp add: MAX_CONTEXTS_def MAX_FDS_def)
  show "\<forall>f \<in> set (concat (map fds_of xs)). \<exists>ctx \<in> set xs. owns (pfd f) ctx"
    using fds_of_owned by auto
qed

section \<open>Serving a descriptor\<close>

lemma contexts_store:
  assumes "contexts_are b n xs" and "i < n"
  shows "\<exists>b'. store b i ctx = Inr b' \<and> contexts_are b' n (xs[i := ctx]) \<and> blk_len b' = blk_len b"
  using assms by (auto simp: contexts_are_def nth_list_update)

lemma contexts_remove:
  assumes "contexts_are (context1 p) (contexts_count p) xs" and "i < length xs"
    and "contexts_count p < blk_len (context1 p)"
  shows "\<exists>p'. remove_context i p = Inr p' \<and> contexts_count p' = contexts_count p - 1 \<and>
    contexts_are (context1 p') (contexts_count p') (take i xs @ drop (Suc i) xs) \<and> shared p' = shared p \<and>
    blk_len (context1 p') = blk_len (context1 p) \<and> fds p' = fds p \<and> servsock p' = servsock p"
proof -
  have n: "contexts_count p = length xs" using assms(1) by (simp add: contexts_are_def)
  obtain b where b: "remove_loop (contexts_count p - i) (context1 p) i = Inr b"
      "blk_len b = blk_len (context1 p)"
      "\<forall>j. blk_cell b j = (if i \<le> j \<and> j < length xs then blk_cell (context1 p) (j + 1) else blk_cell (context1 p) j)"
    using remove_loop_ok[of i "contexts_count p - i" "context1 p"] assms n by auto
  have "contexts_are b (length xs - 1) (take i xs @ drop (Suc i) xs)"
    using b assms n by (auto simp: contexts_are_def nth_append)
  then show ?thesis using b n by (auto simp: remove_context_def)
qed

text \<open>Every context in use satisfies the invariant of its connection, with its own traffic.\<close>

definition proxy_inv :: "proxy_t \<Rightarrow> handler_context_t list \<Rightarrow> io list list \<Rightarrow> bool" where
  "proxy_inv p xs Ls =
     (contexts_are (context1 p) (contexts_count p) xs \<and> blk_len (context1 p) = MAX_CONTEXTS \<and>
      (\<exists>P. world_is (shared p) P) \<and> list_all2 (\<lambda>L ctx. \<exists>c s. conn L ctx c s) Ls xs)"

text \<open>
  What serving a descriptor does to the contexts and to their logs: nothing, or one context has new
  traffic, or one context has finished and is gone.
\<close>

definition served :: "io list \<Rightarrow> handler_context_t list \<Rightarrow> io list list \<Rightarrow> handler_context_t list \<Rightarrow> io list list \<Rightarrow> bool" where
  "served es xs Ls xs' Ls' =
     (es = [] \<and> xs' = xs \<and> Ls' = Ls \<or>
      (\<exists>i ctx'. i < length xs \<and> client_fd ctx' = client_fd (xs ! i) \<and>
         (xs' = xs[i := ctx'] \<and> Ls' = Ls[i := Ls ! i @ es] \<or>
          xs' = take i xs @ drop (Suc i) xs \<and> Ls' = take i Ls @ drop (Suc i) Ls \<and> closed (Ls ! i @ es) ctx')))"

lemma served_length: "served es xs Ls xs' Ls' \<Longrightarrow> length xs' \<le> length xs"
  by (auto simp: served_def)

text \<open>Whether serving a descriptor is the failing first write of a response.\<close>

definition breaks_at :: "env \<Rightarrow> pollfd \<Rightarrow> handler_context_t list \<Rightarrow> bool" where
  "breaks_at e f xs =
     (case first_index (owns (pfd f)) xs of
        None \<Rightarrow> False
      | Some i \<Rightarrow> wanted (xs ! i) f \<and> first_write_fails e (pfd f) (revents f) (xs ! i))"

lemma serve_fd_breaks:
  assumes inv: "proxy_inv p xs Ls" and br: "breaks_at e f xs"
  shows "serve_fd al e f p = Inl Undefined"
proof -
  have ca: "contexts_are (context1 p) (contexts_count p) xs" using inv by (simp add: proxy_inv_def)
  obtain i where i: "first_index (owns (pfd f)) xs = Some i" "wanted (xs ! i) f"
      "first_write_fails e (pfd f) (revents f) (xs ! i)"
    using br by (auto simp: breaks_at_def split: option.splits)
  have lt: "i < length xs" using i(1) by (simp add: first_index_Some)
  then obtain c s where "conn (Ls ! i) (xs ! i) c s"
    using inv by (auto simp: proxy_inv_def list_all2_conv_all_nth)
  then have "handle al e (pfd f) (revents f) (xs ! i, shared p) = Inl Undefined"
    using i(3) by (rule handle_first_write)
  moreover have "load (context1 p) i = Inr (xs ! i)" using load_contexts[OF ca] lt ca by (simp add: contexts_are_def)
  ultimately show ?thesis using find_context_index[OF ca, of "pfd f"] i(1,2) by (simp add: serve_fd_def)
qed

lemma serve_fd_safe:
  assumes inv: "proxy_inv p xs Ls" and al: "al_ok al" and room: "contexts_count p < MAX_CONTEXTS"
    and fine: "\<forall>ctx \<in> set xs. owns (pfd f) ctx \<longrightarrow> event_fine al e ctx"
    and unbroken: "\<not> breaks_at e f xs"
  shows "safe (serve_fd al e f p) (\<lambda>p'. (\<exists>xs' Ls' es. proxy_inv p' xs' Ls' \<and> served es xs Ls xs' Ls' \<and>
      w_io (shared p') = w_io (shared p) @ es) \<and> fds p' = fds p \<and> servsock p' = servsock p)"
proof -
  have ca: "contexts_are (context1 p) (contexts_count p) xs" and bl: "blk_len (context1 p) = MAX_CONTEXTS"
    using inv by (simp_all add: proxy_inv_def)
  obtain P where P: "world_is (shared p) P" using inv by (auto simp: proxy_inv_def)
  have n: "contexts_count p = length xs" using ca by (simp add: contexts_are_def)
  show ?thesis
  proof (rule find_context_owner[OF ca, of "pfd f"])
    assume "find_context (context1 p) (contexts_count p) (pfd f) = Inr (-1)"
    then show ?thesis by (simp add: serve_fd_def)
  next
    fix i
    assume i: "find_context (context1 p) (contexts_count p) (pfd f) = Inr (int i)" "i < length xs"
      "owns (pfd f) (xs ! i)" "first_index (owns (pfd f)) xs = Some i"
    let ?ctx = "xs ! i"
    have ld: "load (context1 p) i = Inr ?ctx" using load_contexts[OF ca] i n by simp
    have serve: "serve_fd al e f p =
        (if wanted ?ctx f then
           bind_r (handle al e (pfd f) (revents f) (?ctx, shared p)) (\<lambda>(ctx, w).
           bind_r (store (context1 p) i ctx) (\<lambda>b.
           let p = p\<lparr>context1 := b, shared := w\<rparr> in if finished ctx then remove_context i p else Inr p))
         else Inr p)"
      using i(1) by (simp add: serve_fd_def ld)
    show ?thesis
    proof (cases "wanted ?ctx f")
      case False
      then show ?thesis using inv unfolding serve by (auto simp: served_def)
    next
      case True
      have cn: "\<exists>c s. conn (Ls ! i) ?ctx c s" and len: "length Ls = length xs"
        using inv i(2) by (auto simp: proxy_inv_def list_all2_conv_all_nth)
      then obtain c s where c: "conn (Ls ! i) ?ctx c s" by blast
      have fi: "event_fine al e ?ctx" using fine i(2,3) by simp
      have wr: "\<not> first_write_fails e (pfd f) (revents f) ?ctx" using unbroken i(4) True by (simp add: breaks_at_def)
      show ?thesis unfolding serve using True
      proof (simp only: if_True, rule_tac safe_bind[OF handle_conn[OF c P al fi wr]])
        fix st'
        assume h: "handle al e (pfd f) (revents f) (?ctx, shared p) = Inr st'" and g: "good (w_io (shared p)) (Ls ! i) (reach e c s) st'"
        obtain ctx' w' where st': "st' = (ctx', w')" by (cases st')
        have keep: "client_fd ctx' = client_fd ?ctx"
          using keepsD[OF handle_keeps[OF refl] h] by (simp add: st')
        obtain es P' where es: "world_is w' P'" "w_io w' = w_io (shared p) @ es"
            "if finished ctx' then closed (Ls ! i @ es) ctx' else \<exists>c s. conn (Ls ! i @ es) ctx' c s"
          using g unfolding st' good_def prod.case by (elim exE conjE) (auto split: if_splits)
        obtain b where b: "store (context1 p) i ctx' = Inr b" "contexts_are b (contexts_count p) (xs[i := ctx'])"
            "blk_len b = MAX_CONTEXTS"
          using contexts_store[OF ca, of i ctx'] i(2) n bl by auto
        let ?p = "p\<lparr>context1 := b, shared := w'\<rparr>"
        show "safe (case st' of (ctx, w) \<Rightarrow> bind_r (store (context1 p) i ctx) (\<lambda>b.
           let p = p\<lparr>context1 := b, shared := w\<rparr> in if finished ctx then remove_context i p else Inr p))
           (\<lambda>p'. (\<exists>xs' Ls' es. proxy_inv p' xs' Ls' \<and> served es xs Ls xs' Ls' \<and>
             w_io (shared p') = w_io (shared p) @ es) \<and> fds p' = fds p \<and> servsock p' = servsock p)"
        proof (cases "finished ctx'")
          case False
          then obtain c' s' where c': "conn (Ls ! i @ es) ctx' c' s'" using es(3) by auto
          have "list_all2 (\<lambda>L ctx. \<exists>c s. conn L ctx c s) (Ls[i := Ls ! i @ es]) (xs[i := ctx'])"
            using inv c' by (intro list_all2_update_cong) (auto simp: proxy_inv_def)
          then have "proxy_inv ?p (xs[i := ctx']) (Ls[i := Ls ! i @ es])"
            using b es(1) by (auto simp: proxy_inv_def)
          moreover have "served es xs Ls (xs[i := ctx']) (Ls[i := Ls ! i @ es])"
            unfolding served_def using i(2) keep by blast
          ultimately show ?thesis using False b(1) es(2) by (simp add: st' Let_def) blast
        next
          case True
          obtain p' where p': "remove_context i ?p = Inr p'"
              "contexts_are (context1 p') (contexts_count p') (take i xs @ drop (Suc i) xs)"
              "shared p' = w'" "blk_len (context1 p') = MAX_CONTEXTS" "fds p' = fds p"
              "servsock p' = servsock p"
            using contexts_remove[of ?p "xs[i := ctx']" i] b i(2) room by (auto simp: drop_update_cancel)
          have "list_all2 (\<lambda>L ctx. \<exists>c s. conn L ctx c s) (take i Ls @ drop (Suc i) Ls) (take i xs @ drop (Suc i) xs)"
            using inv by (auto simp: proxy_inv_def intro!: list_all2_appendI)
          then have "proxy_inv p' (take i xs @ drop (Suc i) xs) (take i Ls @ drop (Suc i) Ls)"
            using p' es(1) by (auto simp: proxy_inv_def)
          moreover have "served es xs Ls (take i xs @ drop (Suc i) xs) (take i Ls @ drop (Suc i) Ls)"
            unfolding served_def using i(2) keep es(3) True by auto
          ultimately show ?thesis using True b(1) p'(1,3,5,6) es(2) by (simp add: st' Let_def) blast
        qed
      qed
    qed
  qed
qed


section \<open>A context that goes away with a descriptor still to serve\<close>

text \<open>
  While a response is being received both descriptors of the connection are polled, the client's
  first. When the write to the client fails, the context is destroyed and removed; the loop then
  looks up the server's descriptor of the same connection, finds no context and ends the process.
\<close>

lemma handle_client_gone:
  assumes c: "conn L ctx c s" and st: "handling_step ctx = PARSING_RESP_BODY"
    and wr: "e_write e \<le> 0" and lt: "sended ctx < length s"
  shows "handle al e (client_fd ctx) events (ctx, w) = Inl Exit \<or>
    (\<exists>ctx' w'. handle al e (client_fd ctx) events (ctx, w) = Inr (ctx', w') \<and> finished ctx')"
proof -
  note h = holdsD[OF connD(3)[OF c]]
  have ne: "server_fd ctx \<noteq> client_fd ctx" using connD(8)[OF c] st by (simp add: traffic_def)
  have rd: "read_bytes (ptr (sbuff ctx)) (sended ctx) (length s - sended ctx) = Inr (drop (sended ctx) s)"
    using read_bytes_represents[OF h(1), of "sended ctx" "length s - sended ctx"] lt by simp
  have k: "\<not> 0 < sys_write e x" for x using wr by (simp add: sys_write_def)
  have n: "cnt (sbuff ctx) = length s" "sz_sub (length s) (sended ctx) = length s - sended ctx"
    using h lt by simp_all
  define w1 where "w1 = (if client_fd ctx \<noteq> last_fd w then w\<lparr>last_fd := client_fd ctx\<rparr> else w)"
  obtain ctx' cs where d: "destroy_context (ctx, w1) = Inr (ctx', log_io cs w1)"
      "handling_step ctx' = HANDLED_EXCEPTIONALLY"
    using destroy_context_live[OF connD(6)[OF c], of w1] by blast
  have "send_resp_in_receiving e (client_fd ctx) events (ctx, w1) =
      (if raises_sigpipe e then Inl Exit else Inr (ctx', log_io cs w1))"
    using st lt k d(1) by (simp add: send_resp_in_receiving_def n rd)
  then have "handle al e (client_fd ctx) events (ctx, w) =
      (if raises_sigpipe e then Inl Exit else Inr (ctx', log_io cs w1))"
    using st ne by (auto simp: handle_def handle_resp_def handle_body_def w1_def Let_def split: if_splits)
  then show ?thesis using d(2) by (auto simp: finished_def)
qed

lemma first_index_only:
  assumes "k < length xs" and "P (xs ! k)" and "\<And>j. j < length xs \<Longrightarrow> j \<noteq> k \<Longrightarrow> \<not> P (xs ! j)"
  shows "first_index P xs = Some k"
proof (cases "first_index P xs")
  case None
  then show ?thesis using assms(1,2) by (auto simp: first_index_None)
next
  case (Some i)
  then have "i < length xs" "P (xs ! i)" by (simp_all add: first_index_Some)
  then show ?thesis using Some assms(3)[of i] by auto
qed

lemma serve_gone_exits:
  assumes ca: "contexts_are (context1 p) (contexts_count p) xs" and bl: "blk_len (context1 p) = MAX_CONTEXTS"
    and few: "length xs < MAX_CONTEXTS" and k: "k < length xs"
    and others: "\<And>j. j < length xs \<Longrightarrow> j \<noteq> k \<Longrightarrow> \<not> owns (client_fd (xs ! k)) (xs ! j) \<and> \<not> owns (server_fd (xs ! k)) (xs ! j)"
    and c: "conn L (xs ! k) c s" and st: "handling_step (xs ! k) = PARSING_RESP_BODY"
    and wr: "e_write (envs i) \<le> 0" and lt: "sended (xs ! k) < length s"
    and f: "pfd f = client_fd (xs ! k)" "wanted (xs ! k) f" and g: "pfd g = server_fd (xs ! k)"
  shows "serve_fds al envs i (f # g # fs) p = Inl Exit"
proof -
  let ?ctx = "xs ! k"
  have n: "contexts_count p = length xs" using ca by (simp add: contexts_are_def)
  have "first_index (owns (client_fd ?ctx)) xs = Some k"
    using others by (intro first_index_only[OF k]) (simp_all add: owns_def)
  then have find1: "find_context (context1 p) (contexts_count p) (client_fd ?ctx) = Inr (int k)"
    using find_context_index[OF ca, of "client_fd ?ctx"] by simp
  have ld: "load (context1 p) k = Inr ?ctx" using load_contexts[OF ca, of k] n k by simp
  consider (pipe) "handle al (envs i) (client_fd ?ctx) (revents f) (?ctx, shared p) = Inl Exit"
    | (gone) ctx' w' where "handle al (envs i) (client_fd ?ctx) (revents f) (?ctx, shared p) = Inr (ctx', w')" "finished ctx'"
    using handle_client_gone[where al = al and events = "revents f" and w = "shared p", OF c st wr lt] by blast
  then show ?thesis
  proof cases
    case pipe
    then show ?thesis using f by (simp add: serve_fd_def f(1) find1 ld)
  next
    case h: gone
    obtain b where b: "store (context1 p) k ctx' = Inr b" "contexts_are b (contexts_count p) (xs[k := ctx'])"
        "blk_len b = MAX_CONTEXTS"
      using contexts_store[OF ca, of k ctx'] n bl k by auto
    let ?p = "p\<lparr>context1 := b, shared := w'\<rparr>" and ?rest = "take k xs @ drop (Suc k) xs"
    obtain p' where p': "remove_context k ?p = Inr p'" "contexts_are (context1 p') (contexts_count p') ?rest"
      using contexts_remove[of ?p "xs[k := ctx']" k] b n k few by (auto simp: drop_update_cancel)
    have "serve_fd al (envs i) f p = Inr p'"
      using f h b(1) p'(1) by (simp add: serve_fd_def f(1) find1 ld Let_def)
    moreover have "first_index (owns (pfd g)) ?rest = None"
      using others k unfolding first_index_None g by (auto simp: in_set_conv_nth)
    then have "serve_fd al (envs (i + 1)) g p' = Inl Exit"
      using find_context_index[OF p'(2), of "pfd g"] by (simp add: serve_fd_def)
    ultimately show ?thesis by simp
  qed
qed

text \<open>The two entries of a connection that has both descriptors polled: the client's, then the server's.\<close>

lemma fds_of_both:
  "map pfd (fds_of ctx) = [a, b] \<Longrightarrow> a = client_fd ctx \<and> b = server_fd ctx"
  by (auto simp: fds_of_def split: if_splits)

end
