(* ===== verification/Samples.thy ===== *)
theory Samples
  imports Proxy_Main
begin

text \<open>
  Concrete states of the proxy, used to show that the hypotheses of the properties can hold: a
  vector and a buffer with given contents, a request with a Host header, a context in each phase
  and an empty shared table.
\<close>

definition vec_of :: "'a list \<Rightarrow> nat \<Rightarrow> 'a vec" where
  "vec_of xs k =
     \<lparr>ptr = \<lparr>blk_len = length xs + k, blk_cell = (\<lambda>i. if i < length xs then Some (xs ! i) else None)\<rparr>,
      cnt = length xs, capacity = length xs + k\<rparr>"

lemma vec_of_represents: "elem_size esz \<Longrightarrow> (length xs + k) * esz < ADDRESS_SPACE \<Longrightarrow> represents esz (vec_of xs k) xs"
  by (simp add: represents_def vec_of_def)

definition buffer_of :: "char list \<Rightarrow> char vec" where
  "buffer_of bs =
     \<lparr>ptr = \<lparr>blk_len = length bs + 1, blk_cell = (\<lambda>i. if i < length bs then Some (bs ! i)
                                                     else if i = length bs then Some NUL else None)\<rparr>,
      cnt = length bs, capacity = length bs + 1\<rparr>"

lemma holds_buffer_of: "length bs < 1000 \<Longrightarrow> holds (buffer_of bs) bs"
  by (simp add: holds_def buffer_of_def represents_def CHAR_SIZE_def elem_size_def ADDRESS_SPACE_eq)

definition a_request :: request_t where
  "a_request = \<lparr>req_type = Str ''GET'', uri = Str ''/'', req_version = Str ''HTTP/1.1'',
     req_headers = vec_of [hdr (''Host'', ''a.b'')] 0, req_body = Null\<rparr>"

definition a_response :: response_t where
  "a_response = \<lparr>resp_version = Null, code = Null, resp_headers = vec_of [] 0, resp_body = Null, content_length = 0\<rparr>"

lemma a_request_live: "live_request a_request [(''Host'', ''a.b'')]"
  by (simp add: live_request_def a_request_def headers_are_def vec_of_represents HEADER_SIZE_def elem_size_def ADDRESS_SPACE_eq)

lemma a_request_is: "request_is a_request (''a.b'', ''GET'', ''HTTP/1.1'', ''/'') [(''Host'', ''a.b'')]"
  using a_request_live by (simp add: request_is_def live_request_def a_request_def host_of_def)

lemma a_request_valid: "valid_key a_request" "line_parsed a_request"
proof -
  show "valid_key a_request" using a_request_is unfolding valid_key_def has_view_def by blast
  show "line_parsed a_request" by (simp add: line_parsed_def a_request_def)
qed

lemma a_response_live: "live_response a_response []"
  by (simp add: live_response_def a_response_def headers_are_def vec_of_represents HEADER_SIZE_def elem_size_def ADDRESS_SPACE_eq)

definition a_context :: "HandlingStep \<Rightarrow> char list \<Rightarrow> char list \<Rightarrow> nat \<Rightarrow> handler_context_t" where
  "a_context st c s k =
     \<lparr>client_fd = 5, server_fd = (if phase st < 2 then -1 else 7),
      connection_state = (if phase st < 2 then NOT_CONNECTED else CONNECTED),
      client_events = POLLOUT, server_events = POLLIN, request = a_request, response = a_response,
      cbuff = buffer_of c, cppos = 0, sended = k, read_cnt = 0, sbuff = buffer_of s, sppos = 0,
      chunk_size = -1, chunk_read = 0, handling_step = st\<rparr>"

definition new_context :: handler_context_t where
  "new_context = (a_context PARSING_REQ_TYPE [] [] 0)\<lparr>client_events := POLLIN, server_events := 0, request := request_init a_request\<rparr>"

definition a_world :: world where
  "a_world =
     \<lparr>w_hm = \<lparr>hash = request_hash, equals = request_equals, buckets = (\<lambda>_. None), key_size = REQUEST_SIZE,
              value_size = VCHAR_SIZE\<rparr>,
      w_cells = \<lparr>key_at = (\<lambda>_. None), val_at = (\<lambda>_. None)\<rparr>, w_next = 0, last_fd = -1, w_io = []\<rparr>"

definition an_env :: "char list option \<Rightarrow> int \<Rightarrow> env" where
  "an_env r k =
     \<lparr>e_read = r, e_write = k, e_epipe = False, e_getsockopt = 0, e_so_error = 0, e_socket = 7,
      e_resolve = (\<lambda>_. Some \<lparr>h_addr = [127, 0, 0, 1], h_length = 4\<rparr>), e_connect = (\<lambda>_. -1),
      e_errno = EINPROGRESS,
      e_junk_addr = \<lparr>sin_family = 0, sin_port = 0, s_addr = [0, 0, 0, 0], sin_zero = []\<rparr>\<rparr>"

lemma a_world_is: "world_is a_world (\<lambda>_. [])"
  by (simp add: world_is_def a_world_def table_def bucket_is_def unaliased_def places_def)

lemma an_env_ok: "client_fd ctx \<noteq> 7 \<Longrightarrow> env_ok (an_env r k) ctx"
  by (simp add: env_ok_def an_env_def resolver_ok_def)

lemma new_context_conn: "conn [] new_context [] []"
  using a_response_live live_request_init[of a_request] holds_buffer_of[of "[]"]
  by (auto simp: conn_defs new_context_def a_context_def client_only_def)

text \<open>A connection that has sent its request \<open>c\<close> and received \<open>s\<close>, of which \<open>k\<close> bytes went out.\<close>

definition a_log :: "char list \<Rightarrow> char list \<Rightarrow> nat \<Rightarrow> io list" where
  "a_log c s k = [Read 5 c, Write 7 c, Read 7 s, Write 5 (take k s)]"

lemma a_context_conn:
  assumes "st \<in> {PARSING_RESP_BODY, SENDING_RESP}" and "c \<noteq> []" "s \<noteq> []" "length c < 1000" "length s < 1000"
    and "k \<le> length s"
  shows "conn (a_log c s k) (a_context st c s k) c s"
  using assms holds_buffer_of[of c] holds_buffer_of[of s] a_request_valid a_request_live a_response_live
  by (auto simp: conn_defs a_context_def a_log_def)

lemma generous_data: "length c + length s < 1000 \<Longrightarrow> chunk_sizes_ok s \<Longrightarrow> data_ok generous c s"
  by (simp add: data_ok_def grants_upto_def generous_def VPAIR_SIZE_def ADDRESS_SPACE_eq)

lemma digits_value_bound: "digits_value 16 acc cs + 1 \<le> (acc + 1) * 16 ^ length cs"
proof (induction cs arbitrary: acc)
  case Nil
  then show ?case by simp
next
  case (Cons c cs)
  have "1 \<le> (16 :: nat) ^ length (c # cs)" by (rule one_le_power) simp
  then have "(acc + 1) * 1 \<le> (acc + 1) * 16 ^ length (c # cs)" by (rule mult_le_mono2)
  then have stop: "acc + 1 \<le> (acc + 1) * 16 ^ length (c # cs)" by (simp only: mult_1_right)
  show ?case
  proof (cases "digit_value c")
    case None
    then show ?thesis using stop by (simp del: power_Suc length_Cons)
  next
    case (Some d)
    show ?thesis
    proof (cases "d < 16")
      case False
      then show ?thesis using Some stop by (simp del: power_Suc length_Cons)
    next
      case True
      have "digits_value 16 (acc * 16 + d) cs + 1 \<le> (acc * 16 + d + 1) * 16 ^ length cs" by (rule Cons.IH)
      also have "\<dots> \<le> ((acc + 1) * 16) * 16 ^ length cs" by (rule mult_le_mono1) (use True in simp)
      finally show ?thesis using True Some by (simp add: algebra_simps)
    qed
  qed
qed

text \<open>A text of at most 15 bytes has no chunk size that overflows.\<close>

lemma strtol_16_short:
  assumes "length s \<le> 15"
  shows "strtol s 16 + 2 \<le> LONG_MAX"
proof -
  have d: "int (digits_value 16 0 cs) \<le> 16 ^ 15" if "length cs \<le> 15" for cs
  proof -
    have "digits_value 16 0 cs + 1 \<le> 16 ^ length cs" using digits_value_bound[of 0 cs] by simp
    also have "\<dots> \<le> (16 :: nat) ^ 15" by (rule power_increasing) (use that in simp_all)
    finally have "digits_value 16 0 cs \<le> 16 ^ 15" by simp
    then show ?thesis by (simp add: nat_le_iff[symmetric] del: nat_le_iff)
  qed
  have sk: "length (skip_0x 16 cs) \<le> length cs" for cs
    by (auto simp: skip_0x_def split: list.split)
  have cl: "clamp_long v + 2 \<le> LONG_MAX" if "v \<le> 16 ^ 15" for v
    using that by (auto simp: clamp_long_def LONG_MIN_def LONG_MAX_def)
  have neg: "- int n \<le> 16 ^ 15" for n by (rule order_trans[of _ 0]) simp_all
  have len: "length (dropWhile is_space s) \<le> 15" using length_dropWhile_le[of is_space s] assms by simp
  show ?thesis
  proof (cases "dropWhile is_space s")
    case Nil
    show ?thesis unfolding strtol_def Nil list.case by (simp add: LONG_MAX_def)
  next
    case (Cons c cs)
    have b: "length (skip_0x 16 cs) \<le> 15" "length (skip_0x 16 (c # cs)) \<le> 15"
      using sk[of cs] sk[of "c # cs"] len Cons by simp_all
    show ?thesis unfolding strtol_def Cons list.case
      using cl[OF neg] cl[OF d[OF b(1)]] cl[OF d[OF b(2)]] by (auto simp only: split: if_split)
  qed
qed

lemma chunk_sizes_ok_short: "length s \<le> 15 \<Longrightarrow> chunk_sizes_ok s"
proof -
  assume s: "length s \<le> 15"
  have "length (c_string (drop p s)) \<le> 15" for p
    using c_string_length[of "drop p s"] s by simp
  then show ?thesis by (simp add: chunk_sizes_ok_def strtol_16_short)
qed

lemma bytes_buffer_of: "length bs < 1000 \<Longrightarrow> bytes (buffer_of bs) = bs"
  by (rule bytes_holds[OF holds_buffer_of])

end
