(* ===== verification/Proxy_Run.thy ===== *)
theory Proxy_Run
  imports Proxy_Main
begin

text \<open>
  \<open>proxy/proxy.c\<close>: the whole run of \<open>main\<close>. From the start, whatever \<open>poll\<close>, \<open>accept\<close> and the calls of the
  handler return, round after round: as long as a new client finds at most 98 contexts in use and
  every event is as \<open>event_fine\<close> assumes, every array access stays in bounds and every connection
  keeps its invariant, unless the first write of a complete response fails (\<open>rounds_break\<close>); one
  client more than the block has room for is stored behind it.
\<close>

section \<open>The run\<close>

fun proxy_rounds :: "allocator \<Rightarrow> round_env list \<Rightarrow> proxy_t \<Rightarrow> proxy_t res" where
  "proxy_rounds al [] p = Inr p"
| "proxy_rounds al (r # rs) p = bind_r (proxy_round al r p) (proxy_rounds al rs)"

text \<open>The contexts in use.\<close>

definition used :: "proxy_t \<Rightarrow> handler_context_t list" where
  "used p = map (\<lambda>i. the (blk_cell (context1 p) i)) [0..<contexts_count p]"

lemma used_contexts: "contexts_are (context1 p) (contexts_count p) xs \<Longrightarrow> used p = xs"
  by (auto simp: contexts_are_def used_def intro: nth_equalityI)

text \<open>
  What a run assumes of its environment: the handler's assumption, for the context whose descriptor
  is served, at the state it is served in, and that a client is only accepted while at most 98
  contexts are in use.
\<close>

fun serve_fine :: "allocator \<Rightarrow> (nat \<Rightarrow> env) \<Rightarrow> nat \<Rightarrow> pollfd list \<Rightarrow> proxy_t \<Rightarrow> bool" where
  "serve_fine al envs i [] p = True"
| "serve_fine al envs i (f # fs) p =
     (list_all (\<lambda>ctx. owns (pfd f) ctx \<longrightarrow> event_fine al (envs i) ctx) (used p) \<and>
      (case serve_fd al (envs i) f p of Inr p' \<Rightarrow> serve_fine al envs (i + 1) fs p' | Inl _ \<Rightarrow> True))"

definition round_fine :: "allocator \<Rightarrow> round_env \<Rightarrow> proxy_t \<Rightarrow> bool" where
  "round_fine al r p =
     ((has_event (re_revents r 0) POLLIN \<longrightarrow> contexts_count p + 1 < MAX_CONTEXTS) \<and>
      (case accept_client al r (poll_fds r p) of
         Inr p' \<Rightarrow> serve_fine al (re_env r) 1 (tl (fds p')) p'
       | Inl _ \<Rightarrow> True))"

fun rounds_fine :: "allocator \<Rightarrow> round_env list \<Rightarrow> proxy_t \<Rightarrow> bool" where
  "rounds_fine al [] p = True"
| "rounds_fine al (r # rs) p =
     (round_fine al r p \<and> (case proxy_round al r p of Inr p' \<Rightarrow> rounds_fine al rs p' | Inl _ \<Rightarrow> True))"

text \<open>Whether the first write of a complete response fails, without a SIGPIPE, somewhere in a run.\<close>

fun serve_breaks :: "allocator \<Rightarrow> (nat \<Rightarrow> env) \<Rightarrow> nat \<Rightarrow> pollfd list \<Rightarrow> proxy_t \<Rightarrow> bool" where
  "serve_breaks al envs i [] p = False"
| "serve_breaks al envs i (f # fs) p =
     (breaks_at (envs i) f (used p) \<or>
      (case serve_fd al (envs i) f p of Inr p' \<Rightarrow> serve_breaks al envs (i + 1) fs p' | Inl _ \<Rightarrow> False))"

definition round_breaks :: "allocator \<Rightarrow> round_env \<Rightarrow> proxy_t \<Rightarrow> bool" where
  "round_breaks al r p =
     (re_poll r \<noteq> -1 \<and>
      (case accept_client al r (poll_fds r p) of
         Inr p' \<Rightarrow> serve_breaks al (re_env r) 1 (tl (fds p')) p'
       | Inl _ \<Rightarrow> False))"

fun rounds_break :: "allocator \<Rightarrow> round_env list \<Rightarrow> proxy_t \<Rightarrow> bool" where
  "rounds_break al [] p = False"
| "rounds_break al (r # rs) p =
     (round_breaks al r p \<or> (case proxy_round al r p of Inr p' \<Rightarrow> rounds_break al rs p' | Inl _ \<Rightarrow> False))"

section \<open>Whose traffic it is\<close>

text \<open>
  The log of the proxy is shared by all connections. A tagging says for each event which client,
  counted in the order of acceptance, it belongs to.
\<close>

type_synonym tagging = "(nat \<times> io) list"

definition log_of :: "tagging \<Rightarrow> nat \<Rightarrow> io list" where
  "log_of T k = map snd (filter (\<lambda>e. fst e = k) T)"

definition tagged :: "nat \<Rightarrow> io list \<Rightarrow> tagging" where
  "tagged k es = map (\<lambda>ev. (k, ev)) es"

lemma tagged_simps [simp]: "map snd (tagged k es) = es" "e \<in> set (tagged k es) \<Longrightarrow> fst e = k"
  by (auto simp: tagged_def o_def)

lemma log_of_append [simp]: "log_of (T @ U) k = log_of T k @ log_of U k"
  by (simp add: log_of_def)

lemma log_of_tagged [simp]: "log_of (tagged k es) j = (if j = k then es else [])"
  by (auto simp: log_of_def tagged_def filter_map o_def)

lemma log_of_new: "\<forall>e \<in> set T. fst e < k \<Longrightarrow> log_of T k = []"
  by (auto simp: log_of_def filter_empty_conv)

text \<open>A log that is on two descriptors only, what each side got being a prefix of what the other sent.\<close>

definition relayed :: "int \<Rightarrow> int \<Rightarrow> io list \<Rightarrow> bool" where
  "relayed a b L =
     (on_two a b L \<and> prefix (sent b L) (received a L) \<and> prefix (sent a L) (received b L))"

lemma conn_relayed: "conn L ctx c s \<Longrightarrow> relayed (client_fd ctx) (server_fd ctx) L"
  using traffic_closed[OF connD(8), of L ctx c s "server_fd ctx"] traffic_on_two[OF connD(8)]
  by (simp add: relayed_def)

lemma closed_relayed:
  "closed L ctx \<Longrightarrow> relayed (client_fd ctx) (server_fd ctx) L \<and> closed_once (client_fd ctx) (server_fd ctx) L"
  by (simp add: closed_def relayed_def)

lemma conn_no_close: "conn L ctx c s \<Longrightarrow> no_close L"
  by (rule traffic_no_close[OF connD(8)])

text \<open>
  \<open>as\<close> are the descriptors of the clients accepted so far, \<open>ids\<close> says which client each context in use
  serves. The others are finished.
\<close>

definition attributed :: "io list \<Rightarrow> int list \<Rightarrow> proxy_t \<Rightarrow> handler_context_t list \<Rightarrow> tagging \<Rightarrow> nat list \<Rightarrow> bool" where
  "attributed W as p xs T ids =
     (proxy_inv p xs (map (log_of T) ids) \<and> distinct ids \<and> (\<forall>k \<in> set ids. k < length as) \<and>
      (\<forall>e \<in> set T. fst e < length as) \<and> w_io (shared p) = W @ map snd T \<and>
      map client_fd xs = map ((!) as) ids \<and>
      (\<forall>k < length as. k \<notin> set ids \<longrightarrow> (\<exists>b. relayed (as ! k) b (log_of T k) \<and> closed_once (as ! k) b (log_of T k))))"

lemma attributed_accept:
  assumes "attributed W as p xs T ids" and "proxy_inv q (xs @ [ctx]) (map (log_of T) ids @ [[]])"
    and "client_fd ctx = a" and "shared q = shared p"
  shows "attributed W (as @ [a]) q (xs @ [ctx]) T (ids @ [length as])"
proof -
  have h: "\<forall>k \<in> set ids. k < length as" "\<forall>e \<in> set T. fst e < length as" "map client_fd xs = map ((!) as) ids"
    using assms(1) by (auto simp: attributed_def)
  have "map ((!) (as @ [a])) ids = map ((!) as) ids" using h(1) by (simp add: nth_append)
  moreover have "\<forall>e \<in> set T. fst e < length (as @ [a])" using h(2) by auto
  ultimately show ?thesis using assms h log_of_new[OF h(2)]
    by (auto simp: attributed_def nth_append less_Suc_eq)
qed

lemma removed_index:
  assumes "distinct ids" and "i < length ids"
  shows "set (take i ids @ drop (Suc i) ids) = set ids - {ids ! i}" and "distinct (take i ids @ drop (Suc i) ids)"
proof -
  have ids: "ids = take i ids @ ids ! i # drop (Suc i) ids" by (rule id_take_nth_drop[OF assms(2)])
  have "distinct (take i ids @ ids ! i # drop (Suc i) ids)" using assms(1) ids by simp
  then have d: "ids ! i \<notin> set (take i ids)" "ids ! i \<notin> set (drop (Suc i) ids)"
      "distinct (take i ids @ drop (Suc i) ids)" by auto
  have "set ids = set (take i ids @ ids ! i # drop (Suc i) ids)" using ids by simp
  then show "set (take i ids @ drop (Suc i) ids) = set ids - {ids ! i}" using d(1,2) by auto
  show "distinct (take i ids @ drop (Suc i) ids)" by (rule d(3))
qed

lemma attributed_serve:
  assumes at: "attributed W as p xs T ids" and sv: "served es xs (map (log_of T) ids) xs' Ls'"
    and q: "proxy_inv q xs' Ls'" "w_io (shared q) = w_io (shared p) @ es"
  shows "\<exists>T' ids'. attributed W as q xs' T' ids'"
proof -
  have h: "distinct ids" "\<forall>k \<in> set ids. k < length as" "\<forall>e \<in> set T. fst e < length as" "w_io (shared p) = W @ map snd T"
      "map client_fd xs = map ((!) as) ids" "\<forall>k < length as. k \<notin> set ids \<longrightarrow> (\<exists>b. relayed (as ! k) b (log_of T k) \<and> closed_once (as ! k) b (log_of T k))"
    using at by (simp_all add: attributed_def)
  have len: "length xs = length ids" using arg_cong[OF h(5), of length] by simp
  consider (idle) "es = []" "xs' = xs" "Ls' = map (log_of T) ids"
    | (more) i ctx' where "i < length ids" "client_fd ctx' = client_fd (xs ! i)" "xs' = xs[i := ctx']"
        "Ls' = (map (log_of T) ids)[i := log_of T (ids ! i) @ es]"
    | (gone) i ctx' where "i < length ids" "client_fd ctx' = client_fd (xs ! i)" "xs' = take i xs @ drop (Suc i) xs"
        "Ls' = take i (map (log_of T) ids) @ drop (Suc i) (map (log_of T) ids)" "closed (log_of T (ids ! i) @ es) ctx'"
    using sv len unfolding served_def by auto
  then show ?thesis
  proof cases
    case idle
    then show ?thesis using at q by (auto simp: attributed_def)
  next
    case more
    let ?k = "ids ! i" and ?T = "T @ tagged (ids ! i) es"
    have k: "?k \<in> set ids" using more(1) by simp
    have "map (log_of ?T) ids = Ls'"
    proof (rule nth_equalityI)
      fix j assume "j < length (map (log_of ?T) ids)"
      then show "map (log_of ?T) ids ! j = Ls' ! j"
        using more(1,4) nth_eq_iff_index_eq[OF h(1), of j i] by (auto simp: nth_list_update)
    qed (simp add: more(4))
    moreover have "map client_fd xs' = map ((!) as) ids"
    proof -
      have "map client_fd xs' = (map client_fd xs)[i := client_fd (xs ! i)]" by (simp add: more(2,3) map_update)
      also have "\<dots> = map client_fd xs" using more(1) len by (simp add: map_update[symmetric])
      finally show ?thesis using h(5) by simp
    qed
    moreover have "\<forall>e \<in> set ?T. fst e < length as" using h(2,3) k by (auto simp: tagged_def)
    moreover have "\<forall>j < length as. j \<notin> set ids \<longrightarrow> (\<exists>b. relayed (as ! j) b (log_of ?T j) \<and> closed_once (as ! j) b (log_of ?T j))"
      using h(6) k by auto
    ultimately have "attributed W as q xs' ?T ids" using h q by (simp add: attributed_def)
    then show ?thesis by blast
  next
    case gone
    let ?k = "ids ! i" and ?T = "T @ tagged (ids ! i) es" and ?ids = "take i ids @ drop (Suc i) ids"
    have k: "?k \<in> set ids" using gone(1) by simp
    note rm = removed_index[OF h(1) gone(1)]
    have other: "log_of ?T j = log_of T j" if "j \<in> set ?ids" for j
    proof -
      have "j \<noteq> ?k" using that unfolding rm(1) by simp
      then show ?thesis by simp
    qed
    have "map (log_of ?T) ?ids = map (log_of T) ?ids" by (rule map_cong[OF refl other])
    then have "map (log_of ?T) ?ids = Ls'" by (simp add: gone(4) take_map drop_map)
    moreover have "map client_fd xs' = map ((!) as) ?ids"
      using arg_cong[OF h(5), of "take i"] arg_cong[OF h(5), of "drop (Suc i)"] by (simp add: gone(3) take_map drop_map)
    moreover have "\<forall>e \<in> set ?T. fst e < length as" using h(2,3) k by (auto simp: tagged_def)
    moreover have "\<forall>j < length as. j \<notin> set ?ids \<longrightarrow> (\<exists>b. relayed (as ! j) b (log_of ?T j) \<and> closed_once (as ! j) b (log_of ?T j))"
    proof (intro allI impI)
      fix j assume j: "j < length as" "j \<notin> set ?ids"
      show "\<exists>b. relayed (as ! j) b (log_of ?T j) \<and> closed_once (as ! j) b (log_of ?T j)"
      proof (cases "j = ?k")
        case True
        have "client_fd (xs ! i) = as ! ?k" using arg_cong[OF h(5), of "\<lambda>l. l ! i"] gone(1) len by simp
        then show ?thesis using closed_relayed[OF gone(5)] True gone(2) by auto
      next
        case False
        then have "j \<notin> set ids" using j(2) unfolding rm(1) by simp
        then show ?thesis using h(6) j(1) False by simp
      qed
    qed
    moreover have "\<forall>j \<in> set ?ids. j < length as" using h(2) rm(1) by auto
    ultimately have "attributed W as q xs' ?T ?ids" using h(4) q rm(2) by (simp add: attributed_def)
    then show ?thesis by blast
  qed
qed

text \<open>What it says of every client.\<close>

lemma attributed_relayed:
  assumes at: "attributed W as p xs T ids" and k: "k < length as"
  shows "\<exists>b. relayed (as ! k) b (log_of T k) \<and>
    (if k \<in> set ids then no_close (log_of T k) else closed_once (as ! k) b (log_of T k))"
proof (cases "k \<in> set ids")
  case True
  then obtain i where i: "i < length ids" "ids ! i = k" by (auto simp: in_set_conv_nth)
  have h: "map client_fd xs = map ((!) as) ids" "proxy_inv p xs (map (log_of T) ids)"
    using at by (simp_all add: attributed_def)
  have len: "length xs = length ids" using arg_cong[OF h(1), of length] by simp
  then have "client_fd (xs ! i) = as ! k" using arg_cong[OF h(1), of "\<lambda>l. l ! i"] i by simp
  moreover obtain c s where "conn (log_of T k) (xs ! i) c s"
    using h(2) i len unfolding proxy_inv_def list_all2_conv_all_nth by auto
  ultimately show ?thesis using conn_relayed conn_no_close True by metis
next
  case False
  then show ?thesis using at k by (simp add: attributed_def)
qed

section \<open>What every round keeps\<close>

definition listening :: "int \<Rightarrow> pollfd" where
  "listening sfd = \<lparr>pfd = sfd, pevents = POLLIN, revents = 0\<rparr>"

text \<open>Between rounds: fewer than 100 connections, and the descriptors polled are theirs.\<close>

definition round_inv :: "int \<Rightarrow> io list \<Rightarrow> int list \<Rightarrow> proxy_t \<Rightarrow> handler_context_t list \<Rightarrow> tagging \<Rightarrow> bool" where
  "round_inv sfd W as p xs T =
     ((\<exists>ids. attributed W as p xs T ids) \<and> length xs < MAX_CONTEXTS \<and> servsock p = sfd \<and>
      fds p = listening sfd # concat (map fds_of xs))"

lemma proxy_inv_count: "proxy_inv p xs Ls \<Longrightarrow> contexts_count p = length xs"
  by (simp add: proxy_inv_def contexts_are_def)

lemma proxy_inv_used: "proxy_inv p xs Ls \<Longrightarrow> used p = xs"
  by (simp add: proxy_inv_def used_contexts)

lemma proxy_inv_fds [simp]: "proxy_inv (p\<lparr>fds := fs\<rparr>) xs Ls = proxy_inv p xs Ls"
  by (simp add: proxy_inv_def)

lemma attributed_fds [simp]: "attributed W as (p\<lparr>fds := fs\<rparr>) xs T ids = attributed W as p xs T ids"
  by (simp add: attributed_def)

lemma attributed_inv: "attributed W as p xs T ids \<Longrightarrow> proxy_inv p xs (map (log_of T) ids)"
  by (simp add: attributed_def)

lemma start_inv: "world_is w P \<Longrightarrow> round_inv sfd (w_io w) [] (proxy_start True sfd w) [] []"
  by (auto simp: round_inv_def attributed_def proxy_inv_def proxy_start_def contexts_are_def fresh_block_def
      MAX_CONTEXTS_def listening_def)

lemma contexts_push:
  assumes "contexts_are b n xs" and "n < blk_len b"
  shows "\<exists>b'. store b n ctx = Inr b' \<and> contexts_are b' (n + 1) (xs @ [ctx]) \<and> blk_len b' = blk_len b"
  using assms by (auto simp: contexts_are_def nth_append less_Suc_eq)

text \<open>A client that is accepted gets a context of its own behind the others, with no traffic yet.\<close>

lemma accept_client_safe:
  assumes inv: "proxy_inv p xs Ls" and al: "al_ok al"
    and room: "has_event (revents (hd (fds p))) POLLIN \<Longrightarrow> length xs + 1 < MAX_CONTEXTS"
    and few: "length xs < MAX_CONTEXTS"
  shows "safe (accept_client al r p) (\<lambda>p'. \<exists>xs' Ls'. proxy_inv p' xs' Ls' \<and> length xs' < MAX_CONTEXTS \<and>
    fds p' = fds p \<and> servsock p' = servsock p \<and> shared p' = shared p \<and>
    (if has_event (revents (hd (fds p))) POLLIN
     then \<exists>ctx. xs' = xs @ [ctx] \<and> Ls' = Ls @ [[]] \<and> client_fd ctx = re_accept r else xs' = xs \<and> Ls' = Ls))"
proof (cases "has_event (revents (hd (fds p))) POLLIN")
  case False
  then show ?thesis using inv few by (auto simp: accept_client_def)
next
  case True
  define fd where "fd = accept_servsock (re_accept r) 0 (\<lambda>_. 0) False"
  have fd: "fd \<noteq> status_code ERROR \<Longrightarrow> fd = re_accept r \<and> 0 \<le> fd"
    by (auto simp: fd_def accept_servsock_def split: if_splits)
  have bl: "blk_len (context1 p) = MAX_CONTEXTS" and n: "contexts_count p = length xs"
    and ca: "contexts_are (context1 p) (contexts_count p) xs"
    using inv by (simp_all add: proxy_inv_def contexts_are_def)
  let ?P = "\<lambda>p'. \<exists>xs' Ls'. proxy_inv p' xs' Ls' \<and> length xs' < MAX_CONTEXTS \<and>
    fds p' = fds p \<and> servsock p' = servsock p \<and> shared p' = shared p \<and>
    (if has_event (revents (hd (fds p))) POLLIN
     then \<exists>ctx. xs' = xs @ [ctx] \<and> Ls' = Ls @ [[]] \<and> client_fd ctx = re_accept r else xs' = xs \<and> Ls' = Ls)"
  have new: "safe (bind_r (store (context1 p) (contexts_count p) ctx) (\<lambda>b.
      Inr (p\<lparr>context1 := b, contexts_count := contexts_count p + 1\<rparr>))) ?P"
    if c: "conn [] ctx [] []" "client_fd ctx = re_accept r" for ctx
  proof -
    obtain b where b: "store (context1 p) (contexts_count p) ctx = Inr b"
        "contexts_are b (contexts_count p + 1) (xs @ [ctx])" "blk_len b = MAX_CONTEXTS"
      using contexts_push[OF ca, of ctx] few bl n by auto
    have "list_all2 (\<lambda>L ctx. \<exists>c s. conn L ctx c s) (Ls @ [[]]) (xs @ [ctx])"
      using inv c(1) by (intro list_all2_appendI) (auto simp: proxy_inv_def)
    then have "proxy_inv (p\<lparr>context1 := b, contexts_count := contexts_count p + 1\<rparr>) (xs @ [ctx]) (Ls @ [[]])"
      using inv b by (simp add: proxy_inv_def)
    then show ?thesis using b(1) c room[OF True] True
      by (simp, intro exI[of _ "xs @ [ctx]"] exI[of _ "Ls @ [[]]"]) simp
  qed
  have "safe (bind_r (assert_r (fd \<noteq> status_code ERROR)) (\<lambda>_.
        bind_r (assert_r (\<not> re_setsockopt r < 0)) (\<lambda>_.
        bind_r (init_context al (re_junk r) fd) (\<lambda>ctx.
        bind_r (store (context1 p) (contexts_count p) ctx) (\<lambda>b.
        Inr (p\<lparr>context1 := b, contexts_count := contexts_count p + 1\<rparr>)))))) ?P"
  proof (intro safe_guard, rule safe_bind[OF init_context_conn[OF al]])
    assume "fd \<noteq> status_code ERROR"
    then show "0 \<le> fd" using fd by simp
  next
    fix ctx
    assume "fd \<noteq> status_code ERROR" and c: "conn [] ctx [] [] \<and> client_fd ctx = fd"
    then show "safe (bind_r (store (context1 p) (contexts_count p) ctx) (\<lambda>b.
      Inr (p\<lparr>context1 := b, contexts_count := contexts_count p + 1\<rparr>))) ?P"
      using fd by (intro new) auto
  qed
  then show ?thesis using True by (simp add: accept_client_def fd_def Let_def)
qed

lemma accept_client_keeps_fds: "accept_client al r p = Inr q \<Longrightarrow> fds q = fds p"
  by (auto simp: accept_client_def Let_def bind_r_Inr_iff split: if_splits)

text \<open>Serving the descriptors of a round, one after the other.\<close>

lemma serve_fds_outcome:
  assumes "attributed W as p xs T ids" and "al_ok al" and "length xs < MAX_CONTEXTS" and "serve_fine al envs i fs p"
  shows "undefined_when (serve_breaks al envs i fs p) (serve_fds al envs i fs p)
    (\<lambda>p'. \<exists>xs' T' ids'. attributed W as p' xs' T' ids' \<and> length xs' < MAX_CONTEXTS \<and> servsock p' = servsock p)"
  using assms(1,3,4)
proof (induction fs arbitrary: p xs T ids i)
  case Nil
  then show ?case by (auto simp: undefined_when_def)
next
  case (Cons f fs)
  note inv = attributed_inv[OF Cons.prems(1)]
  have fine: "\<forall>ctx \<in> set xs. owns (pfd f) ctx \<longrightarrow> event_fine al (envs i) ctx"
    using Cons.prems(3) proxy_inv_used[OF inv] by (simp add: list_all_iff)
  have room: "contexts_count p < MAX_CONTEXTS" using Cons.prems(2) proxy_inv_count[OF inv] by simp
  show ?case
  proof (cases "breaks_at (envs i) f xs")
    case True
    then show ?thesis using serve_fd_breaks[OF inv True] proxy_inv_used[OF inv] by (simp add: undefined_when_def)
  next
    case False
    have "undefined_when
        (case serve_fd al (envs i) f p of Inr p' \<Rightarrow> serve_breaks al envs (i + 1) fs p' | Inl _ \<Rightarrow> False)
        (bind_r (serve_fd al (envs i) f p) (serve_fds al envs (i + 1) fs))
        (\<lambda>p'. \<exists>xs' T' ids'. attributed W as p' xs' T' ids' \<and> length xs' < MAX_CONTEXTS \<and> servsock p' = servsock p)"
    proof (rule undefined_when_bind[OF serve_fd_safe[OF inv assms(2) room fine False]], elim conjE exE)
      fix q xs' Ls' es
      assume q: "serve_fd al (envs i) f p = Inr q" "proxy_inv q xs' Ls'" "servsock q = servsock p"
        and sv: "served es xs (map (log_of T) ids) xs' Ls'" "w_io (shared q) = w_io (shared p) @ es"
      obtain T' ids' where at: "attributed W as q xs' T' ids'"
        using attributed_serve[OF Cons.prems(1) sv(1) q(2) sv(2)] by blast
      have "length xs' < MAX_CONTEXTS" "serve_fine al envs (i + 1) fs q"
        using served_length[OF sv(1)] Cons.prems(2,3) q(1) by auto
      from Cons.IH[OF at this] show "undefined_when (serve_breaks al envs (i + 1) fs q) (serve_fds al envs (i + 1) fs q)
          (\<lambda>p'. \<exists>xs' T' ids'. attributed W as p' xs' T' ids' \<and> length xs' < MAX_CONTEXTS \<and> servsock p' = servsock p)"
        using q(3) by simp
    qed
    then show ?thesis using False proxy_inv_used[OF inv] by simp
  qed
qed

lemma poll_fds_facts [simp]:
  "attributed W as (poll_fds r p) xs T ids = attributed W as p xs T ids" "servsock (poll_fds r p) = servsock p"
  by (simp_all add: poll_fds_def)

lemma poll_fds_first: "fds p \<noteq> [] \<Longrightarrow> revents (hd (fds (poll_fds r p))) = re_revents r 0"
  by (simp add: poll_fds_def hd_map upt_conv_Cons)

text \<open>The clients accepted in these rounds.\<close>

definition clients_of :: "round_env list \<Rightarrow> int list" where
  "clients_of rs = map re_accept (filter (\<lambda>r. has_event (re_revents r 0) POLLIN) rs)"

text \<open>One round, and any number of them.\<close>

lemma proxy_round_outcome:
  assumes inv: "round_inv sfd W as p xs T" and al: "al_ok al" and fine: "round_fine al r p"
  shows "undefined_when (round_breaks al r p) (proxy_round al r p) (\<lambda>p'. \<exists>xs' T'. round_inv sfd W (as @ clients_of [r]) p' xs' T')"
proof (cases "re_poll r = -1")
  case True
  then show ?thesis by (simp add: undefined_when_def proxy_round_def round_breaks_def)
next
  case polled: False
  obtain ids where pi: "attributed W as p xs T ids" "length xs < MAX_CONTEXTS" "servsock p = sfd" "fds p \<noteq> []"
    using inv by (auto simp: round_inv_def)
  let ?as = "as @ clients_of [r]"
  have last: "safe (bind_r (collect_fds (contexts_count q) (context1 q) 0
      [\<lparr>pfd = servsock q, pevents = POLLIN, revents = 0\<rparr>]) (\<lambda>out. Inr (q\<lparr>fds := out\<rparr>)))
      (\<lambda>p'. \<exists>xs' T'. round_inv sfd W ?as p' xs' T')"
    if q: "attributed W ?as q ys U js" "length ys < MAX_CONTEXTS" "servsock q = sfd" for q ys U js
  proof -
    have "collect_fds (contexts_count q) (context1 q) 0 [listening sfd] =
        Inr (listening sfd # concat (map fds_of ys))"
      using collect_fds_owned[of "context1 q" "contexts_count q" ys] q attributed_inv[OF q(1)]
        proxy_inv_count[OF attributed_inv[OF q(1)]] by (simp add: proxy_inv_def)
    moreover have "round_inv sfd W ?as (q\<lparr>fds := listening sfd # concat (map fds_of ys)\<rparr>) ys U"
      using q by (auto simp: round_inv_def)
    ultimately show ?thesis using q(3) unfolding listening_def by auto
  qed
  let ?p = "poll_fds r p"
  have first: "revents (hd (fds ?p)) = re_revents r 0" by (rule poll_fds_first[OF pi(4)])
  have at: "attributed W as ?p xs T ids" using pi(1) by simp
  have room: "has_event (revents (hd (fds ?p))) POLLIN \<Longrightarrow> length xs + 1 < MAX_CONTEXTS"
    using fine proxy_inv_count[OF attributed_inv[OF pi(1)]] by (simp add: round_fine_def first)
  have "undefined_when (case accept_client al r ?p of Inr q \<Rightarrow> serve_breaks al (re_env r) 1 (tl (fds q)) q | Inl _ \<Rightarrow> False)
    (bind_r (accept_client al r ?p) (\<lambda>p.
    bind_r (serve_fds al (re_env r) 1 (tl (fds p)) p) (\<lambda>p.
    bind_r (collect_fds (contexts_count p) (context1 p) 0
      [\<lparr>pfd = servsock p, pevents = POLLIN, revents = 0\<rparr>]) (\<lambda>out. Inr (p\<lparr>fds := out\<rparr>)))))
    (\<lambda>p'. \<exists>xs' T'. round_inv sfd W ?as p' xs' T')"
  proof (rule undefined_when_bind[OF accept_client_safe[OF attributed_inv[OF at] al room pi(2)]])
    fix q
    assume acc: "accept_client al r ?p = Inr q" and "\<exists>ys Ms. proxy_inv q ys Ms \<and> length ys < MAX_CONTEXTS \<and>
      fds q = fds ?p \<and> servsock q = servsock ?p \<and> shared q = shared ?p \<and>
      (if has_event (revents (hd (fds ?p))) POLLIN
       then \<exists>ctx. ys = xs @ [ctx] \<and> Ms = map (log_of T) ids @ [[]] \<and> client_fd ctx = re_accept r
       else ys = xs \<and> Ms = map (log_of T) ids)"
    then obtain ys Ms where q: "proxy_inv q ys Ms" "length ys < MAX_CONTEXTS"
      "servsock q = servsock ?p" "shared q = shared ?p"
      and new: "if has_event (revents (hd (fds ?p))) POLLIN
        then \<exists>ctx. ys = xs @ [ctx] \<and> Ms = map (log_of T) ids @ [[]] \<and> client_fd ctx = re_accept r
        else ys = xs \<and> Ms = map (log_of T) ids"
      by blast
    have "\<exists>js. attributed W ?as q ys T js"
    proof (cases "has_event (re_revents r 0) POLLIN")
      case True
      then obtain ctx where "ys = xs @ [ctx]" "Ms = map (log_of T) ids @ [[]]" "client_fd ctx = re_accept r"
        using new first by auto
      then show ?thesis using attributed_accept[OF at _ _ q(4)] q(1) True by (auto simp: clients_of_def)
    next
      case False
      then show ?thesis using new first q(1,4) at by (auto simp: clients_of_def attributed_def)
    qed
    then obtain js where js: "attributed W ?as q ys T js" ..
    have sock: "servsock q = sfd" using q(3) pi(3) by simp
    have "serve_fine al (re_env r) 1 (tl (fds q)) q" using fine acc by (simp add: round_fine_def)
    note out = serve_fds_outcome[OF js al q(2) this]
    show "undefined_when (serve_breaks al (re_env r) 1 (tl (fds q)) q) (bind_r (serve_fds al (re_env r) 1 (tl (fds q)) q) (\<lambda>p.
      bind_r (collect_fds (contexts_count p) (context1 p) 0
        [\<lparr>pfd = servsock p, pevents = POLLIN, revents = 0\<rparr>]) (\<lambda>out. Inr (p\<lparr>fds := out\<rparr>))))
      (\<lambda>p'. \<exists>xs' T'. round_inv sfd W ?as p' xs' T')"
    proof (cases "serve_breaks al (re_env r) 1 (tl (fds q)) q")
      case True
      then show ?thesis using out by (simp add: undefined_when_def)
    next
      case False
      then have "safe (serve_fds al (re_env r) 1 (tl (fds q)) q)
          (\<lambda>p'. \<exists>xs' T' ids'. attributed W ?as p' xs' T' ids' \<and> length xs' < MAX_CONTEXTS \<and> servsock p' = servsock q)"
        using out by (simp add: undefined_when_def)
      then have "safe (bind_r (serve_fds al (re_env r) 1 (tl (fds q)) q) (\<lambda>p.
        bind_r (collect_fds (contexts_count p) (context1 p) 0
          [\<lparr>pfd = servsock p, pevents = POLLIN, revents = 0\<rparr>]) (\<lambda>out. Inr (p\<lparr>fds := out\<rparr>))))
        (\<lambda>p'. \<exists>xs' T'. round_inv sfd W ?as p' xs' T')"
        by (rule safe_bind) (elim exE conjE, rule last, use sock in simp_all)
      then show ?thesis using False by (simp add: undefined_when_def)
    qed
  qed simp
  then show ?thesis using polled by (simp add: proxy_round_def round_breaks_def Let_def)
qed

lemma clients_of_Cons: "clients_of (r # rs) = clients_of [r] @ clients_of rs"
  by (simp add: clients_of_def)

lemma proxy_rounds_outcome:
  assumes "round_inv sfd W as p xs T" and "al_ok al" and "rounds_fine al rs p"
  shows "undefined_when (rounds_break al rs p) (proxy_rounds al rs p)
    (\<lambda>p'. \<exists>xs' T'. round_inv sfd W (as @ clients_of rs) p' xs' T')"
  using assms(1,3)
proof (induction rs arbitrary: as p xs T)
  case Nil
  then show ?case by (auto simp: clients_of_def undefined_when_def)
next
  case (Cons r rs)
  have fine: "round_fine al r p" "\<And>q. proxy_round al r p = Inr q \<Longrightarrow> rounds_fine al rs q"
    using Cons.prems(2) by auto
  note out = proxy_round_outcome[OF Cons.prems(1) assms(2) fine(1)]
  show ?case
  proof (cases "round_breaks al r p")
    case True
    then show ?thesis using out by (simp add: undefined_when_def)
  next
    case False
    then have one: "safe (proxy_round al r p) (\<lambda>p'. \<exists>xs' T'. round_inv sfd W (as @ clients_of [r]) p' xs' T')"
      using out by (simp add: undefined_when_def)
    have "undefined_when (case proxy_round al r p of Inr q \<Rightarrow> rounds_break al rs q | Inl _ \<Rightarrow> False)
        (bind_r (proxy_round al r p) (proxy_rounds al rs))
        (\<lambda>p'. \<exists>xs' T'. round_inv sfd W ((as @ clients_of [r]) @ clients_of rs) p' xs' T')"
      by (rule undefined_when_bind[OF one]) (elim exE, rule Cons.IH, use fine(2) in simp_all)
    then show ?thesis using False by (simp add: clients_of_Cons[of r rs])
  qed
qed

lemma round_inv_owned:
  assumes "round_inv sfd W as p xs T" and "f \<in> set (tl (fds p))"
  shows "\<exists>ctx \<in> set xs. owns (pfd f) ctx"
  using assms fds_of_owned by (auto simp: round_inv_def)

section \<open>Too many clients\<close>

text \<open>
  Nothing stops \<open>main\<close> from accepting a client when all 100 contexts are in use: the context is then
  written behind the block.
\<close>

lemma accept_overflows:
  assumes "contexts_count p = MAX_CONTEXTS" and "blk_len (context1 p) = MAX_CONTEXTS"
    and "has_event (revents (hd (fds p))) POLLIN" and "0 \<le> re_accept r" and "0 \<le> re_setsockopt r"
    and "init_context al (re_junk r) (re_accept r) = Inr ctx"
  shows "accept_client al r p = Inl Undefined"
  using assms by (simp add: accept_client_def accept_servsock_def status_code_def store_def)

text \<open>With all 100 in use, removing one reads the context behind the block.\<close>

lemma remove_overreads:
  assumes "contexts_count p = MAX_CONTEXTS" and "blk_len (context1 p) = MAX_CONTEXTS" and "ind < MAX_CONTEXTS"
  shows "remove_context ind p = Inl Undefined"
  using assms remove_loop_overrun[of ind "MAX_CONTEXTS - ind" "context1 p"]
  by (simp add: remove_context_def)

text \<open>A round in which a client connects and no other descriptor is ready.\<close>

definition client_arrives :: "round_env \<Rightarrow> bool" where
  "client_arrives r =
     (re_poll r \<noteq> -1 \<and> has_event (re_revents r 0) POLLIN \<and> (\<forall>i > 0. re_revents r i = 0) \<and>
      0 \<le> re_accept r \<and> 0 \<le> re_setsockopt r)"

text \<open>After \<open>length xs\<close> such rounds every context waits for its client's request.\<close>

definition waiting :: "int \<Rightarrow> proxy_t \<Rightarrow> handler_context_t list \<Rightarrow> bool" where
  "waiting sfd p xs =
     (contexts_are (context1 p) (contexts_count p) xs \<and> blk_len (context1 p) = MAX_CONTEXTS \<and>
      servsock p = sfd \<and> fds p = listening sfd # concat (map fds_of xs) \<and>
      (\<forall>ctx \<in> set xs. server_events ctx = 0))"

lemma has_event_none [simp]: "\<not> has_event ev 0" "\<not> has_event 0 ev"
  by (simp_all add: has_event_def)

lemma init_context_new:
  assumes "al 1"
  obtains ctx where "init_context al junk fd = Inr ctx" "server_events ctx = 0"
  using assms
  by (auto simp: init_context_def vector_forced_alloc_def vector_init_def Let_def REALLOC_RATIO_def CHAR_SIZE_def
      sz_add_def sz_mul_def SIZE_MOD_eq)

lemma serve_idle:
  assumes ca: "contexts_are (context1 p) (contexts_count p) xs"
    and "\<forall>f \<in> set fs. revents f = 0 \<and> (\<exists>ctx \<in> set xs. owns (pfd f) ctx)"
  shows "serve_fds al envs i fs p = Inr p"
  using assms(2)
proof (induction fs arbitrary: i)
  case (Cons f fs)
  have "serve_fd al (envs i) f p = Inr p"
  proof (rule find_context_owner[OF ca, of "pfd f"])
    assume "\<forall>ctx \<in> set xs. \<not> owns (pfd f) ctx"
    then show ?thesis using Cons.prems by auto
  next
    fix k
    assume k: "find_context (context1 p) (contexts_count p) (pfd f) = Inr (int k)" "k < length xs"
    have "load (context1 p) k = Inr (xs ! k)"
      using load_contexts[OF ca, of k] k(2) ca by (simp add: contexts_are_def)
    then show ?thesis using Cons.prems k(1) by (simp add: serve_fd_def wanted_def)
  qed
  then show ?case using Cons by simp
qed simp

lemma fds_of_waiting: "server_events ctx = 0 \<Longrightarrow> length (fds_of ctx) \<le> 1"
  by (simp add: fds_of_def)

lemma fds_waiting_total: "\<forall>ctx \<in> set xs. server_events ctx = 0 \<Longrightarrow> length (concat (map fds_of xs)) \<le> length xs"
proof (induction xs)
  case (Cons x xs)
  then show ?case using fds_of_waiting[of x] by simp
qed simp

lemma polled_idle:
  assumes "\<forall>i > 0. re_revents r i = 0" and "f \<in> set (tl (fds (poll_fds r p)))"
  shows "revents f = 0 \<and> (\<exists>g \<in> set (tl (fds p)). pfd f = pfd g)"
proof -
  obtain i where i: "i < length (fds p) - 1" "f = (fds p ! Suc i)\<lparr>revents := re_revents r (Suc i)\<rparr>"
    using assms(2) by (auto simp: poll_fds_def in_set_conv_nth nth_tl)
  moreover have "tl (fds p) ! i = fds p ! Suc i" "i < length (tl (fds p))" using i(1) by (simp_all add: nth_tl)
  ultimately show ?thesis using assms(1) nth_mem[of i "tl (fds p)"] by force
qed

lemma waiting_round:
  assumes w: "waiting sfd p xs" and al: "al 1" and r: "client_arrives r"
  shows "if length xs < MAX_CONTEXTS
    then \<exists>p' ctx. proxy_round al r p = Inr p' \<and> waiting sfd p' (xs @ [ctx]) \<and>
      init_context al (re_junk r) (re_accept r) = Inr ctx
    else proxy_round al r p = Inl Undefined"
proof -
  let ?q = "poll_fds r p"
  note w' = w[unfolded waiting_def]
  have n: "contexts_count p = length xs" using w' by (simp add: contexts_are_def)
  have q: "contexts_are (context1 ?q) (contexts_count ?q) xs" "context1 ?q = context1 p"
      "contexts_count ?q = length xs" "servsock ?q = sfd"
    using w' n by (simp_all add: poll_fds_def)
  have ev: "has_event (revents (hd (fds ?q))) POLLIN"
    using r w' by (simp add: poll_fds_first client_arrives_def)
  obtain ctx where ctx: "init_context al (re_junk r) (re_accept r) = Inr ctx" "server_events ctx = 0"
    using init_context_new[where al = al, OF al] by blast
  show ?thesis
  proof (cases "length xs < MAX_CONTEXTS")
    case False
    then have "length xs = MAX_CONTEXTS" using w' by (simp add: contexts_are_def)
    then have "accept_client al r ?q = Inl Undefined"
      using ev ctx(1) r w' q by (intro accept_overflows) (auto simp: client_arrives_def)
    then show ?thesis using False r by (simp add: proxy_round_def client_arrives_def Let_def)
  next
    case True
    obtain b where b: "store (context1 p) (length xs) ctx = Inr b"
        "contexts_are b (length xs + 1) (xs @ [ctx])" "blk_len b = MAX_CONTEXTS"
      using contexts_push[of "context1 p" "length xs" xs ctx] w' n True by auto
    let ?a = "?q\<lparr>context1 := b, contexts_count := length xs + 1\<rparr>"
    have acc: "accept_client al r ?q = Inr ?a"
      using ev ctx(1) r b(1) q by (simp add: accept_client_def accept_servsock_def status_code_def client_arrives_def)
    have idle: "\<forall>f \<in> set (tl (fds ?a)). revents f = 0 \<and> (\<exists>c \<in> set (xs @ [ctx]). owns (pfd f) c)"
    proof
      fix f
      assume "f \<in> set (tl (fds ?a))"
      then have f: "f \<in> set (tl (fds ?q))" by simp
      obtain g where "revents f = 0" "g \<in> set (tl (fds p))" "pfd f = pfd g"
        using polled_idle[OF _ f] r by (auto simp: client_arrives_def)
      then show "revents f = 0 \<and> (\<exists>c \<in> set (xs @ [ctx]). owns (pfd f) c)"
        using w' fds_of_owned[of g] by fastforce
    qed
    have srv: "serve_fds al (re_env r) 1 (tl (fds ?a)) ?a = Inr ?a"
      by (rule serve_idle[of _ "xs @ [ctx]", OF _ idle]) (use b(2) in simp)
    have "length (concat (map fds_of (xs @ [ctx]))) \<le> length (xs @ [ctx])"
      by (rule fds_waiting_total) (use w' ctx(2) in auto)
    then have col: "collect_fds (length xs + 1) b 0 [listening sfd] =
        Inr (listening sfd # concat (map fds_of (xs @ [ctx])))"
      using collect_fds_from[OF b(2), of 0 "length xs + 1" "[listening sfd]"] True
      by (simp add: MAX_FDS_def MAX_CONTEXTS_def)
    let ?p' = "?a\<lparr>fds := listening sfd # concat (map fds_of (xs @ [ctx]))\<rparr>"
    have "proxy_round al r p = Inr ?p'"
      using r acc srv col q(4) by (simp add: proxy_round_def client_arrives_def Let_def listening_def)
    moreover have "waiting sfd ?p' (xs @ [ctx])"
      using w' b(2,3) ctx(2) q(4) by (simp add: waiting_def)
    ultimately show ?thesis using True ctx(1) by auto
  qed
qed

lemma waiting_rounds:
  assumes "waiting sfd p xs" and "al 1" and "list_all client_arrives rs"
  shows "if length xs + length rs \<le> MAX_CONTEXTS
    then \<exists>p' ys. proxy_rounds al rs p = Inr p' \<and> waiting sfd p' (xs @ ys) \<and> length ys = length rs
    else proxy_rounds al rs p = Inl Undefined"
  using assms(1,3)
proof (induction rs arbitrary: p xs)
  case Nil
  then have "length xs \<le> MAX_CONTEXTS" by (auto simp: waiting_def contexts_are_def)
  then show ?case using Nil by auto
next
  case (Cons r rs)
  have r: "client_arrives r" "list_all client_arrives rs" using Cons.prems(2) by simp_all
  show ?case
  proof (cases "length xs < MAX_CONTEXTS")
    case False
    then show ?thesis using waiting_round[where al = al, OF Cons.prems(1) assms(2) r(1)] by simp
  next
    case True
    then obtain p' ctx where p': "proxy_round al r p = Inr p'" "waiting sfd p' (xs @ [ctx])"
      using waiting_round[where al = al, OF Cons.prems(1) assms(2) r(1)] by auto
    show ?thesis
    proof (cases "length (xs @ [ctx]) + length rs \<le> MAX_CONTEXTS")
      case False
      then show ?thesis using Cons.IH[OF p'(2) r(2)] p'(1) by simp
    next
      case fits: True
      then obtain q ys where "proxy_rounds al rs p' = Inr q" "waiting sfd q ((xs @ [ctx]) @ ys)" "length ys = length rs"
        using Cons.IH[OF p'(2) r(2)] by auto
      then show ?thesis using p'(1) fits by (auto intro!: exI[of _ "ctx # ys"])
    qed
  qed
qed

lemma start_waiting: "waiting sfd (proxy_start True sfd w) []"
  by (simp add: waiting_def proxy_start_def contexts_are_def fresh_block_def listening_def)

end
