(* ===== verification/Pager.thy ===== *)
theory Pager
  imports Handler_Buffers
begin

text \<open>
  \<open>http/28.c\<close>: the client that fetches a page and shows it twenty lines at a time. The functions that
  look for line ends and write, and one round of the loop of \<open>main\<close>. \<open>http/30.c\<close> repeats the same
  functions around an unfinished thread.
\<close>

section \<open>Lines of a buffer\<close>

definition IN_BUFFER_SIZE :: nat where
  "IN_BUFFER_SIZE = 1000000"

definition MAX_SCREEN_LINES :: nat where
  "MAX_SCREEN_LINES = 20"

abbreviation NEWLINE :: char where
  "NEWLINE \<equiv> CHR 0x0A"

text \<open>\<open>buff\<close> is the block \<open>b\<close> from offset \<open>base\<close> on.\<close>

function count_of_lines :: "char block \<Rightarrow> nat \<Rightarrow> nat \<Rightarrow> nat \<Rightarrow> nat res" where
  "count_of_lines b base i toExcl =
     (if i < toExcl then
        bind_r (load b (base + i)) (\<lambda>c.
        bind_r (count_of_lines b base (i + 1) toExcl) (\<lambda>res.
        Inr (if c = NEWLINE then res + 1 else res)))
      else Inr 0)"
  by pat_completeness auto
termination
  by (relation "measure (\<lambda>(b, base, i, toExcl). toExcl - i)") auto

function find_loop :: "char block \<Rightarrow> nat \<Rightarrow> nat \<Rightarrow> nat \<Rightarrow> nat \<Rightarrow> nat \<Rightarrow> nat res" where
  "find_loop b base buff_size cnt_ln i count =
     (if i < buff_size \<and> count < cnt_ln then
        bind_r (load b (base + i)) (\<lambda>c.
        find_loop b base buff_size cnt_ln (i + 1) (if c = NEWLINE then count + 1 else count))
      else Inr i)"
  by pat_completeness auto
termination
  by (relation "measure (\<lambda>(b, base, buff_size, cnt_ln, i, count). buff_size - i)") auto

declare count_of_lines.simps [simp del] find_loop.simps [simp del]

definition find_ln :: "char block \<Rightarrow> nat \<Rightarrow> nat \<Rightarrow> nat \<Rightarrow> nat res" where
  "find_ln b base buff_size cnt_ln = find_loop b base buff_size cnt_ln 0 0"

text \<open>
  \<open>write_\<close>: \<open>wr k r\<close> is what the \<open>k\<close>-th call of \<open>write\<close> returns for \<open>r\<close> bytes. The result is the number
  returned and the bytes written. As in the code, \<open>find_\<close> always starts at \<open>buff\<close>, and the test of
  \<open>cnt\<close> comes after its use. A call that keeps returning 0 never ends.
\<close>

fun write_loop ::
    "nat \<Rightarrow> (nat \<Rightarrow> nat \<Rightarrow> int) \<Rightarrow> char block \<Rightarrow> nat \<Rightarrow> nat \<Rightarrow> nat \<Rightarrow> nat \<Rightarrow> nat \<Rightarrow> nat \<Rightarrow> (nat \<times> char list) res" where
  "write_loop 0 wr b base buff_size mx k written lines = Inl Diverge"
| "write_loop (Suc fuel) wr b base buff_size mx k written lines =
     (if written < buff_size \<and> lines < mx then
        bind_r (find_ln b base buff_size (mx - lines)) (\<lambda>r.
        bind_r (read_bytes b (base + written) r) (\<lambda>bytes.
        let cnt = wr k r; upto = sz_of_int (int written + cnt) in
        bind_r (count_of_lines b base written upto) (\<lambda>n.
        bind_r (assert_r (0 \<le> cnt)) (\<lambda>_.
        bind_r (write_loop fuel wr b base buff_size mx (k + 1) upto (lines + n)) (\<lambda>(w, out).
        Inr (w, take (nat cnt) bytes @ out))))))
      else Inr (written, []))"

definition write_lines ::
    "nat \<Rightarrow> (nat \<Rightarrow> nat \<Rightarrow> int) \<Rightarrow> char block \<Rightarrow> nat \<Rightarrow> nat \<Rightarrow> nat \<Rightarrow> (nat \<times> char list) res" where
  "write_lines fuel wr b base buff_size mx = write_loop fuel wr b base buff_size mx 0 0 0"

section \<open>The loop of main\<close>

record pager_t =
  in_buffer :: "char block"
  p_received :: nat
  p_written :: nat
  cnt_on_screen :: nat
  p_is_end :: bool
  screen :: "char list"

text \<open>
  What one round finds: whether the socket and the keyboard are ready, the result of \<open>read\<close> on the
  socket (\<open>None\<close> for -1) and on the keyboard, and the results of \<open>write\<close>.
\<close>

record pager_env =
  pe_sock :: bool
  pe_keys :: bool
  pe_read :: "char list option"
  pe_read_keys :: int
  pe_write :: "nat \<Rightarrow> nat \<Rightarrow> int"

definition pager_start :: "bool \<Rightarrow> pager_t" where
  "pager_start granted =
     \<lparr>in_buffer = (if granted then fresh_block IN_BUFFER_SIZE else null_block), p_received = 0,
      p_written = 0, cnt_on_screen = 0, p_is_end = False, screen = []\<rparr>"

definition pager_goes_on :: "pager_t \<Rightarrow> bool" where
  "pager_goes_on p = (\<not> p_is_end p \<or> p_written p \<noteq> p_received p)"

definition pager_read :: "pager_env \<Rightarrow> pager_t \<Rightarrow> pager_t res" where
  "pager_read e p =
     (if \<not> pe_sock e then Inr p
      else case pe_read e of
        None \<Rightarrow> Inr (p\<lparr>p_received := sz_sub (p_received p) 1\<rparr>)
      | Some bs \<Rightarrow> bind_r (store_list (in_buffer p) (p_received p) bs) (\<lambda>b.
          Inr (p\<lparr>in_buffer := b, p_is_end := p_is_end p \<or> bs = [], p_received := sz_add (p_received p) (length bs)\<rparr>)))"

definition pager_keys :: "pager_env \<Rightarrow> pager_t \<Rightarrow> pager_t res" where
  "pager_keys e p =
     (if \<not> pe_keys e then Inr p
      else bind_r (assert_r (pe_read_keys e \<noteq> -1)) (\<lambda>_. Inr (p\<lparr>cnt_on_screen := 0\<rparr>)))"

definition pager_show :: "nat \<Rightarrow> pager_env \<Rightarrow> pager_t \<Rightarrow> pager_t res" where
  "pager_show fuel e p =
     (if pe_keys e \<or> pe_sock e then
        bind_r (write_lines fuel (pe_write e) (in_buffer p) (p_written p) (sz_sub (p_received p) (p_written p))
            (sz_sub MAX_SCREEN_LINES (cnt_on_screen p))) (\<lambda>(cnt, out).
        bind_r (count_of_lines (in_buffer p) 0 (p_written p) (sz_add (p_written p) cnt)) (\<lambda>n.
        Inr (p\<lparr>cnt_on_screen := sz_add (cnt_on_screen p) n, p_written := sz_add (p_written p) cnt,
          screen := screen p @ out\<rparr>)))
      else Inr p)"

definition pager_round :: "nat \<Rightarrow> pager_env \<Rightarrow> pager_t \<Rightarrow> pager_t res" where
  "pager_round fuel e p =
     bind_r (pager_read e p) (\<lambda>p. bind_r (pager_keys e p) (pager_show fuel e))"

section \<open>Reference\<close>

text \<open>How far the first \<open>n\<close> lines of a text reach, and how many lines end in it.\<close>

fun lines_end :: "nat \<Rightarrow> char list \<Rightarrow> nat" where
  "lines_end 0 t = 0"
| "lines_end (Suc n) [] = 0"
| "lines_end (Suc n) (c # t) = Suc (lines_end (if c = NEWLINE then n else Suc n) t)"

definition newlines :: "char list \<Rightarrow> nat" where
  "newlines t = length (filter (\<lambda>c. c = NEWLINE) t)"

definition text_at :: "char block \<Rightarrow> nat \<Rightarrow> char list \<Rightarrow> bool" where
  "text_at b base t = (base + length t \<le> blk_len b \<and> (\<forall>i < length t. blk_cell b (base + i) = Some (t ! i)))"

lemma newlines_simps [simp]:
  "newlines [] = 0"
  "newlines (c # t) = (if c = NEWLINE then 1 else 0) + newlines t"
  "newlines (s @ t) = newlines s + newlines t"
  by (simp_all add: newlines_def)

lemma text_at_load: "text_at b base t \<Longrightarrow> i < length t \<Longrightarrow> load b (base + i) = Inr (t ! i)"
  by (simp add: text_at_def load_def)

lemma lines_end_le: "lines_end n t \<le> length t"
  by (induction n t rule: lines_end.induct) auto

lemma newlines_lines_end: "newlines (take (lines_end n t) t) \<le> n"
  by (induction n t rule: lines_end.induct) auto

lemma lines_end_full: "lines_end n t < length t \<Longrightarrow> newlines (take (lines_end n t) t) = n"
  by (induction n t rule: lines_end.induct) auto

lemma lines_end_all: "newlines t < n \<Longrightarrow> lines_end n t = length t"
proof (induction n t rule: lines_end.induct)
  case (3 n c t)
  then show ?case by (cases "c = NEWLINE") auto
qed auto

lemma lines_end_0: "lines_end n t = 0 \<longleftrightarrow> n = 0 \<or> t = []"
  by (cases n; cases t) auto

lemma count_of_lines_text:
  "text_at b base t \<Longrightarrow> j \<le> length t \<Longrightarrow> count_of_lines b base i j = Inr (newlines (take (j - i) (drop i t)))"
proof (induction "j - i" arbitrary: i)
  case 0
  then show ?case by (simp add: count_of_lines.simps[of b base i j])
next
  case (Suc d)
  then have i: "i < length t" by simp
  have d: "drop i t = t ! i # drop (Suc i) t" using i by (rule Cons_nth_drop_Suc[symmetric])
  have j: "j - i = Suc (j - Suc i)" "i < j" using Suc(2) by simp_all
  then show ?case using Suc(1)[of "Suc i"] Suc(2-4) i d j text_at_load[OF Suc(3) i]
    by (simp add: count_of_lines.simps[of b base i j])
qed

lemma find_loop_text:
  "text_at b base t \<Longrightarrow> i \<le> length t \<Longrightarrow> count \<le> n \<Longrightarrow>
   find_loop b base (length t) n i count = Inr (i + lines_end (n - count) (drop i t))"
proof (induction "length t - i" arbitrary: i count)
  case 0
  have f: "find_loop b base (length t) n i count = Inr i" by (subst find_loop.simps) (use 0 in simp)
  have e: "drop i t = []" using 0(1) by simp
  have "lines_end m [] = 0" for m by (cases m) simp_all
  then show ?case by (simp only: f e) simp
next
  case (Suc d)
  then have i: "i < length t" by simp
  have d: "drop i t = t ! i # drop (Suc i) t" using i by (rule Cons_nth_drop_Suc[symmetric])
  show ?case
  proof (cases "count < n")
    case True
    then obtain m where m: "n - count = Suc m" by (cases "n - count") auto
    then have m': "n - Suc count = m" by simp
    show ?thesis using True Suc(1)[of "Suc i"] Suc(2-5) i d m m' text_at_load[OF Suc(3) i]
      by (simp add: find_loop.simps[of b base "length t" n i count])
  next
    case False
    then show ?thesis by (subst find_loop.simps) (use Suc(5) in simp)
  qed
qed

lemma find_ln_text: "text_at b base t \<Longrightarrow> find_ln b base (length t) n = Inr (lines_end n t)"
  using find_loop_text[of b base t 0 0 n] by (simp add: find_ln_def)

lemma read_bytes_text:
  "text_at b base t \<Longrightarrow> off + n \<le> length t \<Longrightarrow> read_bytes b (base + off) n = Inr (take n (drop off t))"
proof (induction n arbitrary: off)
  case (Suc n)
  then have o: "off < length t" by simp
  have d: "drop off t = t ! off # drop (Suc off) t" using o by (rule Cons_nth_drop_Suc[symmetric])
  show ?case using Suc.IH[of "Suc off"] Suc.prems text_at_load[OF Suc.prems(1) o] d by simp
qed simp

lemma read_bytes_beyond:
  "i < n \<Longrightarrow> load b (off + i) = Inl Undefined \<Longrightarrow> read_bytes b off n = Inl Undefined"
proof (induction n arbitrary: off i)
  case (Suc n)
  have f: "load b off = Inl e \<Longrightarrow> e = Undefined" for e
    by (auto simp: load_def split: if_splits option.splits)
  show ?case
  proof (cases i)
    case 0
    then show ?thesis using Suc.prems by simp
  next
    case (Suc i')
    then show ?thesis using Suc.IH[of i' "Suc off"] Suc.prems f by (cases "load b off") auto
  qed
qed simp

section \<open>Writing\<close>

definition writes_all :: "(nat \<Rightarrow> nat \<Rightarrow> int) \<Rightarrow> bool" where
  "writes_all wr = (\<forall>k r. wr k r = int r)"

text \<open>When every call writes all it is given, the first \<open>mx\<close> lines come out, and nothing else.\<close>

lemma write_lines_full:
  assumes "text_at b base t" and "writes_all wr" and "length t < SIZE_MOD"
  shows "write_lines (Suc (Suc fuel)) wr b base (length t) mx = Inr (lines_end mx t, take (lines_end mx t) t)"
proof (cases "0 < length t \<and> 0 < mx")
  case False
  then show ?thesis by (auto simp: write_lines_def lines_end_0)
next
  case True
  let ?r = "lines_end mx t"
  have r: "?r \<le> length t" by (rule lines_end_le)
  have up: "sz_of_int (int 0 + int ?r) = ?r"
    using r assms(3) by (simp add: sz_of_int_def SIZE_MOD_def nat_mod_distrib flip: zmod_int)
  have w: "wr 0 ?r = int ?r" using assms(2) by (simp add: writes_all_def)
  have "\<not> (?r < length t \<and> newlines (take ?r t) < mx)" using lines_end_full[of mx t] by auto
  then have rest: "write_loop (Suc fuel) wr b base (length t) mx 1 ?r (newlines (take ?r t)) = Inr (?r, [])"
    by auto
  show ?thesis unfolding write_lines_def
    using True find_ln_text[OF assms(1)] read_bytes_text[OF assms(1), of 0 ?r]
      count_of_lines_text[OF assms(1), of ?r 0] r w up rest
    by (simp del: write_loop.simps(2) add: write_loop.simps(2)[of "Suc fuel"] Let_def)
qed

text \<open>
  After a call that wrote only \<open>k\<close> bytes, the number of bytes to write is again counted from the start
  of the text, but written from behind the \<open>k\<close> bytes: when they reach behind the text, bytes there are read.
\<close>

lemma partial_write_overreads:
  assumes "text_at b base t" and "wr 0 (lines_end mx t) = int k" and "0 < k" and "k \<le> lines_end mx t" and "k < length t"
    and "length t < k + lines_end (mx - newlines (take k t)) t"
    and "length t < SIZE_MOD" and "load b (base + length t) = Inl Undefined"
  shows "write_lines (Suc (Suc fuel)) wr b base (length t) mx = Inl Undefined"
proof -
  let ?l = "newlines (take k t)" and ?r = "lines_end mx t"
  have up: "sz_of_int (int 0 + int k) = k"
    using assms(5,7) by (simp add: sz_of_int_def SIZE_MOD_def nat_mod_distrib flip: zmod_int)
  have r: "?r \<le> length t" by (rule lines_end_le)
  have lt: "?l < mx"
  proof (rule ccontr)
    assume "\<not> ?l < mx"
    then have "lines_end (mx - ?l) t = 0" by (simp add: lines_end_0)
    then show False using assms(5,6) by simp
  qed
  then have mx: "0 < mx" by simp
  have "load b ((base + k) + (length t - k)) = Inl Undefined" using assms(5,8) by simp
  then have over: "read_bytes b (base + k) (lines_end (mx - ?l) t) = Inl Undefined"
    by (rule read_bytes_beyond[rotated]) (use assms(5,6) in simp)
  have second: "write_loop (Suc fuel) wr b base (length t) mx 1 k ?l = Inl Undefined"
    using find_ln_text[OF assms(1), of "mx - ?l"] over lt assms(5) by simp
  have ne: "t \<noteq> []" using assms(5) by auto
  show ?thesis unfolding write_lines_def
    using find_ln_text[OF assms(1), of mx] read_bytes_text[OF assms(1), of 0 ?r] r mx assms(2-5)
      count_of_lines_text[OF assms(1), of k 0] up second ne
    by (simp del: write_loop.simps(2) add: write_loop.simps(2)[of "Suc fuel"] Let_def)
qed

text \<open>A failed first call is noticed only after the lines of an endless stretch were counted.\<close>

lemma failed_write_overreads:
  assumes "text_at b base t" and "t \<noteq> []" and "0 < mx" and "wr 0 (lines_end mx t) = -1"
    and "load b (base + length t) = Inl Undefined" and "length t < SIZE_MOD - 1"
  shows "write_lines (Suc fuel) wr b base (length t) mx = Inl Undefined"
proof -
  have up: "sz_of_int (-1) = SIZE_MOD - 1" by (simp add: sz_of_int_def SIZE_MOD_def)
  have "count_of_lines b base i (SIZE_MOD - 1) = Inl Undefined" if "i \<le> length t" for i
    using that
  proof (induction "length t - i" arbitrary: i)
    case 0
    then show ?case using assms(5,6) by (subst count_of_lines.simps) simp
  next
    case (Suc d)
    then have "i < length t" by simp
    then show ?case using Suc assms(6) text_at_load[OF assms(1), of i]
      by (subst count_of_lines.simps) simp
  qed
  from this[of 0] show ?thesis unfolding write_lines_def
    using find_ln_text[OF assms(1), of mx] read_bytes_text[OF assms(1), of 0 "lines_end mx t"] lines_end_le[of mx t]
      assms(2-4) up
    by (simp add: Let_def)
qed

section \<open>The pager\<close>

text \<open>
  \<open>text\<close> is what the server sent so far: it is in the buffer, the screen shows a prefix of it, and
  not more than a screenful since the last key.
\<close>

definition pager_inv :: "pager_t \<Rightarrow> char list \<Rightarrow> bool" where
  "pager_inv p t =
     (blk_len (in_buffer p) = IN_BUFFER_SIZE \<and> text_at (in_buffer p) 0 t \<and> p_received p = length t \<and>
      p_written p \<le> length t \<and> screen p = take (p_written p) t \<and> cnt_on_screen p \<le> MAX_SCREEN_LINES)"

text \<open>
  Writes are whole, and a socket that is ready gives at most as many bytes as it was asked for, and
  no error.
\<close>

definition pager_env_ok :: "pager_env \<Rightarrow> pager_t \<Rightarrow> bool" where
  "pager_env_ok e p = (writes_all (pe_write e) \<and>
     (pe_sock e \<longrightarrow> (case pe_read e of None \<Rightarrow> False | Some bs \<Rightarrow> length bs \<le> IN_BUFFER_SIZE - p_received p)))"

lemma pager_start_inv: "pager_inv (pager_start True) []"
  by (simp add: pager_inv_def pager_start_def text_at_def fresh_block_def)

lemma text_at_drop: "text_at b 0 t \<Longrightarrow> w \<le> length t \<Longrightarrow> text_at b w (drop w t)"
  by (simp add: text_at_def)

lemma pager_read_inv:
  assumes "pager_inv p t" and "pager_env_ok e p"
  shows "\<exists>p'. pager_read e p = Inr p' \<and> cnt_on_screen p' = cnt_on_screen p \<and> screen p' = screen p \<and>
    pager_inv p' (t @ (if pe_sock e then the (pe_read e) else []))"
proof (cases "pe_sock e")
  case False
  then show ?thesis using assms by (simp add: pager_read_def)
next
  case True
  obtain bs where bs: "pe_read e = Some bs" "length bs \<le> IN_BUFFER_SIZE - length t"
    using assms True by (auto simp: pager_env_ok_def pager_inv_def split: option.splits)
  have t: "text_at (in_buffer p) 0 t" "length t \<le> IN_BUFFER_SIZE" "p_received p = length t"
    using assms(1) by (auto simp: pager_inv_def text_at_def)
  obtain b' where b': "store_list (in_buffer p) (length t) bs = Inr b'" "blk_len b' = blk_len (in_buffer p)"
      "\<And>i. blk_cell b' i = (if length t \<le> i \<and> i < length t + length bs then Some (bs ! (i - length t)) else blk_cell (in_buffer p) i)"
    using store_list_in_block[of "length t" bs "in_buffer p"] bs(2) assms(1) t(2) by (fastforce simp: pager_inv_def)
  have "text_at b' 0 (t @ bs)"
    using t bs(2) b' assms(1) by (auto simp: text_at_def pager_inv_def nth_append)
  moreover have "length t + length bs < SIZE_MOD" using bs(2) t(2) by (simp add: IN_BUFFER_SIZE_def SIZE_MOD_def)
  ultimately show ?thesis using True bs(1) b' assms(1) by (simp add: pager_read_def pager_inv_def)
qed

lemma pager_keys_inv:
  "pager_inv p t \<Longrightarrow> safe (pager_keys e p) (\<lambda>p'. pager_inv p' t)"
  by (auto simp: pager_keys_def pager_inv_def intro!: safe_guard)

lemma pager_show_inv:
  assumes "pager_inv p t" and "writes_all (pe_write e)"
  shows "\<exists>p'. pager_show (Suc (Suc fuel)) e p = Inr p' \<and> pager_inv p' t"
proof (cases "pe_keys e \<or> pe_sock e")
  case False
  then show ?thesis using assms(1) by (simp add: pager_show_def)
next
  case True
  let ?w = "p_written p" and ?rest = "drop (p_written p) t"
  have i: "text_at (in_buffer p) 0 t" "?w \<le> length t" "length t \<le> IN_BUFFER_SIZE" "p_received p = length t"
      "cnt_on_screen p \<le> MAX_SCREEN_LINES" "screen p = take ?w t"
    using assms(1) by (auto simp: pager_inv_def text_at_def)
  have big: "IN_BUFFER_SIZE < SIZE_MOD" "MAX_SCREEN_LINES < SIZE_MOD"
    by (simp_all add: IN_BUFFER_SIZE_def MAX_SCREEN_LINES_def SIZE_MOD_def)
  let ?mx = "MAX_SCREEN_LINES - cnt_on_screen p"
  let ?r = "lines_end ?mx ?rest"
  have r: "?r \<le> length ?rest" by (rule lines_end_le)
  have w: "write_lines (Suc (Suc fuel)) (pe_write e) (in_buffer p) ?w (length ?rest) ?mx = Inr (?r, take ?r ?rest)"
    by (rule write_lines_full[OF text_at_drop[OF i(1,2)] assms(2)]) (use i(3) big in simp)
  have n: "count_of_lines (in_buffer p) 0 ?w (?w + ?r) = Inr (newlines (take ?r ?rest))"
    using count_of_lines_text[OF i(1), of "?w + ?r" ?w] r i(2) by simp
  have few: "newlines (take ?r ?rest) \<le> ?mx" by (rule newlines_lines_end)
  have sizes: "sz_sub (p_received p) ?w = length ?rest" "sz_sub MAX_SCREEN_LINES (cnt_on_screen p) = ?mx"
      "sz_add ?w ?r = ?w + ?r" "sz_add (cnt_on_screen p) (newlines (take ?r ?rest)) = cnt_on_screen p + newlines (take ?r ?rest)"
    using i r few big by simp_all
  have shown: "pager_show (Suc (Suc fuel)) e p = Inr (p\<lparr>cnt_on_screen := cnt_on_screen p + newlines (take ?r ?rest),
      p_written := ?w + ?r, screen := screen p @ take ?r ?rest\<rparr>)"
    using True by (simp only: pager_show_def sizes w bind_r_simps prod.case n if_True)
  moreover have "?w + ?r \<le> length t" "cnt_on_screen p + newlines (take ?r ?rest) \<le> MAX_SCREEN_LINES"
    using i(2,5) few r by simp_all
  ultimately show ?thesis using assms(1) i by (simp add: pager_inv_def take_add)
qed

lemma pager_round_inv:
  assumes "pager_inv p t" and "pager_env_ok e p"
  shows "safe (pager_round (Suc (Suc fuel)) e p) (\<lambda>p'. pager_inv p' (t @ (if pe_sock e then the (pe_read e) else [])))"
proof -
  obtain p1 where p1: "pager_read e p = Inr p1" "pager_inv p1 (t @ (if pe_sock e then the (pe_read e) else []))"
    using pager_read_inv[OF assms] by blast
  have w: "writes_all (pe_write e)" using assms(2) by (simp add: pager_env_ok_def)
  show ?thesis unfolding pager_round_def p1(1) bind_r_simps
    by (rule safe_bind[OF pager_keys_inv[OF p1(2)]]) (metis pager_show_inv[OF _ w] safe_simps(1))
qed

end
