(* ===== verification/Pager_Run.thy ===== *)
theory Pager_Run
  imports Pager "HOL-Library.Sublist"
begin

text \<open>
  \<open>http/28.c\<close>: \<open>main\<close> as a whole, from the connection to the end of its loop. A run is a list of
  rounds; the loop ends when the server has closed and everything is written.
\<close>

section \<open>Connecting\<close>

text \<open>
  \<open>name2addr\<close> ends the process when the name is not found, unlike that of \<open>socket_utils.c\<close>. The request is
  written with \<open>write_\<close>, without a bound on the lines.
\<close>

definition name2addr28 ::
    "(char list \<Rightarrow> hostent option) \<Rightarrow> char list \<Rightarrow> 16 word \<Rightarrow> sockaddr_in \<Rightarrow> sockaddr_in res" where
  "name2addr28 resolve host_name host_port sock_addr =
     (case resolve host_name of
        None \<Rightarrow> Inl Exit
      | Some server \<Rightarrow>
          bind_r (defined_r (h_length server \<le> 4 \<and> h_length server \<le> length (h_addr server))) (\<lambda>_.
          Inr (sock_addr\<lparr>sin_zero := replicate 8 0, sin_family := AF_INET, sin_port := htons host_port,
            s_addr := take (h_length server) (h_addr server) @ drop (h_length server) (s_addr sock_addr)\<rparr>)))"

definition page_request :: "char list" where
  "page_request =
     ''GET /WackoWiki/KursOperacionnyeSistemy/PraktikumPosixThreads/PthreadTasks HTTP/1.1'' @ CRLF @
     ''Host: parallels.nsu.ru'' @ CRLF @ CRLF"

record connect_env =
  ce_socket :: int
  ce_resolve :: "char list \<Rightarrow> hostent option"
  ce_junk :: sockaddr_in
  ce_connect :: "sockaddr_in \<Rightarrow> int"
  ce_write :: "nat \<Rightarrow> nat \<Rightarrow> int"

text \<open>The literal in memory, with its terminator.\<close>

definition literal :: "char list \<Rightarrow> char block" where
  "literal t = \<lparr>blk_len = length t + 1, blk_cell = (\<lambda>i. Some (if i < length t then t ! i else NUL))\<rparr>"

text \<open>What the server gets.\<close>

definition pager_connect :: "nat \<Rightarrow> connect_env \<Rightarrow> char list res" where
  "pager_connect fuel e =
     bind_r (assert_r (0 \<le> ce_socket e)) (\<lambda>_.
     bind_r (name2addr28 (ce_resolve e) ''parallels.nsu.ru'' 80 (ce_junk e)) (\<lambda>addr.
     bind_r (assert_r (ce_connect e addr = 0)) (\<lambda>_.
     bind_r (write_lines fuel (ce_write e) (literal page_request) 0 (length page_request) (nat INT_MAX)) (\<lambda>(n, out).
     Inr out))))"

lemma literal_text: "text_at (literal t) 0 t"
  by (simp add: text_at_def literal_def)

lemma page_request_lines: "newlines page_request < nat INT_MAX" "length page_request < SIZE_MOD"
  by (simp_all add: page_request_def newlines_def CRLF_def INT_MAX_def SIZE_MOD_def)

text \<open>When the calls succeed and \<open>write\<close> takes all it gets, the server receives the request.\<close>

lemma pager_connects:
  assumes "0 \<le> ce_socket e" and "resolver_ok (ce_resolve e)" and "ce_resolve e ''parallels.nsu.ru'' \<noteq> None"
    and "\<And>a. ce_connect e a = 0" and "writes_all (ce_write e)"
  shows "pager_connect (Suc (Suc fuel)) e = Inr page_request"
proof -
  obtain s where s: "ce_resolve e ''parallels.nsu.ru'' = Some s" using assms(3) by auto
  then have "h_length s = 4" "length (h_addr s) = 4" using assms(2) by (auto simp: resolver_ok_def)
  moreover have "lines_end (nat INT_MAX) page_request = length page_request"
    by (rule lines_end_all[OF page_request_lines(1)])
  ultimately show ?thesis
    using s assms(1,4) write_lines_full[OF literal_text assms(5) page_request_lines(2), of fuel "nat INT_MAX"]
    by (simp add: pager_connect_def name2addr28_def)
qed

lemma unknown_host_exits:
  assumes "0 \<le> ce_socket e" and "ce_resolve e ''parallels.nsu.ru'' = None"
  shows "pager_connect fuel e = Inl Exit"
  using assms by (simp add: pager_connect_def name2addr28_def)

section \<open>The loop\<close>

fun pager_run :: "nat \<Rightarrow> pager_env list \<Rightarrow> pager_t \<Rightarrow> pager_t res" where
  "pager_run fuel [] p = Inr p"
| "pager_run fuel (e # es) p =
     (if pager_goes_on p then bind_r (pager_round fuel e p) (pager_run fuel es) else Inr p)"

fun pager_run_ok :: "nat \<Rightarrow> pager_env list \<Rightarrow> pager_t \<Rightarrow> bool" where
  "pager_run_ok fuel [] p = True"
| "pager_run_ok fuel (e # es) p =
     (pager_goes_on p \<longrightarrow> pager_env_ok e p \<and>
        (case pager_round fuel e p of Inr p' \<Rightarrow> pager_run_ok fuel es p' | Inl _ \<Rightarrow> True))"

text \<open>What the socket delivers in these rounds.\<close>

definition sock_bytes :: "pager_env \<Rightarrow> char list" where
  "sock_bytes e = (if pe_sock e then the (pe_read e) else [])"

lemma pager_run_safe:
  assumes "pager_inv p t" and "pager_run_ok (Suc (Suc fuel)) es p"
  shows "safe (pager_run (Suc (Suc fuel)) es p) (\<lambda>p'. \<exists>more. pager_inv p' (t @ more) \<and>
    prefix more (concat (map sock_bytes es)))"
  using assms
proof (induction es arbitrary: p t)
  case Nil
  then show ?case by (auto intro!: exI[of _ "[]"])
next
  case (Cons e es)
  show ?case
  proof (cases "pager_goes_on p")
    case False
    then show ?thesis using Cons.prems(1) by (auto intro!: exI[of _ "[]"])
  next
    case True
    then have ok: "pager_env_ok e p"
        "\<And>p'. pager_round (Suc (Suc fuel)) e p = Inr p' \<Longrightarrow> pager_run_ok (Suc (Suc fuel)) es p'"
      using Cons.prems(2) by auto
    have "safe (bind_r (pager_round (Suc (Suc fuel)) e p) (pager_run (Suc (Suc fuel)) es))
      (\<lambda>p'. \<exists>more. pager_inv p' (t @ more) \<and> prefix more (concat (map sock_bytes (e # es))))"
    proof (rule safe_bind[OF pager_round_inv[OF Cons.prems(1) ok(1)]])
      fix q
      assume q: "pager_round (Suc (Suc fuel)) e p = Inr q" "pager_inv q (t @ (if pe_sock e then the (pe_read e) else []))"
      have "pager_inv q (t @ sock_bytes e)" using q(2) by (simp add: sock_bytes_def)
      from Cons.IH[OF this ok(2)[OF q(1)]]
      show "safe (pager_run (Suc (Suc fuel)) es q)
        (\<lambda>p'. \<exists>more. pager_inv p' (t @ more) \<and> prefix more (concat (map sock_bytes (e # es))))"
      proof (rule safe_mono, elim exE conjE)
        fix r more
        assume "pager_inv r ((t @ sock_bytes e) @ more)" "prefix more (concat (map sock_bytes es))"
        then show "\<exists>more. pager_inv r (t @ more) \<and> prefix more (concat (map sock_bytes (e # es)))"
          by (intro exI[of _ "sock_bytes e @ more"]) simp
      qed
    qed
    then show ?thesis using True by simp
  qed
qed

lemma pager_done: "pager_inv p t \<Longrightarrow> \<not> pager_goes_on p \<Longrightarrow> screen p = t \<and> p_is_end p"
  by (simp add: pager_inv_def pager_goes_on_def)

text \<open>
  A failed \<open>read\<close> takes 1 from the number received. When everything was shown, the next size to write
  wraps around, and what is behind the text is read.
\<close>

lemma failed_read_overreads:
  assumes i: "pager_inv p t" and all: "p_written p = length t" and room: "cnt_on_screen p < MAX_SCREEN_LINES"
    and e: "pe_sock e" "pe_read e = None" "\<not> pe_keys e" and behind: "load (in_buffer p) (length t) = Inl Undefined"
  shows "pager_round (Suc fuel) e p = Inl Undefined"
proof -
  have t: "length t < SIZE_MOD" "p_received p = length t"
    using i by (auto simp: pager_inv_def text_at_def IN_BUFFER_SIZE_def SIZE_MOD_def)
  have n: "sz_sub (sz_sub (length t) 1) (length t) = SIZE_MOD - 1"
    using t(1) by (cases "length t") (simp_all add: sz_sub_def SIZE_MOD_def mod_if)
  have "sz_sub MAX_SCREEN_LINES (cnt_on_screen p) = MAX_SCREEN_LINES - cnt_on_screen p"
    using room by (simp add: MAX_SCREEN_LINES_def SIZE_MOD_def)
  moreover have "find_ln (in_buffer p) (length t) (SIZE_MOD - 1) m = Inl Undefined" if "0 < m" for m
    using that behind unfolding find_ln_def by (subst find_loop.simps) (simp add: SIZE_MOD_def)
  ultimately show ?thesis using e room n t(2)
    by (simp add: pager_round_def pager_read_def pager_keys_def pager_show_def write_lines_def all SIZE_MOD_def)
qed

section \<open>To the end of the page\<close>

text \<open>A round in which a key is pressed after the server has closed.\<close>

definition key_round :: "pager_env \<Rightarrow> bool" where
  "key_round e =
     (pe_keys e \<and> pe_read_keys e \<noteq> -1 \<and> writes_all (pe_write e) \<and> (pe_sock e \<longrightarrow> pe_read e = Some []))"

text \<open>Each key shows twenty more lines, or the rest.\<close>

lemma key_round_shows:
  assumes i: "pager_inv p t" and en: "p_is_end p" and k: "key_round e"
  shows "\<exists>p'. pager_round (Suc (Suc fuel)) e p = Inr p' \<and> pager_inv p' t \<and> p_is_end p' \<and>
    p_written p' = p_written p + lines_end MAX_SCREEN_LINES (drop (p_written p) t)"
proof -
  let ?w = "p_written p" and ?rest = "drop (p_written p) t"
  let ?r = "lines_end MAX_SCREEN_LINES ?rest"
  have inv: "text_at (in_buffer p) 0 t" "?w \<le> length t" "length t \<le> IN_BUFFER_SIZE" "p_received p = length t"
      "screen p = take ?w t" "blk_len (in_buffer p) = IN_BUFFER_SIZE"
    using i by (auto simp: pager_inv_def text_at_def)
  have big: "IN_BUFFER_SIZE < SIZE_MOD" "MAX_SCREEN_LINES < SIZE_MOD"
    by (simp_all add: IN_BUFFER_SIZE_def MAX_SCREEN_LINES_def SIZE_MOD_def)
  obtain b where b: "store_list (in_buffer p) (length t) [] = Inr b" "text_at b 0 t" "blk_len b = IN_BUFFER_SIZE"
    using store_list_in_block[of "length t" "[]" "in_buffer p"] inv by (auto simp: text_at_def)
  define q where "q = (if pe_sock e then p\<lparr>in_buffer := b\<rparr> else p)"
  have same: "sz_add (length t) 0 = length t" using inv(3) big by simp
  have q: "pager_read e p = Inr q" "pager_inv q t" "p_is_end q" "p_written q = ?w" "cnt_on_screen q = cnt_on_screen p"
    using i en k b inv same by (auto simp: q_def pager_read_def key_round_def pager_inv_def intro!: pager_t.equality)
  let ?q = "q\<lparr>cnt_on_screen := 0\<rparr>"
  have keys: "pager_keys e q = Inr ?q" using k by (simp add: pager_keys_def key_round_def)
  have inv': "text_at (in_buffer ?q) 0 t" "p_received ?q = length t" "p_written ?q = ?w" "cnt_on_screen ?q = 0"
    using q by (simp_all add: pager_inv_def)
  have r: "?r \<le> length ?rest" by (rule lines_end_le)
  have w: "write_lines (Suc (Suc fuel)) (pe_write e) (in_buffer ?q) ?w (length ?rest) MAX_SCREEN_LINES = Inr (?r, take ?r ?rest)"
    by (rule write_lines_full[OF text_at_drop[OF inv'(1) inv(2)]]) (use k inv(3) big in \<open>simp_all add: key_round_def\<close>)
  have n: "count_of_lines (in_buffer ?q) 0 ?w (?w + ?r) = Inr (newlines (take ?r ?rest))"
    using count_of_lines_text[OF inv'(1), of "?w + ?r" ?w] r inv(2) by simp
  have few: "newlines (take ?r ?rest) \<le> MAX_SCREEN_LINES" by (rule newlines_lines_end)
  have sizes: "sz_sub (p_received ?q) ?w = length ?rest" "sz_sub MAX_SCREEN_LINES (cnt_on_screen ?q) = MAX_SCREEN_LINES"
      "sz_add ?w ?r = ?w + ?r" "sz_add (cnt_on_screen ?q) (newlines (take ?r ?rest)) = newlines (take ?r ?rest)"
    using inv inv' r few big by simp_all
  have shown: "pager_show (Suc (Suc fuel)) e ?q = Inr (?q\<lparr>cnt_on_screen := newlines (take ?r ?rest),
      p_written := ?w + ?r, screen := screen ?q @ take ?r ?rest\<rparr>)"
  proof -
    have "(pe_keys e \<or> pe_sock e) = True" using k by (simp add: key_round_def)
    then show ?thesis by (simp only: pager_show_def inv'(3) sizes w n bind_r_simps prod.case if_True)
  qed
  let ?p' = "?q\<lparr>cnt_on_screen := newlines (take ?r ?rest), p_written := ?w + ?r, screen := screen ?q @ take ?r ?rest\<rparr>"
  have "pager_round (Suc (Suc fuel)) e p = Inr ?p'" by (simp add: pager_round_def q(1) keys shown)
  moreover have "pager_inv ?p' t" using q few r inv(2) by (simp add: pager_inv_def take_add)
  ultimately show ?thesis using q(3) by auto
qed

lemma key_round_screen:
  assumes i: "pager_inv p t" and "p_is_end p" and "key_round e"
  shows "\<exists>q. pager_round (Suc (Suc fuel)) e p = Inr q \<and> pager_inv q t \<and> p_is_end q \<and>
    (\<exists>more. screen q = screen p @ more \<and> prefix (screen q) t \<and>
       (newlines more = MAX_SCREEN_LINES \<or> newlines more \<le> MAX_SCREEN_LINES \<and> screen q = t))"
proof -
  let ?rest = "drop (p_written p) t"
  let ?r = "lines_end MAX_SCREEN_LINES ?rest"
  obtain q where q: "pager_round (Suc (Suc fuel)) e p = Inr q" "pager_inv q t" "p_is_end q" "p_written q = p_written p + ?r"
    using key_round_shows[OF assms] by blast
  have "screen q = screen p @ take ?r ?rest" "p_written p \<le> length t"
    using i q(2,4) by (auto simp: pager_inv_def take_add)
  moreover have "newlines (take ?r ?rest) = MAX_SCREEN_LINES \<or> screen q = t"
  proof (cases "?r < length ?rest")
    case True
    then show ?thesis using lines_end_full by blast
  next
    case False
    then show ?thesis using q(2,4) by (simp add: pager_inv_def)
  qed
  moreover have "prefix (screen q) t" using q(2) by (simp add: pager_inv_def take_is_prefix)
  ultimately show ?thesis using q newlines_lines_end[of MAX_SCREEN_LINES ?rest] by blast
qed

lemma lines_shown:
  "newlines (drop (w + lines_end n (drop w t)) t) + n \<le> newlines (drop w t) \<or> w + lines_end n (drop w t) = length t"
  if "w \<le> length t"
proof (cases "lines_end n (drop w t) < length (drop w t)")
  case True
  let ?r = "lines_end n (drop w t)"
  have "newlines (take ?r (drop w t)) = n" using lines_end_full[OF True] .
  moreover have "newlines (drop w t) = newlines (take ?r (drop w t)) + newlines (drop (w + ?r) t)"
    by (metis add.commute append_take_drop_id drop_drop newlines_simps(3))
  ultimately show ?thesis by simp
next
  case False
  then show ?thesis using lines_end_le[of n "drop w t"] that by simp
qed

lemma keys_show_all:
  assumes "pager_inv p t" and "p_is_end p" and "list_all key_round es"
    and "newlines (drop (p_written p) t) < MAX_SCREEN_LINES * length es"
  shows "\<exists>p'. pager_run (Suc (Suc fuel)) es p = Inr p' \<and> screen p' = t \<and> \<not> pager_goes_on p'"
  using assms
proof (induction es arbitrary: p)
  case Nil
  then show ?case by simp
next
  case (Cons e es)
  have stop: "\<exists>p'. pager_run (Suc (Suc fuel)) fs q = Inr p' \<and> screen p' = t \<and> \<not> pager_goes_on p'"
    if "pager_inv q t" "\<not> pager_goes_on q" for q fs
    using that pager_done[OF that] by (cases fs) auto
  show ?case
  proof (cases "pager_goes_on p")
    case False
    then show ?thesis using stop[OF Cons.prems(1)] by blast
  next
    case True
    obtain q where q: "pager_round (Suc (Suc fuel)) e p = Inr q" "pager_inv q t" "p_is_end q"
        "p_written q = p_written p + lines_end MAX_SCREEN_LINES (drop (p_written p) t)"
      using key_round_shows[OF Cons.prems(1,2), of e fuel] Cons.prems(3) by auto
    have w: "p_written p \<le> length t" using Cons.prems(1) by (simp add: pager_inv_def)
    have run: "pager_run (Suc (Suc fuel)) (e # es) p = pager_run (Suc (Suc fuel)) es q" using True q(1) by simp
    show ?thesis
    proof (cases "p_written q = length t")
      case True
      then have "\<not> pager_goes_on q" using q(2,3) by (simp add: pager_goes_on_def pager_inv_def)
      then show ?thesis using stop[OF q(2)] run by simp
    next
      case False
      then have "newlines (drop (p_written q) t) + MAX_SCREEN_LINES \<le> newlines (drop (p_written p) t)"
        using lines_shown[OF w, of MAX_SCREEN_LINES] q(4) by simp
      then have "newlines (drop (p_written q) t) < MAX_SCREEN_LINES * length es" using Cons.prems(4) by simp
      then show ?thesis using Cons.IH[OF q(2,3)] Cons.prems(3) run by simp
    qed
  qed
qed

end
