(* ===== verification/Pthread.thy ===== *)
theory Pthread
  imports Prelude
begin

text \<open>
  What the programs use of \<open>pthread_mutex_t\<close>: a default mutex, seen by the thread that calls. Taking
  a mutex that the thread itself holds blocks for ever; the calls on a destroyed mutex and the
  release of a free one are undefined. A call that is none of these returns 0, so the macro
  \<open>CE\<close> or \<open>CEM\<close> around it does nothing; on any other result they end the process.
\<close>

definition cem :: "int \<Rightarrow> unit res" where
  "cem code = assert_r (\<not> code \<noteq> 0)"

definition ce :: "int \<Rightarrow> unit res" where
  "ce code = assert_r (\<not> code \<noteq> 0)"

lemma ce_simps [simp]: "ce 0 = Inr ()" "code \<noteq> 0 \<Longrightarrow> ce code = Inl Exit"
  by (simp_all add: ce_def)

lemma cem_one: "cem 1 = Inl Exit"
  by (simp add: cem_def)

datatype mutex = Unlocked | Locked | MDestroyed

definition mutex_lock :: "mutex \<Rightarrow> mutex res" where
  "mutex_lock m = (case m of Unlocked \<Rightarrow> Inr Locked | Locked \<Rightarrow> Inl Diverge | MDestroyed \<Rightarrow> Inl Undefined)"

definition mutex_unlock :: "mutex \<Rightarrow> mutex res" where
  "mutex_unlock m = (case m of Locked \<Rightarrow> Inr Unlocked | Unlocked \<Rightarrow> Inl Undefined | MDestroyed \<Rightarrow> Inl Undefined)"

definition mutex_destroy :: "mutex \<Rightarrow> mutex res" where
  "mutex_destroy m = (case m of Unlocked \<Rightarrow> Inr MDestroyed | Locked \<Rightarrow> Inl Undefined | MDestroyed \<Rightarrow> Inl Undefined)"

lemma mutex_simps [simp]:
  "mutex_lock Unlocked = Inr Locked"
  "mutex_lock Locked = Inl Diverge"
  "mutex_lock MDestroyed = Inl Undefined"
  "mutex_unlock Locked = Inr Unlocked"
  "mutex_unlock Unlocked = Inl Undefined"
  "mutex_unlock MDestroyed = Inl Undefined"
  "mutex_destroy Unlocked = Inr MDestroyed"
  "mutex_destroy Locked = Inl Undefined"
  "mutex_destroy MDestroyed = Inl Undefined"
  by (simp_all add: mutex_lock_def mutex_unlock_def mutex_destroy_def)

lemma mutex_lock_Inr: "mutex_lock m = Inr m' \<longleftrightarrow> m = Unlocked \<and> m' = Locked"
  by (cases m) auto

lemma mutex_unlock_Inr: "mutex_unlock m = Inr m' \<longleftrightarrow> m = Locked \<and> m' = Unlocked"
  by (cases m) auto

end
