(* ===== verification/Blocking_Queue.thy ===== *)
theory Blocking_Queue
  imports Cvector Pthread
begin

text \<open>
  \<open>task25_26/task26/blockingqueue_definition.h\<close> and \<open>blockingqueue_implementation.h\<close>: the bounded
  blocking queue on a ring buffer. An operation is the code from
  taking the mutex to the next point where it is given up: it returns, or it waits on a condition.
  \<open>take_again\<close> and \<open>put_again\<close> are the code that runs when such a wait is over.
\<close>

section \<open>Data\<close>

record 'a bq_t =
  items :: "'a block option"
  is_dropped :: bool
  is_destroyed :: bool
  bq_count :: nat
  bq_capacity :: nat
  take_index :: nat
  put_index :: nat
  bq_mutex :: mutex

text \<open>\<open>items\<close> is \<open>None\<close> once the array was freed. A reply is the returned number with what was stored in \<open>*item\<close>.\<close>

datatype ('s, 'a) reply = Return int "'a option" 's | Wait 's

section \<open>Operations\<close>

definition bq_lock :: "'a bq_t \<Rightarrow> 'a bq_t res" where
  "bq_lock q = bind_r (mutex_lock (bq_mutex q)) (\<lambda>m. Inr (q\<lparr>bq_mutex := m\<rparr>))"

definition bq_unlock :: "'a bq_t \<Rightarrow> 'a bq_t res" where
  "bq_unlock q = bind_r (mutex_unlock (bq_mutex q)) (\<lambda>m. Inr (q\<lparr>bq_mutex := m\<rparr>))"

definition bq_items :: "'a bq_t \<Rightarrow> 'a block res" where
  "bq_items q = (case items q of None \<Rightarrow> Inl Undefined | Some b \<Rightarrow> Inr b)"

text \<open>\<open>if (++index == capacity) index = 0\<close>\<close>

definition next_index :: "nat \<Rightarrow> nat \<Rightarrow> nat" where
  "next_index i cap = (if sz_add i 1 = cap then 0 else sz_add i 1)"

text \<open>The loop and what follows, with the mutex held; waiting releases it.\<close>

definition take_loop :: "'a bq_t \<Rightarrow> ('a bq_t, 'a) reply res" where
  "take_loop q =
     (if bq_count q = 0 then bind_r (bq_unlock q) (\<lambda>q. Inr (Wait q))
      else bind_r (bq_items q) (\<lambda>b.
        bind_r (load b (take_index q)) (\<lambda>item.
        bind_r (bq_unlock (q\<lparr>take_index := next_index (take_index q) (bq_capacity q),
            bq_count := sz_sub (bq_count q) 1\<rparr>)) (\<lambda>q.
        Inr (Return 1 (Some item) q)))))"

definition bq_take :: "'a bq_t \<Rightarrow> ('a bq_t, 'a) reply res" where
  "bq_take q =
     bind_r (bq_lock q) (\<lambda>q.
     if is_dropped q then Inr (Return 0 None q)
     else if is_destroyed q then Inr (Return (-1) None q)
     else take_loop q)"

definition take_again :: "'a bq_t \<Rightarrow> ('a bq_t, 'a) reply res" where
  "take_again q =
     bind_r (bq_lock q) (\<lambda>q.
     if is_dropped q then bind_r (bq_unlock q) (\<lambda>q. Inr (Return 0 None q)) else take_loop q)"

definition put_loop :: "'a \<Rightarrow> 'a bq_t \<Rightarrow> ('a bq_t, 'a) reply res" where
  "put_loop item q =
     (if bq_count q = bq_capacity q then bind_r (bq_unlock q) (\<lambda>q. Inr (Wait q))
      else bind_r (bq_items q) (\<lambda>b.
        bind_r (store b (put_index q) item) (\<lambda>b.
        bind_r (bq_unlock (q\<lparr>items := Some b, put_index := next_index (put_index q) (bq_capacity q),
            bq_count := sz_add (bq_count q) 1\<rparr>)) (\<lambda>q.
        Inr (Return 1 None q)))))"

definition bq_put :: "'a \<Rightarrow> 'a bq_t \<Rightarrow> ('a bq_t, 'a) reply res" where
  "bq_put item q =
     bind_r (bq_lock q) (\<lambda>q.
     if is_dropped q then Inr (Return 0 None q)
     else if is_destroyed q then Inr (Return (-1) None q)
     else put_loop item q)"

definition put_again :: "'a \<Rightarrow> 'a bq_t \<Rightarrow> ('a bq_t, 'a) reply res" where
  "put_again item q =
     bind_r (bq_lock q) (\<lambda>q.
     if is_dropped q then bind_r (bq_unlock q) (\<lambda>q. Inr (Return 0 None q)) else put_loop item q)"

text \<open>\<open>esz\<close> is \<open>sizeof(ELEMENT_TYPE)\<close>. The calls of \<open>pthread.h\<close> report errors by positive numbers, so the tests against -1 never fire.\<close>

definition bq_init :: "allocator \<Rightarrow> nat \<Rightarrow> nat \<Rightarrow> 'a bq_t \<Rightarrow> int \<times> 'a bq_t" where
  "bq_init al esz cap q =
     (if \<not> al (sz_mul esz cap) then (-1, q\<lparr>items := None\<rparr>)
      else (0, q\<lparr>items := Some (fresh_block cap), is_dropped := False, is_destroyed := False,
         bq_count := 0, bq_capacity := cap, take_index := 0, put_index := 0, bq_mutex := Unlocked\<rparr>))"

definition bq_drop :: "'a bq_t \<Rightarrow> (int \<times> 'a bq_t) res" where
  "bq_drop q =
     bind_r (bq_lock q) (\<lambda>q.
     if is_destroyed q then Inr (-1, q)
     else if is_dropped q then Inr (0, q)
     else bind_r (bq_items q) (\<lambda>_.
       bind_r (bq_unlock (q\<lparr>items := None\<rparr>)) (\<lambda>q. Inr (0, q))))"

definition bq_destroy :: "'a bq_t \<Rightarrow> (int \<times> 'a bq_t) res" where
  "bq_destroy q =
     bind_r (bq_lock q) (\<lambda>q.
     if is_destroyed q then Inr (-1, q)
     else bind_r (bq_unlock (q\<lparr>is_destroyed := True\<rparr>)) (\<lambda>q.
       bind_r (mutex_destroy (bq_mutex q)) (\<lambda>m.
       Inr (0, q\<lparr>bq_mutex := m\<rparr>))))"

section \<open>The queue as a list\<close>

text \<open>The ring holds \<open>xs\<close>, oldest first; it is usable: nobody dropped, destroyed or locked it.\<close>

definition ring :: "'a bq_t \<Rightarrow> 'a list \<Rightarrow> bool" where
  "ring q xs =
     (bq_mutex q = Unlocked \<and> \<not> is_dropped q \<and> \<not> is_destroyed q \<and>
      0 < bq_capacity q \<and> bq_capacity q < SIZE_MOD \<and> bq_count q = length xs \<and> length xs \<le> bq_capacity q \<and>
      take_index q < bq_capacity q \<and> put_index q = (take_index q + length xs) mod bq_capacity q \<and>
      (\<exists>b. items q = Some b \<and> blk_len b = bq_capacity q \<and>
        (\<forall>i < length xs. blk_cell b ((take_index q + i) mod bq_capacity q) = Some (xs ! i))))"

lemma bq_mutex_simps [simp]:
  "bq_mutex q = Unlocked \<Longrightarrow> bq_lock q = Inr (q\<lparr>bq_mutex := Locked\<rparr>)"
  "bq_mutex q = Locked \<Longrightarrow> bq_lock q = Inl Diverge"
  "bq_mutex q = MDestroyed \<Longrightarrow> bq_lock q = Inl Undefined"
  "bq_mutex q = Locked \<Longrightarrow> bq_unlock q = Inr (q\<lparr>bq_mutex := Unlocked\<rparr>)"
  by (simp_all add: bq_lock_def bq_unlock_def)

lemma next_index_mod: "i < c \<Longrightarrow> c < SIZE_MOD \<Longrightarrow> next_index i c = (i + 1) mod c"
  by (auto simp: next_index_def)

lemma mod_shift_neq: "i < j \<Longrightarrow> j < i + c \<Longrightarrow> (t + i) mod c \<noteq> (t + j) mod (c :: nat)"
proof
  assume a: "i < j" "j < i + c" and e: "(t + i) mod c = (t + j) mod c"
  have "c dvd (t + j) - (t + i)" using mod_eq_dvd_iff_nat[of "t + i" "t + j" c] e a(1) by simp
  then have "c dvd j - i" by simp
  then show False using a by (auto dest: dvd_imp_le)
qed

lemma ring_relock: "ring q xs \<Longrightarrow> q\<lparr>bq_mutex := Unlocked\<rparr> = q"
  by (cases q) (simp add: ring_def)

lemma put_loop_ring:
  assumes "ring q xs"
  shows "length xs = bq_capacity q \<Longrightarrow> put_loop x (q\<lparr>bq_mutex := Locked\<rparr>) = Inr (Wait q)"
    and "length xs < bq_capacity q \<Longrightarrow> \<exists>q'. put_loop x (q\<lparr>bq_mutex := Locked\<rparr>) = Inr (Return 1 None q') \<and>
      ring q' (xs @ [x]) \<and> bq_capacity q' = bq_capacity q"
proof -
  show "put_loop x (q\<lparr>bq_mutex := Locked\<rparr>) = Inr (Wait q)" if "length xs = bq_capacity q"
    using assms that ring_relock[OF assms] by (simp add: put_loop_def ring_def)
next
  assume room: "length xs < bq_capacity q"
  let ?c = "bq_capacity q" and ?t = "take_index q"
  obtain b where b: "items q = Some b" "blk_len b = ?c"
      "\<And>i. i < length xs \<Longrightarrow> blk_cell b ((?t + i) mod ?c) = Some (xs ! i)"
    using assms by (auto simp: ring_def)
  have p: "put_index q = (?t + length xs) mod ?c" "put_index q < ?c" "?c < SIZE_MOD"
    using assms by (auto simp: ring_def)
  have slot: "(?t + i) mod ?c \<noteq> put_index q" if "i < length xs" for i
    using mod_shift_neq[of i "length xs" ?c ?t] that room p(1) by simp
  have np: "next_index (put_index q) ?c = (?t + length (xs @ [x])) mod ?c"
    using next_index_mod[OF p(2,3)] p(1) by (simp add: mod_Suc_eq)
  let ?b = "b\<lparr>blk_cell := (blk_cell b)(put_index q := Some x)\<rparr>"
  let ?q = "q\<lparr>items := Some ?b, put_index := next_index (put_index q) ?c, bq_count := sz_add (bq_count q) 1\<rparr>"
  have "put_loop x (q\<lparr>bq_mutex := Locked\<rparr>) = Inr (Return 1 None (?q\<lparr>bq_mutex := Unlocked\<rparr>))"
    using assms room b p by (simp add: put_loop_def bq_items_def store_def ring_def)
  moreover have "ring (?q\<lparr>bq_mutex := Unlocked\<rparr>) (xs @ [x])"
    using assms room b p slot np by (auto simp: ring_def nth_append less_Suc_eq)
  ultimately show "\<exists>q'. put_loop x (q\<lparr>bq_mutex := Locked\<rparr>) = Inr (Return 1 None q') \<and>
      ring q' (xs @ [x]) \<and> bq_capacity q' = bq_capacity q" by auto
qed

lemma take_loop_ring:
  assumes "ring q xs"
  shows "xs = [] \<Longrightarrow> take_loop (q\<lparr>bq_mutex := Locked\<rparr>) = Inr (Wait q)"
    and "xs = x # xs' \<Longrightarrow> \<exists>q'. take_loop (q\<lparr>bq_mutex := Locked\<rparr>) = Inr (Return 1 (Some x) q') \<and>
      ring q' xs' \<and> bq_capacity q' = bq_capacity q"
proof -
  show "take_loop (q\<lparr>bq_mutex := Locked\<rparr>) = Inr (Wait q)" if "xs = []"
    using assms that ring_relock[OF assms] by (simp add: take_loop_def ring_def)
next
  assume xs: "xs = x # xs'"
  let ?c = "bq_capacity q" and ?t = "take_index q"
  obtain b where b: "items q = Some b" "blk_len b = ?c"
      "\<And>i. i < length xs \<Longrightarrow> blk_cell b ((?t + i) mod ?c) = Some (xs ! i)"
    using assms by (auto simp: ring_def)
  have t: "?t < ?c" "?c < SIZE_MOD" "bq_count q = length xs" "length xs \<le> ?c" using assms by (auto simp: ring_def)
  have first: "load b ?t = Inr x" using b(2) b(3)[of 0] t(1) xs by (simp add: load_def)
  have cell: "blk_cell b (((?t + 1) mod ?c + i) mod ?c) = Some (xs' ! i)" if "i < length xs'" for i
    using b(3)[of "Suc i"] that xs by (simp add: mod_add_left_eq)
  have put: "(((?t + 1) mod ?c) + length xs') mod ?c = (?t + length xs) mod ?c"
    using xs by (simp add: mod_add_left_eq)
  let ?q = "q\<lparr>take_index := next_index ?t ?c, bq_count := sz_sub (bq_count q) 1\<rparr>"
  have "take_loop (q\<lparr>bq_mutex := Locked\<rparr>) = Inr (Return 1 (Some x) (?q\<lparr>bq_mutex := Unlocked\<rparr>))"
    using assms b first xs by (simp add: take_loop_def bq_items_def ring_def)
  moreover have "ring (?q\<lparr>bq_mutex := Unlocked\<rparr>) xs'"
    using assms b t cell put xs next_index_mod[OF t(1,2)] by (auto simp: ring_def)
  ultimately show "\<exists>q'. take_loop (q\<lparr>bq_mutex := Locked\<rparr>) = Inr (Return 1 (Some x) q') \<and>
      ring q' xs' \<and> bq_capacity q' = bq_capacity q" by auto
qed

lemma locked_is_fresh: "ring q xs \<Longrightarrow> bq_put x q = put_loop x (q\<lparr>bq_mutex := Locked\<rparr>)"
    "ring q xs \<Longrightarrow> bq_take q = take_loop (q\<lparr>bq_mutex := Locked\<rparr>)"
    "ring q xs \<Longrightarrow> put_again x q = put_loop x (q\<lparr>bq_mutex := Locked\<rparr>)"
    "ring q xs \<Longrightarrow> take_again q = take_loop (q\<lparr>bq_mutex := Locked\<rparr>)"
  by (simp_all add: bq_put_def bq_take_def put_again_def take_again_def ring_def)

text \<open>What both kinds of client rely on: a bounded first-in first-out buffer.\<close>

locale bounded_fifo =
  fixes holds :: "'s \<Rightarrow> 'a list \<Rightarrow> bool"
    and bound :: "'s \<Rightarrow> nat"
    and put :: "'a \<Rightarrow> 's \<Rightarrow> ('s, 'a) reply res"
    and take_one :: "'s \<Rightarrow> ('s, 'a) reply res"
  assumes within: "holds s xs \<Longrightarrow> length xs \<le> bound s"
    and put_room: "holds s xs \<Longrightarrow> length xs < bound s \<Longrightarrow>
        \<exists>s'. put x s = Inr (Return 1 None s') \<and> holds s' (xs @ [x]) \<and> bound s' = bound s"
    and put_full: "holds s xs \<Longrightarrow> length xs = bound s \<Longrightarrow> put x s = Inr (Wait s)"
    and take_first: "holds s (x # xs) \<Longrightarrow>
        \<exists>s'. take_one s = Inr (Return 1 (Some x) s') \<and> holds s' xs \<and> bound s' = bound s"
    and take_empty: "holds s [] \<Longrightarrow> take_one s = Inr (Wait s)"
begin

lemma put_cases:
  assumes "holds s xs"
  shows "\<exists>s'. put x s = Inr (if length xs < bound s then Return 1 None s' else Wait s') \<and>
    holds s' (if length xs < bound s then xs @ [x] else xs) \<and> bound s' = bound s"
  using within[OF assms] put_room[OF assms, of x] put_full[OF assms, of x] assms by auto

lemma take_cases:
  assumes "holds s xs"
  shows "\<exists>s'. take_one s = Inr (case xs of [] \<Rightarrow> Wait s' | x # _ \<Rightarrow> Return 1 (Some x) s') \<and>
    holds s' (tl xs) \<and> bound s' = bound s"
  using take_first[of s] take_empty[of s] assms by (cases xs) auto

end

interpretation bq: bounded_fifo ring bq_capacity bq_put bq_take
proof
  fix q :: "'a bq_t" and xs x
  assume r: "ring q xs"
  show "length xs \<le> bq_capacity q" using r by (simp add: ring_def)
  show "\<exists>q'. bq_put x q = Inr (Return 1 None q') \<and> ring q' (xs @ [x]) \<and> bq_capacity q' = bq_capacity q"
    if "length xs < bq_capacity q" using put_loop_ring(2)[OF r that] locked_is_fresh(1)[OF r] by simp
  show "bq_put x q = Inr (Wait q)" if "length xs = bq_capacity q"
    using put_loop_ring(1)[OF r that] locked_is_fresh(1)[OF r] by simp
next
  fix q :: "'a bq_t" and xs x
  assume r: "ring q (x # xs)"
  show "\<exists>q'. bq_take q = Inr (Return 1 (Some x) q') \<and> ring q' xs \<and> bq_capacity q' = bq_capacity q"
    using take_loop_ring(2)[OF r refl] locked_is_fresh(2)[OF r] by simp
next
  fix q :: "'a bq_t"
  assume r: "ring q []"
  show "bq_take q = Inr (Wait q)" using take_loop_ring(1)[OF r refl] locked_is_fresh(2)[OF r] by simp
qed

text \<open>Woken threads run the same loop, so they meet the same contract.\<close>

interpretation woken: bounded_fifo ring bq_capacity put_again take_again
proof
  fix q :: "'a bq_t" and xs x
  assume r: "ring q xs"
  show "length xs \<le> bq_capacity q" by (rule bq.within[OF r])
  show "\<exists>q'. put_again x q = Inr (Return 1 None q') \<and> ring q' (xs @ [x]) \<and> bq_capacity q' = bq_capacity q"
    if "length xs < bq_capacity q" using put_loop_ring(2)[OF r that] locked_is_fresh(3)[OF r] by simp
  show "put_again x q = Inr (Wait q)" if "length xs = bq_capacity q"
    using put_loop_ring(1)[OF r that] locked_is_fresh(3)[OF r] by simp
next
  fix q :: "'a bq_t" and xs x
  assume r: "ring q (x # xs)"
  show "\<exists>q'. take_again q = Inr (Return 1 (Some x) q') \<and> ring q' xs \<and> bq_capacity q' = bq_capacity q"
    using take_loop_ring(2)[OF r refl] locked_is_fresh(4)[OF r] by simp
next
  fix q :: "'a bq_t"
  assume r: "ring q []"
  show "take_again q = Inr (Wait q)" using take_loop_ring(1)[OF r refl] locked_is_fresh(4)[OF r] by simp
qed

section \<open>Sequences of operations\<close>

text \<open>
  The mutex makes every operation one step, so the threads' interleaving is a sequence of
  operations. A run collects what was put and what was taken; waiting changes nothing.
\<close>

datatype 'a bq_op = Put 'a | PutAgain 'a | Take | TakeAgain

fun bq_exec :: "'a bq_op \<Rightarrow> 'a bq_t \<Rightarrow> ('a bq_t, 'a) reply res" where
  "bq_exec (Put x) q = bq_put x q"
| "bq_exec (PutAgain x) q = put_again x q"
| "bq_exec Take q = bq_take q"
| "bq_exec TakeAgain q = take_again q"

fun offered :: "'a bq_op \<Rightarrow> 'a list" where
  "offered (Put x) = [x]"
| "offered (PutAgain x) = [x]"
| "offered Take = []"
| "offered TakeAgain = []"

fun bq_run :: "'a bq_op list \<Rightarrow> 'a bq_t \<Rightarrow> ('a list \<times> 'a list \<times> 'a bq_t) res" where
  "bq_run [] q = Inr ([], [], q)"
| "bq_run (op # ops) q =
     bind_r (bq_exec op q) (\<lambda>r. case r of
       Wait q \<Rightarrow> bq_run ops q
     | Return n item q \<Rightarrow> bind_r (bq_run ops q) (\<lambda>(acc, out, q).
         Inr (offered op @ acc, (case item of None \<Rightarrow> out | Some x \<Rightarrow> x # out), q)))"

text \<open>One operation on a usable queue.\<close>

lemma bq_exec_ring:
  assumes "ring q xs"
  obtains (wait) "bq_exec op q = Inr (Wait q)"
  | (put) q' x where "bq_exec op q = Inr (Return 1 None q')" "offered op = [x]" "ring q' (xs @ [x])" "bq_capacity q' = bq_capacity q"
  | (get) q' x xs' where "bq_exec op q = Inr (Return 1 (Some x) q')" "offered op = []" "xs = x # xs'" "ring q' xs'" "bq_capacity q' = bq_capacity q"
proof (cases op)
  case (Put x)
  then show ?thesis using bq.within[OF assms] bq.put_full[OF assms, of x] bq.put_room[OF assms, of x] wait put
    by (cases "length xs = bq_capacity q") auto
next
  case (PutAgain x)
  then show ?thesis using woken.within[OF assms] woken.put_full[OF assms, of x] woken.put_room[OF assms, of x] wait put
    by (cases "length xs = bq_capacity q") auto
next
  case Take
  then show ?thesis using bq.take_empty[of q] bq.take_first[of q] assms wait get by (cases xs) fastforce+
next
  case TakeAgain
  then show ?thesis using woken.take_empty[of q] woken.take_first[of q] assms wait get by (cases xs) fastforce+
qed

lemma bq_run_fifo:
  "ring q xs \<Longrightarrow> \<exists>acc out ys q'. bq_run ops q = Inr (acc, out, q') \<and> ring q' ys \<and>
     xs @ acc = out @ ys \<and> length ys \<le> bq_capacity q \<and> bq_capacity q' = bq_capacity q"
proof (induction ops arbitrary: q xs)
  case Nil
  then show ?case using bq.within by fastforce
next
  case (Cons op ops)
  from Cons.prems show ?case
  proof (cases rule: bq_exec_ring[where op = op])
    case wait
    then show ?thesis using Cons.IH[OF Cons.prems] by auto
  next
    case (put q' x)
    then show ?thesis using Cons.IH[OF put(3)] by auto
  next
    case (get q' x xs')
    then show ?thesis using Cons.IH[OF get(4)] by auto
  qed
qed

lemma bq_init_ring:
  assumes "al (sz_mul esz cap)" and "0 < cap" and "cap < SIZE_MOD"
  shows "\<exists>q'. bq_init al esz cap q = (0, q') \<and> ring q' [] \<and> bq_capacity q' = cap"
  using assms by (simp add: bq_init_def ring_def fresh_block_def)

section \<open>Closing\<close>

text \<open>\<open>_drop\<close> frees the array but never sets \<open>is_dropped\<close>: later operations use the freed array.\<close>

lemma bq_drop_ring:
  assumes "ring q xs"
  shows "\<exists>q'. bq_drop q = Inr (0, q') \<and> is_dropped q' = is_dropped q \<and>
    (length xs < bq_capacity q \<longrightarrow> bq_put x q' = Inl Undefined) \<and>
    (xs \<noteq> [] \<longrightarrow> bq_take q' = Inl Undefined) \<and> bq_drop q' = Inl Undefined"
  using assms by (auto simp: bq_drop_def bq_items_def bq_put_def bq_take_def put_loop_def take_loop_def ring_def)

text \<open>\<open>_destroy\<close> destroys the mutex first, so the test of \<open>is_destroyed\<close> can not be reached again.\<close>

lemma bq_destroy_ring:
  assumes "ring q xs"
  shows "\<exists>q'. bq_destroy q = Inr (0, q') \<and> items q' \<noteq> None \<and>
    (\<forall>op. bq_exec op q' = Inl Undefined) \<and> bq_destroy q' = Inl Undefined"
proof -
  let ?q = "q\<lparr>is_destroyed := True, bq_mutex := MDestroyed\<rparr>"
  have "bq_destroy q = Inr (0, ?q)" using assms by (simp add: bq_destroy_def ring_def)
  moreover have "bq_exec op ?q = Inl Undefined" for op
    by (cases op) (simp_all add: bq_put_def bq_take_def put_again_def take_again_def)
  moreover have "bq_destroy ?q = Inl Undefined" by (simp add: bq_destroy_def)
  ultimately show ?thesis using assms by (auto simp: ring_def)
qed

text \<open>The early returns keep the mutex: after one, every operation blocks for ever.\<close>

lemma early_return_keeps_mutex:
  assumes "bq_mutex q = Unlocked" and "is_dropped q \<or> is_destroyed q"
  shows "\<exists>n q'. bq_take q = Inr (Return n None q') \<and> (\<forall>op. bq_exec op q' = Inl Diverge) \<and> bq_drop q' = Inl Diverge"
proof -
  let ?q = "q\<lparr>bq_mutex := Locked\<rparr>"
  have "bq_take q = Inr (Return (if is_dropped q then 0 else -1) None ?q)"
    using assms by (auto simp: bq_take_def)
  moreover have "bq_exec op ?q = Inl Diverge" for op
    by (cases op) (simp_all add: bq_put_def bq_take_def put_again_def take_again_def)
  moreover have "bq_drop ?q = Inl Diverge" by (simp add: bq_drop_def)
  ultimately show ?thesis by blast
qed

end
