(* ===== verification/Transition.thy ===== *)
theory Transition
  imports Prelude
begin

text \<open>
  Programs of several threads as transition systems. A step is what one thread does between two
  points where others may run; which thread moves is not determined. The locales say what a
  program's author has to show of an invariant, and give what follows for every run.
\<close>

inductive reachable :: "('s \<Rightarrow> bool) \<Rightarrow> ('s \<Rightarrow> 's \<Rightarrow> bool) \<Rightarrow> 's \<Rightarrow> bool"
  for start :: "'s \<Rightarrow> bool" and step :: "'s \<Rightarrow> 's \<Rightarrow> bool" where
  reach_start: "start s \<Longrightarrow> reachable start step s"
| reach_step: "reachable start step s \<Longrightarrow> step s s' \<Longrightarrow> reachable start step s'"

text \<open>The inverse for runs of known length.\<close>

fun run_of :: "('s \<Rightarrow> 's \<Rightarrow> bool) \<Rightarrow> 's list \<Rightarrow> bool" where
  "run_of step [] = True"
| "run_of step [s] = True"
| "run_of step (s # s' # ss) = (step s s' \<and> run_of step (s' # ss))"

locale safe_system =
  fixes start :: "'s \<Rightarrow> bool"
    and step :: "'s \<Rightarrow> 's \<Rightarrow> bool"
    and inv :: "'s \<Rightarrow> bool"
  assumes start_inv: "start s \<Longrightarrow> inv s"
    and step_inv: "inv s \<Longrightarrow> step s s' \<Longrightarrow> inv s'"
begin

lemma reachable_inv: "reachable start step s \<Longrightarrow> inv s"
  by (induction rule: reachable.induct) (auto intro: start_inv step_inv)

lemma star_inv: "step\<^sup>*\<^sup>* s s' \<Longrightarrow> inv s \<Longrightarrow> inv s'"
  by (induction rule: rtranclp_induct) (auto intro: step_inv)

end

text \<open>\<open>finished\<close> states are those where the program means to stop.\<close>

locale progressing_system = safe_system start step inv
  for start :: "'s \<Rightarrow> bool" and step inv +
  fixes finished :: "'s \<Rightarrow> bool"
  assumes progress: "inv s \<Longrightarrow> \<not> finished s \<Longrightarrow> \<exists>s'. step s s'"
begin

lemma no_deadlock: "reachable start step s \<Longrightarrow> finished s \<or> (\<exists>s'. step s s')"
  using progress reachable_inv by blast

end

text \<open>A rank that every step lowers bounds the length of every run.\<close>

locale terminating_system = progressing_system start step inv finished
  for start :: "'s \<Rightarrow> bool" and step inv finished +
  fixes rank :: "'s \<Rightarrow> nat"
  assumes decreases: "inv s \<Longrightarrow> step s s' \<Longrightarrow> rank s' < rank s"
begin

lemma run_bounded: "run_of step ss \<Longrightarrow> ss \<noteq> [] \<Longrightarrow> inv (hd ss) \<Longrightarrow> length ss \<le> rank (hd ss) + 1"
proof (induction ss rule: induct_list012)
  case (3 s s' ss)
  then have "length (s' # ss) \<le> rank s' + 1" using step_inv by auto
  moreover have "rank s' < rank s" using 3 decreases by auto
  ultimately show ?case by simp
qed auto

text \<open>Wherever a run stops for lack of a step, the program is finished; and it can always get there.\<close>

lemma reaches_finish: "inv s \<Longrightarrow> \<exists>s'. step\<^sup>*\<^sup>* s s' \<and> inv s' \<and> finished s'"
proof (induction "rank s" arbitrary: s rule: less_induct)
  case less
  show ?case
  proof (cases "finished s")
    case True
    then show ?thesis using less.prems by blast
  next
    case False
    then obtain t where t: "step s t" using progress less.prems by blast
    obtain s' where "step\<^sup>*\<^sup>* t s'" "inv s'" "finished s'"
      using less.hyps[OF decreases[OF less.prems t] step_inv[OF less.prems t]] by blast
    then show ?thesis using t by (meson converse_rtranclp_into_rtranclp)
  qed
qed

lemma stuck_is_finished: "inv s \<Longrightarrow> step\<^sup>*\<^sup>* s s' \<Longrightarrow> \<nexists>t. step s' t \<Longrightarrow> finished s'"
  using star_inv progress by blast

end

end
