(* ===== verification/Message_Program.thy ===== *)
theory Message_Program
  imports Blocking_Queue Transition
begin

text \<open>
  \<open>task25_26/task.c\<close>: \<open>main\<close>, five producers and five consumers on the queue of \<open>task26\<close>. A step is one
  operation on the queue, the test of its result, or one call under the print mutex. \<open>_put\<close> and
  \<open>_take\<close> return 1 when they succeed and \<open>CEM\<close> ends the process on everything but 0.
\<close>

section \<open>The functions around the queue\<close>

definition CHARPTR_SIZE :: nat where
  "CHARPTR_SIZE = 8"

definition mymsginit :: "allocator \<Rightarrow> 'a bq_t \<Rightarrow> 'a bq_t res" where
  "mymsginit al q = (case bq_init al CHARPTR_SIZE 10 q of (ret, q) \<Rightarrow> bind_r (cem ret) (\<lambda>_. Inr q))"

definition mymsgdrop :: "'a bq_t \<Rightarrow> 'a bq_t res" where
  "mymsgdrop q = bind_r (bq_drop q) (\<lambda>(ret, q). bind_r (cem ret) (\<lambda>_. Inr q))"

definition mymsgdestroy :: "'a bq_t \<Rightarrow> 'a bq_t res" where
  "mymsgdestroy q = bind_r (bq_destroy q) (\<lambda>(ret, q). bind_r (cem ret) (\<lambda>_. Inr q))"

section \<open>State\<close>

definition COUNT_OF_PRODUCERS :: nat where "COUNT_OF_PRODUCERS = 5"

definition COUNT_OF_PRODUCTS :: nat where "COUNT_OF_PRODUCTS = 5"

definition COUNT_OF_CONSUMERS :: nat where "COUNT_OF_CONSUMERS = 5"

text \<open>
  Where a thread is in round \<open>k\<close> of its loop: before its call of \<open>mymsgput\<close> or \<open>mymsgget\<close>, in the wait
  of the queue, before \<open>CEM\<close> of the result, before \<open>lock\<close>, \<open>printf\<close> and \<open>unlock\<close>. The text is the
  producer's own or the one that was taken.
\<close>

datatype prog_place = Absent | Calls nat | Waits nat | Checks nat int "char list option"
  | Locks nat "char list option" | Prints nat "char list option" | Unlocks nat | Over

text \<open>Threads are numbered in the order of their creation. \<open>ended\<close> is a fault, or what \<open>main\<close> returned.\<close>

record prog_t =
  queue :: "char list bq_t"
  created :: nat
  joined :: nat
  prog_at :: "nat \<Rightarrow> prog_place"
  print_lock :: "nat option"
  lines :: "(nat \<times> char list) list"
  ended :: "(fault + int) option"

definition is_producer :: "nat \<Rightarrow> bool" where
  "is_producer i = (i < COUNT_OF_PRODUCERS)"

text \<open>\<open>sprintf(text, "%d", i)\<close> for a single digit.\<close>

definition text_of :: "nat \<Rightarrow> char list" where
  "text_of i = [char_of (48 + i)]"

definition rounds_of :: "nat \<Rightarrow> nat" where
  "rounds_of i = (if is_producer i then COUNT_OF_PRODUCTS else COUNT_OF_CONSUMERS)"

section \<open>Steps\<close>

definition goes :: "nat \<Rightarrow> prog_place \<Rightarrow> prog_t \<Rightarrow> prog_t" where
  "goes i l s = s\<lparr>prog_at := (prog_at s)(i := l)\<rparr>"

definition ends :: "fault + int \<Rightarrow> prog_t \<Rightarrow> prog_t" where
  "ends r s = s\<lparr>ended := Some r\<rparr>"

definition after_call :: "nat \<Rightarrow> nat \<Rightarrow> (char list bq_t, char list) reply res \<Rightarrow> prog_t \<Rightarrow> prog_t" where
  "after_call i k r s =
     (case r of
        Inl f \<Rightarrow> ends (Inl f) s
      | Inr (Wait q) \<Rightarrow> goes i (Waits k) (s\<lparr>queue := q\<rparr>)
      | Inr (Return ret item q) \<Rightarrow>
          goes i (Checks k ret (if is_producer i then Some (text_of i) else item)) (s\<lparr>queue := q\<rparr>))"

definition after_check :: "nat \<Rightarrow> nat \<Rightarrow> int \<Rightarrow> char list option \<Rightarrow> prog_t \<Rightarrow> prog_t" where
  "after_check i k ret item s =
     (case cem ret of Inl f \<Rightarrow> ends (Inl f) s | Inr _ \<Rightarrow> goes i (Locks k item) s)"

text \<open>\<open>None\<close>: the thread can not go on. A consumer that got no item prints an indeterminate pointer.\<close>

definition thread_step :: "nat \<Rightarrow> prog_t \<Rightarrow> prog_t option" where
  "thread_step i s = (case prog_at s i of
     Absent \<Rightarrow> None
   | Calls k \<Rightarrow> Some (if k < rounds_of i
       then after_call i k (if is_producer i then bq_put (text_of i) (queue s) else bq_take (queue s)) s
       else goes i Over s)
   | Waits k \<Rightarrow> Some (after_call i k (if is_producer i then put_again (text_of i) (queue s) else take_again (queue s)) s)
   | Checks k ret item \<Rightarrow> Some (after_check i k ret item s)
   | Locks k item \<Rightarrow>
       if print_lock s = None then Some (goes i (Prints k item) (s\<lparr>print_lock := Some i\<rparr>)) else None
   | Prints k item \<Rightarrow> Some (case item of
         None \<Rightarrow> ends (Inl Undefined) s
       | Some t \<Rightarrow> goes i (Unlocks k) (s\<lparr>lines := lines s @ [(i, t)]\<rparr>))
   | Unlocks k \<Rightarrow> Some (goes i (Calls (k + 1)) (s\<lparr>print_lock := None\<rparr>))
   | Over \<Rightarrow> None)"

text \<open>\<open>main\<close> creates the producers, each with a text of its own, and the consumers; then it joins them.\<close>

definition COUNT_OF_THREADS25 :: nat where
  "COUNT_OF_THREADS25 = COUNT_OF_PRODUCERS + COUNT_OF_CONSUMERS"

definition main_step :: "allocator \<Rightarrow> prog_t \<Rightarrow> prog_t option" where
  "main_step al s =
     (if created s < COUNT_OF_THREADS25 then
        Some (if is_producer (created s) \<and> \<not> al 10 then ends (Inl Undefined) s
              else goes (created s) (Calls 0) (s\<lparr>created := created s + 1\<rparr>))
      else if joined s < COUNT_OF_THREADS25 then
        (if prog_at s (joined s) = Over then Some (s\<lparr>joined := joined s + 1\<rparr>) else None)
      else Some (case mymsgdestroy (queue s) of Inl f \<Rightarrow> ends (Inl f) s | Inr q \<Rightarrow> ends (Inr 0) (s\<lparr>queue := q\<rparr>)))"

definition main_start :: "allocator \<Rightarrow> char list bq_t \<Rightarrow> prog_t res" where
  "main_start al q =
     bind_r (mymsginit al q) (\<lambda>q.
     Inr \<lparr>queue = q, created = 0, joined = 0, prog_at = (\<lambda>_. Absent), print_lock = None, lines = [], ended = None\<rparr>)"

text \<open>
  A wait may end at any time; when there is nothing to take the thread waits again and nothing has
  changed. Such a round is not a step.
\<close>

inductive program_step :: "allocator \<Rightarrow> prog_t \<Rightarrow> prog_t \<Rightarrow> bool" for al where
  thread_moves: "ended s = None \<Longrightarrow> thread_step i s = Some s' \<Longrightarrow> s' \<noteq> s \<Longrightarrow> program_step al s s'"
| main_moves: "ended s = None \<Longrightarrow> main_step al s = Some s' \<Longrightarrow> program_step al s s'"

section \<open>No thread gets past its first call\<close>

text \<open>Producers that have not put anything yet.\<close>

definition to_put :: "prog_t \<Rightarrow> nat set" where
  "to_put s = {i. i < COUNT_OF_PRODUCERS \<and> (\<forall>ret item. prog_at s i \<noteq> Checks 0 ret item)}"

definition first_places :: "nat \<Rightarrow> prog_place set" where
  "first_places i = (if is_producer i then {Calls 0, Checks 0 1 (Some (text_of i))}
     else {Calls 0, Waits 0} \<union> {Checks 0 1 (Some t) | t. True})"

definition program_inv :: "prog_t \<Rightarrow> bool" where
  "program_inv s =
     (lines s = [] \<and> print_lock s = None \<and> joined s = 0 \<and> created s \<le> COUNT_OF_THREADS25 \<and>
      (ended s = None \<or> ended s = Some (Inl Exit)) \<and>
      (\<forall>i. if i < created s then prog_at s i \<in> first_places i else prog_at s i = Absent) \<and>
      (\<exists>xs. ring (queue s) xs \<and> bq_capacity (queue s) = 10 \<and> length xs + card (to_put s) \<le> COUNT_OF_PRODUCERS))"

lemma goes_simps [simp]:
  "queue (goes i l s) = queue s" "created (goes i l s) = created s" "joined (goes i l s) = joined s"
  "prog_at (goes i l s) = (prog_at s)(i := l)" "print_lock (goes i l s) = print_lock s"
  "lines (goes i l s) = lines s" "ended (goes i l s) = ended s"
  by (simp_all add: goes_def)

lemma ends_simps [simp]:
  "queue (ends r s) = queue s" "created (ends r s) = created s" "joined (ends r s) = joined s"
  "prog_at (ends r s) = prog_at s" "print_lock (ends r s) = print_lock s"
  "lines (ends r s) = lines s" "ended (ends r s) = Some r"
  by (simp_all add: ends_def)

lemma finite_to_put: "finite (to_put s)"
  by (simp add: to_put_def)


lemma exit_inv: "program_inv s \<Longrightarrow> program_inv (ends (Inl Exit) s)"
  by (simp add: program_inv_def to_put_def)

text \<open>What a thread of the invariant does in one step.\<close>

lemma thread_cases:
  assumes i: "program_inv s" and t: "thread_step i s = Some s'"
  obtains (exit) item where "prog_at s i = Checks 0 1 item" "s' = ends (Inl Exit) s"
  | (put) q xs where "is_producer i" "prog_at s i = Calls 0" "ring (queue s) xs" "bq_capacity (queue s) = 10"
      "length xs + card (to_put s) \<le> COUNT_OF_PRODUCERS" "ring q (xs @ [text_of i])" "bq_capacity q = 10"
      "s' = goes i (Checks 0 1 (Some (text_of i))) (s\<lparr>queue := q\<rparr>)"
  | (get) q x xs where "\<not> is_producer i" "prog_at s i \<in> {Calls 0, Waits 0}" "ring (queue s) (x # xs)"
      "length (x # xs) + card (to_put s) \<le> COUNT_OF_PRODUCERS" "ring q xs" "bq_capacity q = 10"
      "s' = goes i (Checks 0 1 (Some x)) (s\<lparr>queue := q\<rparr>)"
  | (wait) "\<not> is_producer i" "prog_at s i \<in> {Calls 0, Waits 0}" "s' = goes i (Waits 0) s"
proof -
  obtain xs where r: "ring (queue s) xs" "bq_capacity (queue s) = 10" "length xs + card (to_put s) \<le> COUNT_OF_PRODUCERS"
    using i by (auto simp: program_inv_def)
  have same: "s\<lparr>queue := queue s\<rparr> = s" by simp
  have at: "prog_at s i \<in> first_places i"
    using i t by (cases "i < created s") (auto simp: program_inv_def thread_step_def)
  have rounds: "0 < rounds_of i" by (simp add: rounds_of_def COUNT_OF_PRODUCTS_def COUNT_OF_CONSUMERS_def)
  show ?thesis
  proof (cases "\<exists>item. prog_at s i = Checks 0 1 item")
    case True
    then show ?thesis using t exit by (auto simp: thread_step_def after_check_def cem_one)
  next
    case early: False
    show ?thesis
    proof (cases "is_producer i")
      case True
      then have c: "prog_at s i = Calls 0" using at early by (auto simp: first_places_def)
      have "length xs < bq_capacity (queue s)" using r by (simp add: COUNT_OF_PRODUCERS_def)
      then obtain q where "bq_put (text_of i) (queue s) = Inr (Return 1 None q)" "ring q (xs @ [text_of i])"
          "bq_capacity q = bq_capacity (queue s)"
        using bq.put_room[OF r(1)] by blast
      then show ?thesis using t c True rounds r put by (simp add: thread_step_def after_call_def)
    next
      case False
      then have c: "prog_at s i \<in> {Calls 0, Waits 0}" using at early by (auto simp: first_places_def)
      show ?thesis
      proof (cases xs)
        case Nil
        then have "bq_take (queue s) = Inr (Wait (queue s))" "take_again (queue s) = Inr (Wait (queue s))"
          using bq.take_empty woken.take_empty r(1) by simp_all
        then have "s' = goes i (Waits 0) s"
          using t c False rounds by (auto simp: thread_step_def after_call_def)
        then show ?thesis using wait False c by blast
      next
        case (Cons x ys)
        show ?thesis
        proof (cases "prog_at s i = Calls 0")
          case True
          obtain q where q: "bq_take (queue s) = Inr (Return 1 (Some x) q)" "ring q ys" "bq_capacity q = bq_capacity (queue s)"
            using bq.take_first[of "queue s" x ys] r(1) Cons by blast
          have "s' = goes i (Checks 0 1 (Some x)) (s\<lparr>queue := q\<rparr>)"
            using t True q(1) False rounds by (simp add: thread_step_def after_call_def)
          then show ?thesis using get[OF False c] q r Cons by simp
        next
          case woken: False
          obtain q where q: "take_again (queue s) = Inr (Return 1 (Some x) q)" "ring q ys" "bq_capacity q = bq_capacity (queue s)"
            using woken.take_first[of "queue s" x ys] r(1) Cons by blast
          have "s' = goes i (Checks 0 1 (Some x)) (s\<lparr>queue := q\<rparr>)"
            using t c woken q(1) False rounds by (simp add: thread_step_def after_call_def)
          then show ?thesis using get[OF False c] q r Cons by simp
        qed
      qed
    qed
  qed
qed

text \<open>The invariant is kept by every step.\<close>

lemma to_put_same:
  "to_put (s\<lparr>queue := q\<rparr>) = to_put s" "\<not> is_producer i \<Longrightarrow> to_put (goes i l s) = to_put s"
  by (auto simp: to_put_def is_producer_def)

lemma place_inv:
  assumes "program_inv s" and "l \<in> first_places i" and "prog_at s i \<noteq> Absent"
    and "ring q xs" and "bq_capacity q = 10" and "length xs + card (to_put (goes i l s)) \<le> COUNT_OF_PRODUCERS"
  shows "program_inv (goes i l (s\<lparr>queue := q\<rparr>))"
proof -
  have "to_put (goes i l (s\<lparr>queue := q\<rparr>)) = to_put (goes i l s)" by (simp add: to_put_def)
  moreover have "i < created s" using assms(1,3) by (auto simp: program_inv_def split: if_splits)
  ultimately show ?thesis using assms unfolding program_inv_def by auto
qed

lemma thread_inv:
  assumes i: "program_inv s" and t: "thread_step i s = Some s'"
  shows "program_inv s'"
  using assms
proof (cases rule: thread_cases)
  case (exit item)
  then show ?thesis using exit_inv[OF i] by simp
next
  case (put q xs)
  have "i \<in> to_put s" using put(1,2) by (simp add: to_put_def is_producer_def)
  then have c: "Suc (card (to_put s - {i})) = card (to_put s)"
    using card.remove[OF finite_to_put] by simp
  have "to_put (goes i (Checks 0 1 (Some (text_of i))) s) = to_put s - {i}"
    by (auto simp: to_put_def)
  then show ?thesis unfolding put(8)
    using put(1,2,5) c by (intro place_inv[OF i _ _ put(6,7)]) (simp_all add: first_places_def)
next
  case (get q x xs)
  show ?thesis unfolding get(7)
    using get(1,2,4) by (intro place_inv[OF i _ _ get(5,6)]) (auto simp: first_places_def to_put_same)
next
  case wait
  obtain xs where r: "ring (queue s) xs" "bq_capacity (queue s) = 10" "length xs + card (to_put s) \<le> COUNT_OF_PRODUCERS"
    using i by (auto simp: program_inv_def)
  have "program_inv (goes i (Waits 0) (s\<lparr>queue := queue s\<rparr>))"
    using wait(1,2) r(3) by (intro place_inv[OF i _ _ r(1,2)]) (auto simp: first_places_def to_put_same)
  then show ?thesis using wait(3) by simp
qed

lemma main_cases:
  assumes i: "program_inv s" and al: "al 10" and t: "main_step al s = Some s'"
  shows "created s < COUNT_OF_THREADS25 \<and> s' = goes (created s) (Calls 0) (s\<lparr>created := created s + 1\<rparr>)"
proof -
  have j: "joined s = 0" "0 < COUNT_OF_THREADS25"
    using i by (simp_all add: program_inv_def COUNT_OF_THREADS25_def COUNT_OF_PRODUCERS_def)
  have "prog_at s 0 \<noteq> Over"
  proof -
    have "if 0 < created s then prog_at s 0 \<in> first_places 0 else prog_at s 0 = Absent"
      using i unfolding program_inv_def by blast
    then show ?thesis by (auto simp: first_places_def split: if_splits)
  qed
  then show ?thesis using t j al by (auto simp: main_step_def split: if_splits)
qed

lemma main_inv:
  assumes i: "program_inv s" and al: "al 10" and t: "main_step al s = Some s'"
  shows "program_inv s'"
proof -
  note m = main_cases[where al = al, OF i al t]
  have "to_put s' \<subseteq> to_put s"
    using m i by (auto simp: to_put_def program_inv_def split: if_splits)
  then have "card (to_put s') \<le> card (to_put s)" by (rule card_mono[OF finite_to_put])
  moreover obtain xs where "ring (queue s) xs" "bq_capacity (queue s) = 10" "length xs + card (to_put s) \<le> COUNT_OF_PRODUCERS"
    using i by (auto simp: program_inv_def)
  ultimately have "\<exists>xs. ring (queue s') xs \<and> bq_capacity (queue s') = 10 \<and> length xs + card (to_put s') \<le> COUNT_OF_PRODUCERS"
    using m by (intro exI[of _ xs]) auto
  moreover have "if j < created s' then prog_at s' j \<in> first_places j else prog_at s' j = Absent" for j
  proof -
    have "if j < created s then prog_at s j \<in> first_places j else prog_at s j = Absent"
      using i unfolding program_inv_def by blast
    moreover have "Calls 0 \<in> first_places j" by (simp add: first_places_def)
    ultimately show ?thesis using m by (cases "j = created s") (auto simp: less_Suc_eq)
  qed
  moreover have "lines s' = [] \<and> print_lock s' = None \<and> joined s' = 0 \<and> created s' \<le> COUNT_OF_THREADS25 \<and>
      (ended s' = None \<or> ended s' = Some (Inl Exit))"
    using i m by (simp add: program_inv_def)
  ultimately show ?thesis unfolding program_inv_def by blast
qed

lemma program_inv_step: "program_inv s \<Longrightarrow> al 10 \<Longrightarrow> program_step al s s' \<Longrightarrow> program_inv s'"
  by (erule program_step.cases) (auto intro: thread_inv main_inv)

section \<open>The process ends\<close>

lemma goes_changes: "l \<noteq> prog_at s i \<Longrightarrow> goes i l s' \<noteq> s"
  by (auto simp: goes_def)

text \<open>While the process runs, \<open>main\<close> can create a thread or the first producer can put or end it.\<close>

lemma program_goes_on:
  assumes i: "program_inv s" and al: "al 10" and run: "ended s = None"
  shows "\<exists>s'. program_step al s s'"
proof (cases "created s < COUNT_OF_THREADS25")
  case True
  then have "main_step al s = Some (goes (created s) (Calls 0) (s\<lparr>created := created s + 1\<rparr>))"
    using al by (simp add: main_step_def)
  then show ?thesis using run by (blast intro: main_moves)
next
  case False
  then have p: "is_producer 0" "0 < created s"
    by (simp_all add: is_producer_def COUNT_OF_PRODUCERS_def COUNT_OF_THREADS25_def)
  then have at: "prog_at s 0 \<in> first_places 0" using i unfolding program_inv_def by metis
  obtain s' where t: "thread_step 0 s = Some s'"
    using at p(1) by (auto simp: first_places_def thread_step_def)
  have "s' \<noteq> s" using i t
  proof (cases rule: thread_cases)
    case (exit item)
    then show ?thesis using run by (auto simp: ends_def dest: arg_cong[of _ _ ended])
  next
    case (put q xs)
    then show ?thesis using goes_changes[of "Checks 0 1 (Some (text_of 0))" s 0] by simp
  next
    case (get q x xs)
    then show ?thesis using p(1) by simp
  next
    case wait
    then show ?thesis using p(1) by simp
  qed
  then show ?thesis using run t by (blast intro: thread_moves)
qed

fun calls_left :: "prog_place \<Rightarrow> nat" where
  "calls_left Absent = 4"
| "calls_left (Calls k) = 3"
| "calls_left (Waits k) = 2"
| "calls_left (Checks k ret item) = 1"
| "calls_left (Locks k item) = 0"
| "calls_left (Prints k item) = 0"
| "calls_left (Unlocks k) = 0"
| "calls_left Over = 0"

definition program_rank :: "prog_t \<Rightarrow> nat" where
  "program_rank s =
     (if ended s \<noteq> None then 0 else 1 + (\<Sum>i < COUNT_OF_THREADS25. calls_left (prog_at s i)))"

lemma rank_goes:
  assumes "ended s = None" and "ended s' = None" and "i < COUNT_OF_THREADS25"
    and "prog_at s' = (prog_at s)(i := l)" and "calls_left l < calls_left (prog_at s i)"
  shows "program_rank s' < program_rank s"
proof -
  have "(\<Sum>j < COUNT_OF_THREADS25. calls_left (prog_at s' j)) < (\<Sum>j < COUNT_OF_THREADS25. calls_left (prog_at s j))"
    by (rule sum_strict_mono_ex1) (use assms(3-5) in auto)
  then show ?thesis using assms(1,2) by (simp add: program_rank_def)
qed

lemma thread_decreases:
  assumes i: "program_inv s" and run: "ended s = None" and t: "thread_step i s = Some s'" and ch: "s' \<noteq> s"
  shows "program_rank s' < program_rank s"
proof -
  have "prog_at s i \<noteq> Absent" using t by (auto simp: thread_step_def)
  then have n: "i < COUNT_OF_THREADS25" using i by (auto simp: program_inv_def split: if_splits intro: less_le_trans)
  show ?thesis using i t
  proof (cases rule: thread_cases)
    case (exit item)
    then show ?thesis using run by (simp add: program_rank_def)
  next
    case (put q xs)
    then show ?thesis using run n by (intro rank_goes[OF run _ n, where l = "Checks 0 1 (Some (text_of i))"]) simp_all
  next
    case (get q x xs)
    then show ?thesis using run n by (intro rank_goes[OF run _ n]) auto
  next
    case wait
    have "prog_at s i \<noteq> Waits 0" using ch wait(3) by (auto simp: goes_def fun_upd_idem)
    then show ?thesis using run n wait by (intro rank_goes[OF run _ n]) auto
  qed
qed

lemma program_decreases:
  assumes i: "program_inv s" and al: "al 10" and st: "program_step al s s'"
  shows "program_rank s' < program_rank s"
  using st
proof cases
  case (thread_moves i)
  then show ?thesis using thread_decreases[OF i] by blast
next
  case main_moves
  note m = main_cases[where al = al, OF i al main_moves(2)]
  have "prog_at s (created s) = Absent" using i unfolding program_inv_def by (metis less_irrefl)
  then show ?thesis using m main_moves(1) by (intro rank_goes[of s s' "created s"]) auto
qed

definition message_start :: "allocator \<Rightarrow> prog_t \<Rightarrow> bool" where
  "message_start al s = (\<exists>q. main_start al q = Inr s)"

lemma main_start_inv:
  assumes "main_start al q = Inr s"
  shows "program_inv s"
proof -
  have al: "al (sz_mul CHARPTR_SIZE 10)"
    using assms by (auto simp: main_start_def mymsginit_def bq_init_def cem_def split: if_splits)
  have "(10 :: nat) < SIZE_MOD" by (simp add: SIZE_MOD_eq)
  then obtain q' where q': "bq_init al CHARPTR_SIZE 10 q = (0, q')" "ring q' []" "bq_capacity q' = 10"
    using bq_init_ring[of al CHARPTR_SIZE 10 q] al by auto
  then have "s = \<lparr>queue = q', created = 0, joined = 0, prog_at = (\<lambda>_. Absent), print_lock = None, lines = [], ended = None\<rparr>"
    using assms by (simp add: main_start_def mymsginit_def cem_def)
  moreover have "card {i. i < COUNT_OF_PRODUCERS} = COUNT_OF_PRODUCERS" by simp
  ultimately show ?thesis using q' by (auto simp: program_inv_def to_put_def)
qed

text \<open>The program under an allocator that grants the ten bytes of the producers' texts.\<close>

definition granting :: "allocator \<Rightarrow> allocator" where
  "granting al n = (al n \<or> n = 10)"

interpretation msg: terminating_system "message_start (granting al)" "program_step (granting al)" program_inv
  "\<lambda>s. ended s \<noteq> None" program_rank for al
proof
  show "message_start (granting al) s \<Longrightarrow> program_inv s" for s
    using main_start_inv by (auto simp: message_start_def)
  show "program_inv s \<Longrightarrow> program_step (granting al) s s' \<Longrightarrow> program_inv s'" for s s'
    by (rule program_inv_step) (simp_all add: granting_def)
  show "program_inv s \<Longrightarrow> \<not> ended s \<noteq> None \<Longrightarrow> \<exists>s'. program_step (granting al) s s'" for s
    by (rule program_goes_on) (simp_all add: granting_def)
  show "program_inv s \<Longrightarrow> program_step (granting al) s s' \<Longrightarrow> program_rank s' < program_rank s" for s s'
    by (rule program_decreases) (simp_all add: granting_def)
qed

lemma granting_same: "al 10 \<Longrightarrow> granting al = al"
  by (auto simp: granting_def)

lemma calls_left_bound: "calls_left l \<le> 4"
  by (cases l) simp_all

lemma program_rank_bound: "program_rank s \<le> 41"
  using sum_bounded_above[of "{..<COUNT_OF_THREADS25}" "\<lambda>i. calls_left (prog_at s i)" 4] calls_left_bound
  by (simp add: program_rank_def COUNT_OF_THREADS25_def COUNT_OF_PRODUCERS_def COUNT_OF_CONSUMERS_def)

lemma message_reachable:
  assumes "reachable (\<lambda>s. s = s0) (program_step al) s" and "main_start al q = Inr s0" and "al 10"
  shows "program_inv s"
  using assms by (induction rule: reachable.induct) (auto intro: main_start_inv program_inv_step)

text \<open>A refused text is written through the null pointer.\<close>

lemma refused_text:
  assumes "main_start al q = Inr s" and "\<not> al 10"
  shows "main_step al s = Some (ends (Inl Undefined) s)"
  using assms by (auto simp: main_start_def bind_r_Inr_iff main_step_def is_producer_def COUNT_OF_THREADS25_def
      COUNT_OF_PRODUCERS_def)

end
