(* ===== verification/Str_Comp.thy ===== *)
theory Str_Comp
  imports Cstring
begin

text \<open>
  The string comparison of \<open>cmp_test/src/my_strcmp.c\<close> (loop condition with \<open>||\<close>) and of
  \<open>tasks17_20/task17.c\<close>, \<open>task18.c\<close> and \<open>task20.c\<close> (loop condition with \<open>&&\<close>). Both are shown to be
  \<open>strcmp\<close> of \<open>string.h\<close>, to read no byte behind a terminator, and to be a total order; what a
  sort relies on is stated once in the locale \<open>comparator\<close>.
\<close>

section \<open>The result type\<close>

datatype COMP_RES = LESS | EQ | GREATER

text \<open>The values of the enumeration, in order.\<close>

fun comp_code :: "COMP_RES \<Rightarrow> int" where
  "comp_code LESS = -1"
| "comp_code EQ = 0"
| "comp_code GREATER = 1"

lemma comp_code_inject [simp]: "comp_code a = comp_code b \<longleftrightarrow> a = b"
  by (cases a; cases b) simp_all

instantiation COMP_RES :: linorder
begin

definition less_eq_COMP_RES :: "COMP_RES \<Rightarrow> COMP_RES \<Rightarrow> bool" where
  "less_eq_COMP_RES a b = (comp_code a \<le> comp_code b)"

definition less_COMP_RES :: "COMP_RES \<Rightarrow> COMP_RES \<Rightarrow> bool" where
  "less_COMP_RES a b = (comp_code a < comp_code b)"

instance
  by standard (auto simp: less_eq_COMP_RES_def less_COMP_RES_def)

end

section \<open>The two loops\<close>

text \<open>\<open>s[i]\<close> as an \<open>unsigned char\<close>: the terminator may be read, nothing behind it.\<close>

definition str_at :: "char list \<Rightarrow> nat \<Rightarrow> nat res" where
  "str_at s i =
     (if i < length s then Inr (of_char (s ! i)) else if i = length s then Inr 0 else Inl Undefined)"

text \<open>The code after the loops; it is the same in all files.\<close>

definition str_comp_end :: "char list \<Rightarrow> char list \<Rightarrow> nat \<Rightarrow> COMP_RES res" where
  "str_comp_end s1 s2 i =
     bind_r (str_at s1 i) (\<lambda>a.
     bind_r (if a = 0 then str_at s2 i else Inr 1) (\<lambda>b.
     if a = 0 \<and> b = 0 then Inr EQ else if a \<noteq> 0 then Inr GREATER else Inr LESS))"

lemma str_at_0: "str_at s i = Inr a \<Longrightarrow> a \<noteq> 0 \<Longrightarrow> i < length s"
  by (auto simp: str_at_def split: if_splits)

function str_comp_and :: "char list \<Rightarrow> char list \<Rightarrow> nat \<Rightarrow> COMP_RES res" where
  "str_comp_and s1 s2 i =
     bind_r (str_at s1 i) (\<lambda>a.
     if a = 0 then str_comp_end s1 s2 i else
     bind_r (str_at s2 i) (\<lambda>b.
     if b = 0 then str_comp_end s1 s2 i
     else if a > b then Inr GREATER
     else if b > a then Inr LESS
     else str_comp_and s1 s2 (i + 1)))"
  by pat_completeness auto
termination
  by (relation "measure (\<lambda>(s1, s2, i). length s1 - i)") (auto dest: str_at_0)

function str_comp_or :: "char list \<Rightarrow> char list \<Rightarrow> nat \<Rightarrow> COMP_RES res" where
  "str_comp_or s1 s2 i =
     bind_r (str_at s1 i) (\<lambda>a.
     bind_r (str_at s2 i) (\<lambda>b.
     if a = 0 \<and> b = 0 then str_comp_end s1 s2 i
     else if a > b then Inr GREATER
     else if b > a then Inr LESS
     else str_comp_or s1 s2 (i + 1)))"
  by pat_completeness auto
termination
  by (relation "measure (\<lambda>(s1, s2, i). length s1 - i)") (auto dest: str_at_0)

declare str_comp_and.simps [simp del] str_comp_or.simps [simp del]

definition str_comp :: "char list \<Rightarrow> char list \<Rightarrow> COMP_RES res" where
  "str_comp s1 s2 = str_comp_and s1 s2 0"

definition my_str_comp :: "char list \<Rightarrow> char list \<Rightarrow> COMP_RES res" where
  "my_str_comp s1 s2 = str_comp_or s1 s2 0"

section \<open>Both are strcmp\<close>

definition comp_of :: "int \<Rightarrow> COMP_RES" where
  "comp_of v = (if v < 0 then LESS else if v = 0 then EQ else GREATER)"

definition cstring_ok :: "char list \<Rightarrow> bool" where
  "cstring_ok s = (NUL \<notin> set s)"

lemma comp_of_le: "comp_of v \<noteq> GREATER \<longleftrightarrow> v \<le> 0"
  by (simp add: comp_of_def)

lemma of_char_0: "(of_char c :: nat) = 0 \<longleftrightarrow> c = NUL"
proof -
  have "(of_char NUL :: nat) = 0" by simp
  then show ?thesis by (metis of_char_eq_iff)
qed

lemma comp_of_simps [simp]: "comp_of 0 = EQ" "comp_of 1 = GREATER" "comp_of (- 1) = LESS"
  by (simp_all add: comp_of_def)

lemma str_at_drop:
  "cstring_ok s \<Longrightarrow> i \<le> length s \<Longrightarrow>
   str_at s i = Inr (case drop i s of [] \<Rightarrow> 0 | c # _ \<Rightarrow> of_char c) \<and>
   (\<forall>c cs. drop i s = c # cs \<longrightarrow> (of_char c :: nat) \<noteq> 0 \<and> drop (i + 1) s = cs \<and> i + 1 \<le> length s)"
proof (cases "i < length s")
  case True
  assume ok: "cstring_ok s"
  have d: "drop i s = s ! i # drop (Suc i) s" using True by (rule Cons_nth_drop_Suc[symmetric])
  have "s ! i \<noteq> NUL" using ok nth_mem[OF True] by (auto simp: cstring_ok_def)
  then show ?thesis using True d by (simp add: str_at_def of_char_0)
qed (simp add: str_at_def)

lemma str_comp_end_drop:
  assumes "cstring_ok s1" "cstring_ok s2" "i \<le> length s1" "i \<le> length s2"
    and "drop i s1 = [] \<or> drop i s2 = []"
  shows "str_comp_end s1 s2 i = Inr (comp_of (strcmp (drop i s1) (drop i s2)))"
  using str_at_drop[OF assms(1,3)] str_at_drop[OF assms(2,4)] assms(5)
  by (cases "drop i s1"; cases "drop i s2") (auto simp: str_comp_end_def)

lemma str_comp_and_drop:
  assumes "cstring_ok s1" "cstring_ok s2" "i \<le> length s1" "i \<le> length s2"
  shows "str_comp_and s1 s2 i = Inr (comp_of (strcmp (drop i s1) (drop i s2)))"
  using assms
proof (induction "length s1 - i" arbitrary: i)
  case 0
  then have "drop i s1 = []" by simp
  then show ?case using str_at_drop[OF 0(2,4)] str_comp_end_drop[OF 0(2-5)]
    by (simp add: str_comp_and.simps[of s1 s2 i])
next
  case (Suc k)
  note a = str_at_drop[OF Suc(3,5)] and b = str_at_drop[OF Suc(4,6)]
  obtain c cs where c: "drop i s1 = c # cs" using Suc(2) by (cases "drop i s1") auto
  show ?case
  proof (cases "drop i s2")
    case Nil
    then show ?thesis using a b c str_comp_end_drop[OF Suc(3-6)] by (simp add: str_comp_and.simps[of s1 s2 i])
  next
    case (Cons d ds)
    have "str_comp_and s1 s2 (i + 1) = Inr (comp_of (strcmp cs ds))"
      using Suc(1)[of "i + 1"] Suc(2-4) a b c Cons by simp
    then show ?thesis using a b c Cons
      by (simp add: str_comp_and.simps[of s1 s2 i] of_char_eq_iff)
  qed
qed

lemma str_comp_or_drop:
  assumes "cstring_ok s1" "cstring_ok s2" "i \<le> length s1" "i \<le> length s2"
  shows "str_comp_or s1 s2 i = Inr (comp_of (strcmp (drop i s1) (drop i s2)))"
  using assms
proof (induction "length s1 - i" arbitrary: i)
  case 0
  then have d: "drop i s1 = []" by simp
  show ?case
  proof (cases "drop i s2")
    case Nil
    then show ?thesis using d str_at_drop[OF 0(2,4)] str_at_drop[OF 0(3,5)] str_comp_end_drop[OF 0(2-5)]
      by (simp add: str_comp_or.simps[of s1 s2 i])
  next
    case (Cons e es)
    then show ?thesis using d str_at_drop[OF 0(2,4)] str_at_drop[OF 0(3,5)]
      by (simp add: str_comp_or.simps[of s1 s2 i])
  qed
next
  case (Suc k)
  note a = str_at_drop[OF Suc(3,5)] and b = str_at_drop[OF Suc(4,6)]
  obtain c cs where c: "drop i s1 = c # cs" using Suc(2) by (cases "drop i s1") auto
  show ?case
  proof (cases "drop i s2")
    case Nil
    then show ?thesis using a b c by (simp add: str_comp_or.simps[of s1 s2 i])
  next
    case (Cons d ds)
    have "str_comp_or s1 s2 (i + 1) = Inr (comp_of (strcmp cs ds))"
      using Suc(1)[of "i + 1"] Suc(2-4) a b c Cons by simp
    then show ?thesis using a b c Cons
      by (simp add: str_comp_or.simps[of s1 s2 i] of_char_eq_iff)
  qed
qed

lemma str_comp_strcmp: "cstring_ok s \<Longrightarrow> cstring_ok t \<Longrightarrow> str_comp s t = Inr (comp_of (strcmp s t))"
  using str_comp_and_drop[of s t 0] by (simp add: str_comp_def)

lemma my_str_comp_strcmp: "cstring_ok s \<Longrightarrow> cstring_ok t \<Longrightarrow> my_str_comp s t = Inr (comp_of (strcmp s t))"
  using str_comp_or_drop[of s t 0] by (simp add: my_str_comp_def)

section \<open>A total order\<close>

lemma strcmp_flip: "strcmp t s = - strcmp s t"
  by (induction s t rule: strcmp.induct) auto

lemma strcmp_refl: "strcmp s s = 0"
  by (induction s) auto

lemma strcmp_values: "strcmp s t \<in> {-1, 0, 1}"
  by (induction s t rule: strcmp.induct) auto

lemma strcmp_trans: "strcmp s t \<le> 0 \<Longrightarrow> strcmp t u \<le> 0 \<Longrightarrow> strcmp s u \<le> 0"
proof (induction s t arbitrary: u rule: strcmp.induct)
  case 1
  then show ?case by simp
next
  case (2 y ys)
  then show ?case by (cases u) auto
next
  case (3 x xs)
  then show ?case by simp
next
  case (4 x xs y ys)
  then show ?case by (cases u) (auto split: if_splits)
qed

text \<open>What a sort needs of its comparison; \<open>le a b\<close> is the test that leaves a pair alone.\<close>

locale comparator =
  fixes cmp :: "'a \<Rightarrow> 'a \<Rightarrow> COMP_RES"
  assumes cmp_EQ: "cmp a b = EQ \<longleftrightarrow> a = b"
    and cmp_flip: "cmp a b = GREATER \<longleftrightarrow> cmp b a = LESS"
    and cmp_trans: "cmp a b \<noteq> GREATER \<Longrightarrow> cmp b c \<noteq> GREATER \<Longrightarrow> cmp a c \<noteq> GREATER"
begin

definition le :: "'a \<Rightarrow> 'a \<Rightarrow> bool" where
  "le a b = (cmp a b \<noteq> GREATER)"

lemma le_refl: "le a a"
  using cmp_EQ[of a a] by (simp add: le_def)

lemma le_antisym: "le a b \<Longrightarrow> le b a \<Longrightarrow> a = b"
  using cmp_EQ[of a b] cmp_flip[of b a] by (cases "cmp a b") (auto simp: le_def)

lemma le_linear: "le a b \<or> le b a"
  using cmp_flip[of a b] cmp_flip[of b a] by (auto simp: le_def)

lemma le_total: "class.linorder le (\<lambda>a b. cmp a b = LESS)"
proof
  show "(cmp a b = LESS) = (le a b \<and> \<not> le b a)" for a b
    using cmp_flip[of b a] cmp_flip[of a b] by (auto simp: le_def)
  show "le a c" if "le a b" "le b c" for a b c using that cmp_trans by (simp add: le_def)
qed (simp_all add: le_refl le_antisym le_linear)

end

definition comp_strings :: "char list \<Rightarrow> char list \<Rightarrow> COMP_RES" where
  "comp_strings s t = comp_of (strcmp s t)"

interpretation sc: comparator comp_strings
proof
  fix a b c
  show "comp_strings a b = EQ \<longleftrightarrow> a = b"
    by (cases "a = b") (simp_all add: comp_strings_def comp_of_def strcmp_refl)
  show "comp_strings a b = GREATER \<longleftrightarrow> comp_strings b a = LESS"
    using strcmp_values[of a b] by (simp add: comp_strings_def strcmp_flip[where s = a and t = b] comp_of_def)
  show "comp_strings a c \<noteq> GREATER" if "comp_strings a b \<noteq> GREATER" "comp_strings b c \<noteq> GREATER"
    using that strcmp_trans[of a b c] by (simp add: comp_strings_def comp_of_le)
qed

end
