(* ===== verification/List17.thy ===== *)
theory List17
  imports Str_Comp Pthread
begin

text \<open>
  \<open>tasks17_20/task17.c\<close>: a singly linked list whose operations run under one mutex. Nodes live in
  an explicit heap, a pointer to a pointer (\<open>list_node_t **it\<close>) is a slot: the head of the list or
  the \<open>next\<close> field of a node. \<open>sort_list\<close> is characterised exactly: it returns, and then without
  changing the list, only when the pairs it looks at are in order.
\<close>

section \<open>The list\<close>

record list_node_t =
  nxt :: "nat option"
  str :: "char list"

record list_t =
  term_next :: "nat option"
  lcount :: nat
  lmutex :: mutex
  lheap :: "nat \<Rightarrow> list_node_t option"

datatype slot_t = Head | Next nat

definition node_at :: "list_t \<Rightarrow> nat option \<Rightarrow> (nat \<times> list_node_t) res" where
  "node_at l p = (case p of None \<Rightarrow> Inl Undefined
     | Some a \<Rightarrow> (case lheap l a of None \<Rightarrow> Inl Undefined | Some n \<Rightarrow> Inr (a, n)))"

definition get_slot :: "list_t \<Rightarrow> slot_t \<Rightarrow> nat option res" where
  "get_slot l it = (case it of Head \<Rightarrow> Inr (term_next l)
     | Next a \<Rightarrow> bind_r (node_at l (Some a)) (\<lambda>(_, n). Inr (nxt n)))"

definition set_slot :: "list_t \<Rightarrow> slot_t \<Rightarrow> nat option \<Rightarrow> list_t res" where
  "set_slot l it p = (case it of Head \<Rightarrow> Inr (l\<lparr>term_next := p\<rparr>)
     | Next a \<Rightarrow> bind_r (node_at l (Some a)) (\<lambda>(_, n). Inr (l\<lparr>lheap := (lheap l)(a \<mapsto> n\<lparr>nxt := p\<rparr>)\<rparr>)))"

section \<open>Operations\<close>

definition list_init :: "list_t \<Rightarrow> list_t" where
  "list_init l = l\<lparr>lmutex := Unlocked, term_next := None, lcount := 0\<rparr>"

definition list_lock :: "list_t \<Rightarrow> list_t res" where
  "list_lock l = bind_r (mutex_lock (lmutex l)) (\<lambda>m. Inr (l\<lparr>lmutex := m\<rparr>))"

definition list_unlock :: "list_t \<Rightarrow> list_t res" where
  "list_unlock l = bind_r (mutex_unlock (lmutex l)) (\<lambda>m. Inr (l\<lparr>lmutex := m\<rparr>))"

text \<open>The lines printed; a cyclic list never ends.\<close>

fun print_loop :: "nat \<Rightarrow> list_t \<Rightarrow> nat option \<Rightarrow> char list list res" where
  "print_loop 0 l it = Inl Diverge"
| "print_loop (Suc fuel) l it =
     (if it = None then Inr []
      else bind_r (node_at l it) (\<lambda>(_, n).
        bind_r (print_loop fuel l (nxt n)) (\<lambda>ss. Inr (str n # ss))))"

definition separator :: "char list" where
  "separator = ''===================================''"

definition list_print :: "nat \<Rightarrow> list_t \<Rightarrow> (list_t \<times> char list list) res" where
  "list_print fuel l =
     bind_r (list_lock l) (\<lambda>l.
     bind_r (print_loop fuel l (term_next l)) (\<lambda>ss.
     bind_r (list_unlock l) (\<lambda>l.
     Inr (l, separator # ss @ [separator]))))"

text \<open>The exchange of \<open>*it\<close> and its successor, as written: the third node is pointed back at the first.\<close>

definition swap_at :: "list_t \<Rightarrow> slot_t \<Rightarrow> list_t res" where
  "swap_at l it =
     bind_r (get_slot l it) (\<lambda>tmp.
     bind_r (node_at l tmp) (\<lambda>(_, n).
     bind_r (set_slot l it (nxt n)) (\<lambda>l.
     bind_r (get_slot l it) (\<lambda>p.
     bind_r (node_at l p) (\<lambda>(_, n).
     bind_r (node_at l (nxt n)) (\<lambda>(c, _).
     set_slot l (Next c) tmp))))))"

text \<open>\<open>it = &((*it)->next->next)\<close>\<close>

definition next_pair :: "list_t \<Rightarrow> slot_t \<Rightarrow> slot_t res" where
  "next_pair l it =
     bind_r (get_slot l it) (\<lambda>p.
     bind_r (node_at l p) (\<lambda>(_, n).
     bind_r (node_at l (nxt n)) (\<lambda>(b, _).
     Inr (Next b))))"

fun sort_pass :: "nat \<Rightarrow> list_t \<Rightarrow> slot_t \<Rightarrow> list_t res" where
  "sort_pass 0 l it = Inl Diverge"
| "sort_pass (Suc fuel) l it =
     bind_r (get_slot l it) (\<lambda>p.
     if p = None then Inr l else
     bind_r (node_at l p) (\<lambda>(_, na).
     if nxt na = None then Inr l else
     bind_r (node_at l (nxt na)) (\<lambda>(_, nb).
     bind_r (str_comp (str na) (str nb)) (\<lambda>c.
     bind_r (if c = GREATER then swap_at l it else Inr l) (\<lambda>l.
     bind_r (next_pair l it) (\<lambda>it.
     sort_pass fuel l it))))))"

fun sort_passes :: "nat \<Rightarrow> nat \<Rightarrow> list_t \<Rightarrow> list_t res" where
  "sort_passes fuel 0 l = Inr l"
| "sort_passes fuel (Suc k) l = bind_r (sort_pass fuel l Head) (sort_passes fuel k)"

definition sort_list :: "nat \<Rightarrow> list_t \<Rightarrow> list_t res" where
  "sort_list fuel l =
     bind_r (list_lock l) (\<lambda>l.
     bind_r (sort_passes fuel (lcount l) l) list_unlock)"

text \<open>\<open>new\<close> is the address \<open>malloc\<close> returns; \<open>assert\<close> ends the process when it is null.\<close>

definition list_push_front :: "nat option \<Rightarrow> char list \<Rightarrow> list_t \<Rightarrow> list_t res" where
  "list_push_front new s l =
     bind_r (list_lock l) (\<lambda>l.
     case new of None \<Rightarrow> Inl Exit
     | Some a \<Rightarrow> list_unlock (l\<lparr>lheap := (lheap l)(a \<mapsto> \<lparr>nxt = term_next l, str = s\<rparr>),
         term_next := Some a, lcount := sz_add (lcount l) 1\<rparr>))"

section \<open>What a list holds\<close>

fun chain :: "(nat \<Rightarrow> list_node_t option) \<Rightarrow> nat option \<Rightarrow> nat list \<Rightarrow> char list list \<Rightarrow> bool" where
  "chain h p [] ss = (p = None \<and> ss = [])"
| "chain h p (a # as) ss =
     (p = Some a \<and> a \<notin> set as \<and>
      (\<exists>n ss'. h a = Some n \<and> ss = str n # ss' \<and> chain h (nxt n) as ss'))"

definition list_holds :: "list_t \<Rightarrow> char list list \<Rightarrow> bool" where
  "list_holds l ss =
     (lmutex l = Unlocked \<and> lcount l = length ss \<and> (\<exists>as. chain (lheap l) (term_next l) as ss))"

lemma chain_length: "chain h p as ss \<Longrightarrow> length as = length ss"
  by (induction as arbitrary: p ss) auto

lemma chain_other: "a \<notin> set as \<Longrightarrow> chain (h(a \<mapsto> n)) p as ss = chain h p as ss"
  by (induction as arbitrary: p ss) auto

lemma chain_dom: "chain h p as ss \<Longrightarrow> a \<in> set as \<Longrightarrow> h a \<noteq> None"
  by (induction as arbitrary: p ss) auto

lemma node_at_simps [simp]:
  "node_at l None = Inl Undefined"
  "lheap l a = Some n \<Longrightarrow> node_at l (Some a) = Inr (a, n)"
  by (simp_all add: node_at_def)

lemma get_slot_simps [simp]:
  "get_slot l Head = Inr (term_next l)"
  "lheap l a = Some n \<Longrightarrow> get_slot l (Next a) = Inr (nxt n)"
  by (simp_all add: get_slot_def)

lemma set_slot_simps [simp]:
  "set_slot l Head p = Inr (l\<lparr>term_next := p\<rparr>)"
  "lheap l a = Some n \<Longrightarrow> set_slot l (Next a) p = Inr (l\<lparr>lheap := (lheap l)(a \<mapsto> n\<lparr>nxt := p\<rparr>)\<rparr>)"
  by (simp_all add: set_slot_def)

lemma list_init_holds: "list_holds (list_init l) []"
  by (simp add: list_holds_def list_init_def exI[of _ "[]"])

lemma push_front_holds:
  assumes "list_holds l ss" and "lheap l a = None" and "length ss + 1 < SIZE_MOD"
  shows "\<exists>l'. list_push_front (Some a) s l = Inr l' \<and> list_holds l' (s # ss)"
proof -
  obtain as where c: "chain (lheap l) (term_next l) as ss" "lmutex l = Unlocked" "lcount l = length ss"
    using assms(1) by (auto simp: list_holds_def)
  have "a \<notin> set as" using chain_dom[OF c(1), of a] assms(2) by fastforce
  then have "chain ((lheap l)(a \<mapsto> \<lparr>nxt = term_next l, str = s\<rparr>)) (Some a) (a # as) (s # ss)"
    using c(1) by (simp add: chain_other)
  then show ?thesis using c assms(3)
    by (auto simp: list_push_front_def list_lock_def list_unlock_def list_holds_def sz_add_def
        simp del: chain.simps intro!: exI[of _ "a # as"])
qed

lemma print_loop_chain:
  "chain (lheap l) p as ss \<Longrightarrow> length ss < fuel \<Longrightarrow> print_loop fuel l p = Inr ss"
proof (induction as arbitrary: p ss fuel)
  case Nil
  then show ?case by (cases fuel) auto
next
  case (Cons a as)
  then show ?case by (cases fuel) auto
qed

lemma list_print_holds:
  assumes "list_holds l ss" and "length ss < fuel"
  shows "list_print fuel l = Inr (l, separator # ss @ [separator])"
proof -
  obtain as where "chain (lheap (l\<lparr>lmutex := Locked\<rparr>)) (term_next l) as ss" "lmutex l = Unlocked"
    using assms(1) by (auto simp: list_holds_def)
  from print_loop_chain[OF this(1) assms(2)] this(2) show ?thesis
    by (simp add: list_print_def list_lock_def list_unlock_def)
qed

section \<open>Sorting\<close>

text \<open>
  What a pass does: pairs are looked at two by two. The first pair that is out of order is fatal:
  when it is the last one the code writes through a null pointer, otherwise it closes a cycle.
\<close>

fun sort_outcome :: "char list list \<Rightarrow> fault option" where
  "sort_outcome (a # b # ss) =
     (if comp_strings a b = GREATER then Some (if ss = [] then Undefined else Diverge) else sort_outcome ss)"
| "sort_outcome [] = None"
| "sort_outcome [a] = None"

text \<open>Three nodes in a cycle, with \<open>it\<close> inside: the loop never leaves them.\<close>

definition in_cycle :: "list_t \<Rightarrow> slot_t \<Rightarrow> bool" where
  "in_cycle l it = (\<exists>x y z nx ny nz. distinct [x, y, z] \<and> it = Next z \<and>
     lheap l x = Some nx \<and> lheap l y = Some ny \<and> lheap l z = Some nz \<and>
     nxt nx = Some y \<and> nxt ny = Some z \<and> nxt nz = Some x \<and>
     cstring_ok (str nx) \<and> cstring_ok (str ny) \<and> cstring_ok (str nz))"

lemma in_cycle_diverges: "in_cycle l it \<Longrightarrow> sort_pass fuel l it = Inl Diverge"
proof (induction fuel arbitrary: l it)
  case 0
  then show ?case by simp
next
  case (Suc fuel)
  from Suc.prems obtain x y z nx ny nz where c: "distinct [x, y, z]" "it = Next z"
      "lheap l x = Some nx" "lheap l y = Some ny" "lheap l z = Some nz"
      "nxt nx = Some y" "nxt ny = Some z" "nxt nz = Some x"
      "cstring_ok (str nx)" "cstring_ok (str ny)" "cstring_ok (str nz)"
    unfolding in_cycle_def by blast
  have same: "(lheap l)(z \<mapsto> nz\<lparr>nxt := Some x\<rparr>) = lheap l" using c(5,8) by (auto simp: fun_eq_iff)
  have swap: "swap_at l it = Inr l"
    using c same by (simp add: swap_at_def) 
  have "in_cycle l (Next y)" unfolding in_cycle_def using c by (intro exI[of _ z] exI[of _ x] exI[of _ y] exI[of _ nz] exI[of _ nx] exI[of _ ny]) auto
  from Suc.IH[OF this] show ?case
    using c swap by (simp add: str_comp_strcmp next_pair_def)
qed

lemma slot_update:
  assumes "get_slot l it = Inr p"
  shows "\<exists>l'. set_slot l it q = Inr l' \<and> get_slot l' it = Inr q \<and> (\<forall>b. it \<noteq> Next b \<longrightarrow> lheap l' b = lheap l b)"
proof (cases it)
  case (Next a)
  then obtain n where "lheap l a = Some n"
    using assms by (auto simp: get_slot_def node_at_def split: option.splits)
  then show ?thesis using Next by simp
qed simp

lemma swap_outcome:
  assumes "get_slot l it = Inr (Some a)" "lheap l a = Some na" "lheap l b = Some nb" "nxt na = Some b"
    and "it \<noteq> Next a" "it \<noteq> Next b" "a \<noteq> b"
  shows "nxt nb = None \<Longrightarrow> swap_at l it = Inl Undefined"
    and "nxt nb = Some c \<Longrightarrow> lheap l c = Some nc \<Longrightarrow> c \<noteq> a \<Longrightarrow> c \<noteq> b \<Longrightarrow> it \<noteq> Next c \<Longrightarrow>
      cstring_ok (str na) \<Longrightarrow> cstring_ok (str nb) \<Longrightarrow> cstring_ok (str nc) \<Longrightarrow>
      \<exists>l'. swap_at l it = Inr l' \<and> next_pair l' it = Inr (Next c) \<and> in_cycle l' (Next c)"
proof -
  obtain l1 where l1: "set_slot l it (Some b) = Inr l1" "get_slot l1 it = Inr (Some b)"
      "\<And>x. it \<noteq> Next x \<Longrightarrow> lheap l1 x = lheap l x"
    using slot_update[OF assms(1), of "Some b"] by blast
  note h = l1(3)[OF assms(5)] l1(3)[OF assms(6)]
  show "swap_at l it = Inl Undefined" if "nxt nb = None"
    using assms l1(1,2) h that by (simp add: swap_at_def)
  show "\<exists>l'. swap_at l it = Inr l' \<and> next_pair l' it = Inr (Next c) \<and> in_cycle l' (Next c)"
    if c: "nxt nb = Some c" "lheap l c = Some nc" "c \<noteq> a" "c \<noteq> b" "it \<noteq> Next c"
      "cstring_ok (str na)" "cstring_ok (str nb)" "cstring_ok (str nc)"
  proof -
    let ?l = "l1\<lparr>lheap := (lheap l1)(c \<mapsto> nc\<lparr>nxt := Some a\<rparr>)\<rparr>"
    have swap: "swap_at l it = Inr ?l" using assms l1(1,2) h l1(3)[OF c(5)] c by (simp add: swap_at_def)
    have get: "get_slot ?l it = Inr (Some b)"
      using l1(2) c(5) by (cases it) (auto simp: get_slot_def node_at_def split: option.splits)
    have "in_cycle ?l (Next c)" unfolding in_cycle_def
      using assms h c by (intro exI[of _ a] exI[of _ b] exI[of _ c] exI[of _ na] exI[of _ nb] exI[of _ "nc\<lparr>nxt := Some a\<rparr>"]) auto
    then show ?thesis using swap get assms h c by (simp add: next_pair_def)
  qed
qed

lemma sort_pass_outcome:
  assumes "chain (lheap l) p as ss" and "get_slot l it = Inr p" and "\<forall>s\<in>set ss. cstring_ok s"
    and "length ss < fuel" and "\<forall>b \<in> set as. it \<noteq> Next b"
  shows "sort_pass fuel l it = (case sort_outcome ss of None \<Rightarrow> Inr l | Some e \<Rightarrow> Inl e)"
  using assms
proof (induction ss arbitrary: p as it fuel rule: sort_outcome.induct)
  case (1 s1 s2 ss)
  obtain k where k: "fuel = Suc k" using 1(5) by (cases fuel) auto
  obtain a b as' na nb where c: "as = a # b # as'" "p = Some a" "lheap l a = Some na" "lheap l b = Some nb"
      "nxt na = Some b" "str na = s1" "str nb = s2" "chain (lheap l) (nxt nb) as' ss" "a \<noteq> b" "a \<notin> set as'" "b \<notin> set as'"
    using 1(2) by (cases as; cases "tl as") auto
  note comp = str_comp_strcmp[of s1 s2]
  show ?case
  proof (cases "comp_strings s1 s2 = GREATER")
    case False
    have "sort_pass k l (Next b) = (case sort_outcome ss of None \<Rightarrow> Inr l | Some e \<Rightarrow> Inl e)"
      using 1(1)[OF False c(8), of "Next b" k] 1(4,5) c k by auto
    then show ?thesis using False c 1(3,4) k comp by (simp add: next_pair_def comp_strings_def)
  next
    case True
    note sw = swap_outcome[OF 1(3)[unfolded c(2)] c(3,4,5), OF _ _ c(9)]
    have it: "it \<noteq> Next a" "it \<noteq> Next b" using 1(6) c(1) by auto
    show ?thesis
    proof (cases ss)
      case Nil
      then have "nxt nb = None" using c(8) by (cases as') auto
      from sw(1)[OF it this] show ?thesis using True c 1(3,4) k comp Nil by (simp add: comp_strings_def)
    next
      case (Cons s3 ss')
      then obtain d nd as'' where d: "as' = d # as''" "nxt nb = Some d" "lheap l d = Some nd" "str nd = s3"
        using c(8) by (cases as') auto
      obtain l' where "swap_at l it = Inr l'" "next_pair l' it = Inr (Next d)" "in_cycle l' (Next d)"
        using sw(2)[OF it d(2,3)] 1(4,6) c d Cons by auto
      then show ?thesis using True c 1(3,4) k comp Cons in_cycle_diverges by (simp add: comp_strings_def)
    qed
  qed
next
  case 2
  then show ?case by (cases fuel; cases as) auto
next
  case (3 s)
  then obtain a n where "p = Some a" "lheap l a = Some n" "nxt n = None"
    by (cases as; cases "tl as") auto
  then show ?case using 3(2,4) by (cases fuel) auto
qed

text \<open>The whole of \<open>sort_list\<close>, from the first element on; every pass looks at the same pairs.\<close>

lemma sort_list_outcome:
  assumes "list_holds l ss" and "\<forall>s\<in>set ss. cstring_ok s" and "length ss < fuel"
  shows "sort_list fuel l = (case sort_outcome ss of None \<Rightarrow> Inr l | Some e \<Rightarrow> Inl e)"
proof -
  let ?l = "l\<lparr>lmutex := Locked\<rparr>"
  obtain as where c: "chain (lheap ?l) (term_next ?l) as ss" "lmutex l = Unlocked" "lcount l = length ss"
    using assms(1) by (auto simp: list_holds_def)
  have pass: "sort_pass fuel ?l Head = (case sort_outcome ss of None \<Rightarrow> Inr ?l | Some e \<Rightarrow> Inl e)"
    by (rule sort_pass_outcome[OF c(1) _ assms(2,3)]) simp_all
  have "sort_passes fuel k ?l = (if k = 0 then Inr ?l else case sort_outcome ss of None \<Rightarrow> Inr ?l | Some e \<Rightarrow> Inl e)" for k
    by (induction k) (simp_all add: pass split: option.splits)
  moreover have "ss = [] \<Longrightarrow> sort_outcome ss = None" by simp
  ultimately show ?thesis using c(2,3)
    by (auto simp: sort_list_def list_lock_def list_unlock_def split: option.splits)
qed

end
