(* ===== verification/List18.thy ===== *)
theory List18
  imports List17 Transition "HOL-Library.Multiset"
begin

text \<open>
  \<open>tasks17_20/task18.c\<close> (\<open>task20.c\<close> differs in \<open>list_print\<close> only, which does not compile there): the
  list with a mutex per node, taken hand over hand while sorting, and a status that lets sorting
  threads run side by side but not beside a thread that prints or inserts. First the operations
  of one thread, then the protocol of the status among threads.
\<close>

section \<open>The list\<close>

datatype ListStatus = FREE | SORTING | UPDATING

record list_node18_t =
  nxt18 :: "nat option"
  nmutex :: mutex
  str18 :: "char list"

record list18_t =
  term_next18 :: "nat option"
  term_mutex :: mutex
  count18 :: nat
  mutex18 :: mutex
  sorting_count :: int
  status :: ListStatus
  heap18 :: "nat \<Rightarrow> list_node18_t option"

text \<open>A pointer to a node: the terminator inside the list, or a node of the heap.\<close>

datatype base_t = Term | Node nat

definition node18 :: "list18_t \<Rightarrow> nat option \<Rightarrow> (nat \<times> list_node18_t) res" where
  "node18 l p = (case p of None \<Rightarrow> Inl Undefined
     | Some a \<Rightarrow> (case heap18 l a of None \<Rightarrow> Inl Undefined | Some n \<Rightarrow> Inr (a, n)))"

definition next18 :: "list18_t \<Rightarrow> base_t \<Rightarrow> nat option res" where
  "next18 l b = (case b of Term \<Rightarrow> Inr (term_next18 l)
     | Node a \<Rightarrow> bind_r (node18 l (Some a)) (\<lambda>(_, n). Inr (nxt18 n)))"

definition set_next18 :: "list18_t \<Rightarrow> base_t \<Rightarrow> nat option \<Rightarrow> list18_t res" where
  "set_next18 l b p = (case b of Term \<Rightarrow> Inr (l\<lparr>term_next18 := p\<rparr>)
     | Node a \<Rightarrow> bind_r (node18 l (Some a)) (\<lambda>(_, n). Inr (l\<lparr>heap18 := (heap18 l)(a \<mapsto> n\<lparr>nxt18 := p\<rparr>)\<rparr>)))"

definition on_mutex :: "(mutex \<Rightarrow> mutex res) \<Rightarrow> list18_t \<Rightarrow> base_t \<Rightarrow> list18_t res" where
  "on_mutex f l b = (case b of
       Term \<Rightarrow> bind_r (f (term_mutex l)) (\<lambda>m. Inr (l\<lparr>term_mutex := m\<rparr>))
     | Node a \<Rightarrow> bind_r (node18 l (Some a)) (\<lambda>(_, n).
         bind_r (f (nmutex n)) (\<lambda>m. Inr (l\<lparr>heap18 := (heap18 l)(a \<mapsto> n\<lparr>nmutex := m\<rparr>)\<rparr>))))"

text \<open>\<open>&p->mutex\<close> of a null pointer is no mutex.\<close>

definition on_mutex_at :: "(mutex \<Rightarrow> mutex res) \<Rightarrow> list18_t \<Rightarrow> nat option \<Rightarrow> list18_t res" where
  "on_mutex_at f l p = (case p of None \<Rightarrow> Inl Undefined | Some a \<Rightarrow> on_mutex f l (Node a))"

definition on_list_mutex :: "(mutex \<Rightarrow> mutex res) \<Rightarrow> list18_t \<Rightarrow> list18_t res" where
  "on_list_mutex f l = bind_r (f (mutex18 l)) (\<lambda>m. Inr (l\<lparr>mutex18 := m\<rparr>))"

definition list_init18 :: "list18_t \<Rightarrow> list18_t" where
  "list_init18 l = l\<lparr>mutex18 := Unlocked, term_mutex := Unlocked, term_next18 := None, count18 := 0,
     sorting_count := 0, status := FREE\<rparr>"

section \<open>The critical sections of the status\<close>

text \<open>\<open>None\<close>: the caller waits on the condition, which releases the mutex and leaves the list as it was.\<close>

definition enter_update :: "list18_t \<Rightarrow> list18_t option res" where
  "enter_update l =
     bind_r (on_list_mutex mutex_lock l) (\<lambda>l.
     if status l \<noteq> FREE then Inr None
     else bind_r (on_list_mutex mutex_unlock (l\<lparr>status := UPDATING\<rparr>)) (\<lambda>l. Inr (Some l)))"

definition leave_update :: "list18_t \<Rightarrow> list18_t res" where
  "leave_update l =
     bind_r (on_list_mutex mutex_lock l) (\<lambda>l. on_list_mutex mutex_unlock (l\<lparr>status := FREE\<rparr>))"

definition enter_sort :: "list18_t \<Rightarrow> list18_t option res" where
  "enter_sort l =
     bind_r (on_list_mutex mutex_lock l) (\<lambda>l.
     if status l = UPDATING then Inr None
     else bind_r (on_list_mutex mutex_unlock (l\<lparr>status := SORTING, sorting_count := sorting_count l + 1\<rparr>))
       (\<lambda>l. Inr (Some l)))"

definition leave_sort :: "list18_t \<Rightarrow> list18_t res" where
  "leave_sort l =
     bind_r (on_list_mutex mutex_lock l) (\<lambda>l.
     let l = l\<lparr>sorting_count := sorting_count l - 1\<rparr> in
     on_list_mutex mutex_unlock (if sorting_count l = 0 then l\<lparr>status := FREE\<rparr> else l))"

text \<open>An operation between its two critical sections.\<close>

definition between ::
  "(list18_t \<Rightarrow> list18_t option res) \<Rightarrow> (list18_t \<Rightarrow> ('a \<times> list18_t) res) \<Rightarrow> (list18_t \<Rightarrow> list18_t res) \<Rightarrow>
   list18_t \<Rightarrow> ('a \<times> list18_t) option res" where
  "between enter body leave l =
     bind_r (enter l) (\<lambda>r. case r of None \<Rightarrow> Inr None
     | Some l \<Rightarrow> bind_r (body l) (\<lambda>(x, l). bind_r (leave l) (\<lambda>l. Inr (Some (x, l)))))"

section \<open>Operations\<close>

fun print_loop18 :: "nat \<Rightarrow> list18_t \<Rightarrow> nat option \<Rightarrow> char list list res" where
  "print_loop18 0 l it = Inl Diverge"
| "print_loop18 (Suc fuel) l it =
     (if it = None then Inr []
      else bind_r (node18 l it) (\<lambda>(_, n).
        bind_r (print_loop18 fuel l (nxt18 n)) (\<lambda>ss. Inr (str18 n # ss))))"

definition list_print18 :: "nat \<Rightarrow> list18_t \<Rightarrow> (char list list \<times> list18_t) option res" where
  "list_print18 fuel = between enter_update
     (\<lambda>l. bind_r (print_loop18 fuel l (term_next18 l)) (\<lambda>ss. Inr (separator # ss @ [separator], l))) leave_update"

text \<open>The body of the \<open>do\<close> loop: the new base, and whether the loop is to go on.\<close>

definition sort_body :: "list18_t \<Rightarrow> base_t \<Rightarrow> (bool \<times> base_t \<times> list18_t) res" where
  "sort_body l base =
     bind_r (next18 l base) (\<lambda>p.
     bind_r (node18 l p) (\<lambda>(_, n).
     bind_r (on_mutex_at mutex_lock l (nxt18 n)) (\<lambda>l.
     bind_r (next18 l base) (\<lambda>p.
     bind_r (node18 l p) (\<lambda>(first, nf).
     bind_r (node18 l (nxt18 nf)) (\<lambda>(second, ns).
     bind_r (str_comp (str18 nf) (str18 ns)) (\<lambda>c.
     bind_r (if c = GREATER then
               bind_r (set_next18 l base (Some second)) (\<lambda>l.
               bind_r (set_next18 l (Node second) (Some first)) (\<lambda>l.
               set_next18 l (Node first) (nxt18 ns)))
             else Inr l) (\<lambda>l.
     bind_r (next18 l base) (\<lambda>p.
     bind_r (node18 l p) (\<lambda>(tmp, n).
     bind_r (on_mutex mutex_unlock l base) (\<lambda>l.
     Inr (nxt18 n = None, Node tmp, l))))))))))))"

text \<open>\<open>do ... while (is_end)\<close>\<close>

fun do_while :: "nat \<Rightarrow> list18_t \<Rightarrow> base_t \<Rightarrow> (base_t \<times> list18_t) res" where
  "do_while 0 l base = Inl Diverge"
| "do_while (Suc fuel) l base =
     bind_r (sort_body l base) (\<lambda>(is_end, base, l).
     if is_end then do_while fuel l base else Inr (base, l))"

definition sort_once :: "nat \<Rightarrow> list18_t \<Rightarrow> list18_t res" where
  "sort_once fuel l =
     bind_r (on_mutex mutex_lock l Term) (\<lambda>l.
     bind_r (next18 l Term) (\<lambda>p.
     bind_r (on_mutex_at mutex_lock l p) (\<lambda>l.
     bind_r (do_while fuel l Term) (\<lambda>(base, l).
     bind_r (next18 l base) (\<lambda>p.
     bind_r (on_mutex_at mutex_unlock l p) (\<lambda>l.
     on_mutex mutex_unlock l base))))))"

fun sort_iters :: "nat \<Rightarrow> nat \<Rightarrow> list18_t \<Rightarrow> list18_t res" where
  "sort_iters fuel 0 l = Inr l"
| "sort_iters fuel (Suc k) l = bind_r (sort_once fuel l) (sort_iters fuel k)"

definition sort_list18 :: "nat \<Rightarrow> list18_t \<Rightarrow> (unit \<times> list18_t) option res" where
  "sort_list18 fuel = between enter_sort
     (\<lambda>l. bind_r (sort_iters fuel (sz_sub (count18 l) 1) l) (\<lambda>l. Inr ((), l))) leave_sort"

definition push_node18 :: "nat option \<Rightarrow> char list \<Rightarrow> list18_t \<Rightarrow> (unit \<times> list18_t) res" where
  "push_node18 new s l = (case new of None \<Rightarrow> Inl Exit
     | Some a \<Rightarrow> Inr ((), l\<lparr>heap18 := (heap18 l)(a \<mapsto> \<lparr>nxt18 = term_next18 l, nmutex = Unlocked, str18 = s\<rparr>),
         term_next18 := Some a, count18 := sz_add (count18 l) 1\<rparr>))"

definition list_push_front18 :: "nat option \<Rightarrow> char list \<Rightarrow> list18_t \<Rightarrow> (unit \<times> list18_t) option res" where
  "list_push_front18 new s = between enter_update (push_node18 new s) leave_update"

section \<open>What a list holds\<close>

fun chain18 :: "(nat \<Rightarrow> list_node18_t option) \<Rightarrow> nat option \<Rightarrow> nat list \<Rightarrow> char list list \<Rightarrow> bool" where
  "chain18 h p [] ss = (p = None \<and> ss = [])"
| "chain18 h p (a # as) ss =
     (p = Some a \<and> a \<notin> set as \<and>
      (\<exists>n ss'. h a = Some n \<and> nmutex n = Unlocked \<and> ss = str18 n # ss' \<and> chain18 h (nxt18 n) as ss'))"

text \<open>The list holds the strings, and every mutex of it is free.\<close>

definition list18_holds :: "list18_t \<Rightarrow> char list list \<Rightarrow> bool" where
  "list18_holds l ss =
     (mutex18 l = Unlocked \<and> term_mutex l = Unlocked \<and> count18 l = length ss \<and>
      (\<exists>as. chain18 (heap18 l) (term_next18 l) as ss))"

lemma chain18_other: "a \<notin> set as \<Longrightarrow> chain18 (h(a \<mapsto> n)) p as ss = chain18 h p as ss"
  by (induction as arbitrary: p ss) auto

lemma chain18_dom: "chain18 h p as ss \<Longrightarrow> a \<in> set as \<Longrightarrow> h a \<noteq> None"
  by (induction as arbitrary: p ss) auto

lemma node18_simps [simp]:
  "node18 l None = Inl Undefined"
  "heap18 l a = Some n \<Longrightarrow> node18 l (Some a) = Inr (a, n)"
  by (simp_all add: node18_def)

lemma base_simps [simp]:
  "next18 l Term = Inr (term_next18 l)"
  "heap18 l a = Some n \<Longrightarrow> next18 l (Node a) = Inr (nxt18 n)"
  "set_next18 l Term p = Inr (l\<lparr>term_next18 := p\<rparr>)"
  "heap18 l a = Some n \<Longrightarrow> set_next18 l (Node a) p = Inr (l\<lparr>heap18 := (heap18 l)(a \<mapsto> n\<lparr>nxt18 := p\<rparr>)\<rparr>)"
  "on_mutex f l Term = bind_r (f (term_mutex l)) (\<lambda>m. Inr (l\<lparr>term_mutex := m\<rparr>))"
  "heap18 l a = Some n \<Longrightarrow> on_mutex f l (Node a) =
     bind_r (f (nmutex n)) (\<lambda>m. Inr (l\<lparr>heap18 := (heap18 l)(a \<mapsto> n\<lparr>nmutex := m\<rparr>)\<rparr>))"
  "on_mutex_at f l None = Inl Undefined"
  "on_mutex_at f l (Some a) = on_mutex f l (Node a)"
  by (simp_all add: next18_def set_next18_def on_mutex_def on_mutex_at_def)

section \<open>One pass of sorting\<close>

lemma sort_once_pair:
  assumes "term_next18 l = Some a" "heap18 l a = Some na" "nxt18 na = Some b" "heap18 l b = Some nb" "a \<noteq> b"
    and "term_mutex l = Unlocked" "nmutex na = Unlocked" "nmutex nb = Unlocked"
    and "cstring_ok (str18 na)" "cstring_ok (str18 nb)"
  shows "comp_strings (str18 na) (str18 nb) \<noteq> GREATER \<Longrightarrow> sort_once (Suc k) l = Inr l"
    and "comp_strings (str18 na) (str18 nb) = GREATER \<Longrightarrow> sort_once (Suc k) l =
      Inr (l\<lparr>term_next18 := Some b,
        heap18 := (heap18 l)(a \<mapsto> na\<lparr>nxt18 := nxt18 nb\<rparr>, b \<mapsto> nb\<lparr>nxt18 := Some a\<rparr>)\<rparr>)"
proof -
  note c = assms str_comp_strcmp[OF assms(9,10)]
  have n: "na\<lparr>nmutex := Unlocked\<rparr> = na" "nb\<lparr>nmutex := Unlocked\<rparr> = nb"
      "na\<lparr>nxt18 := p, nmutex := Unlocked\<rparr> = na\<lparr>nxt18 := p\<rparr>" "nb\<lparr>nxt18 := p, nmutex := Unlocked\<rparr> = nb\<lparr>nxt18 := p\<rparr>" for p
    using assms(7,8) by (cases na; cases nb; simp)+
  have h: "(heap18 l)(a \<mapsto> na, b \<mapsto> nb) = heap18 l" using assms(2,4) by auto
  have same: "l\<lparr>term_mutex := Unlocked, heap18 := (heap18 l)(a \<mapsto> na, b \<mapsto> nb)\<rparr> = l"
    by (rule list18_t.equality) (simp_all add: assms(6) h)
  show "sort_once (Suc k) l = Inr l" if "comp_strings (str18 na) (str18 nb) \<noteq> GREATER"
    using c that by (simp add: sort_once_def sort_body_def comp_strings_def fun_upd_twist)
      (simp only: n same)
  show "sort_once (Suc k) l = Inr (l\<lparr>term_next18 := Some b,
        heap18 := (heap18 l)(a \<mapsto> na\<lparr>nxt18 := nxt18 nb\<rparr>, b \<mapsto> nb\<lparr>nxt18 := Some a\<rparr>)\<rparr>)"
    if "comp_strings (str18 na) (str18 nb) = GREATER"
    using c that by (simp add: sort_once_def sort_body_def comp_strings_def fun_upd_twist)
      (rule list18_t.equality; simp add: n assms(6))
qed

text \<open>What a pass does to the contents: the first two elements only.\<close>

fun order_first :: "char list list \<Rightarrow> char list list" where
  "order_first (a # b # ss) = (if sc.le a b then a # b # ss else b # a # ss)"
| "order_first ss = ss"

lemma order_first_idem: "order_first (order_first ss) = order_first ss"
  using sc.le_linear by (cases ss rule: order_first.cases) auto

lemma order_first_perm: "mset (order_first ss) = mset ss"
  by (cases ss rule: order_first.cases) auto

lemma set_order_first: "set (order_first ss) = set ss"
  by (metis order_first_perm set_mset_mset)

lemma length_order_first: "length (order_first ss) = length ss"
  by (cases ss rule: order_first.cases) auto

lemma sort_once_holds:
  assumes "list18_holds l ss" and "2 \<le> length ss" and "\<forall>s\<in>set ss. cstring_ok s"
  shows "\<exists>l'. sort_once (Suc k) l = Inr l' \<and> list18_holds l' (order_first ss) \<and>
    count18 l' = count18 l \<and> status l' = status l \<and> sorting_count l' = sorting_count l"
proof -
  obtain s1 s2 ss' where ss: "ss = s1 # s2 # ss'"
    using assms(2) by (cases ss rule: order_first.cases) auto
  obtain a b as na nb where c: "term_next18 l = Some a" "heap18 l a = Some na" "nxt18 na = Some b" "heap18 l b = Some nb"
      "a \<noteq> b" "nmutex na = Unlocked" "nmutex nb = Unlocked" "str18 na = s1" "str18 nb = s2"
      "chain18 (heap18 l) (nxt18 nb) as ss'" "a \<notin> set as" "b \<notin> set as"
    using assms(1) unfolding list18_holds_def ss
    by (elim conjE exE) (rename_tac as, case_tac as; case_tac "tl as"; auto)
  have ok: "cstring_ok (str18 na)" "cstring_ok (str18 nb)" using assms(3) c ss by auto
  have u: "term_mutex l = Unlocked" using assms(1) by (simp add: list18_holds_def)
  note once = sort_once_pair[OF c(1-5) u c(6,7) ok]
  show ?thesis
  proof (cases "sc.le s1 s2")
    case True
    then show ?thesis using once(1) assms(1) c ss by (simp add: sc.le_def)
  next
    case False
    let ?h = "(heap18 l)(a \<mapsto> na\<lparr>nxt18 := nxt18 nb\<rparr>, b \<mapsto> nb\<lparr>nxt18 := Some a\<rparr>)"
    have "chain18 ?h (Some b) (b # a # as) (s2 # s1 # ss')"
      using c by (simp add: chain18_other)
    then show ?thesis using once(2) False assms(1) c ss
      by (auto simp: sc.le_def list18_holds_def simp del: chain18.simps)
  qed
qed

lemma sort_iters_holds:
  assumes "list18_holds l ss" and "2 \<le> length ss" and "\<forall>s\<in>set ss. cstring_ok s"
  shows "\<exists>l'. sort_iters (Suc k) (Suc n) l = Inr l' \<and> list18_holds l' (order_first ss) \<and>
    count18 l' = count18 l \<and> status l' = status l \<and> sorting_count l' = sorting_count l"
  using assms
proof (induction n arbitrary: l ss)
  case 0
  from sort_once_holds[OF 0, of k] show ?case by auto
next
  case (Suc n)
  obtain l1 where l1: "sort_once (Suc k) l = Inr l1" "list18_holds l1 (order_first ss)"
      "count18 l1 = count18 l" "status l1 = status l" "sorting_count l1 = sorting_count l"
    using sort_once_holds[OF Suc.prems] by blast
  obtain l' where "sort_iters (Suc k) (Suc n) l1 = Inr l'" "list18_holds l' (order_first ss)"
      "count18 l' = count18 l1" "status l' = status l1" "sorting_count l' = sorting_count l1"
    using Suc.IH[OF l1(2)] Suc.prems by (auto simp: length_order_first set_order_first order_first_idem)
  then show ?case using l1 by (simp del: sort_iters.simps(2) add: sort_iters.simps(2)[of "Suc k" "Suc n"])
qed

section \<open>The operations\<close>

lemma between_simp:
  assumes "enter l = Inr (Some l1)" "body l1 = Inr (x, l2)" "leave l2 = Inr l3"
  shows "between enter body leave l = Inr (Some (x, l3))"
  using assms by (simp add: between_def)

lemma list_mutex_simps [simp]:
  "on_list_mutex f l = bind_r (f (mutex18 l)) (\<lambda>m. Inr (l\<lparr>mutex18 := m\<rparr>))"
  by (simp add: on_list_mutex_def)

text \<open>The fields a status change leaves alone.\<close>

lemma holds_status [simp]:
  "list18_holds (l\<lparr>status := x\<rparr>) ss = list18_holds l ss"
  "list18_holds (l\<lparr>sorting_count := i\<rparr>) ss = list18_holds l ss"
  "mutex18 l = Unlocked \<Longrightarrow> list18_holds (l\<lparr>mutex18 := Unlocked\<rparr>) ss = list18_holds l ss"
  by (simp_all add: list18_holds_def)

lemma enter_sort_free: "mutex18 l = Unlocked \<Longrightarrow> enter_sort l =
    Inr (if status l = UPDATING then None
      else Some (l\<lparr>status := SORTING, sorting_count := sorting_count l + 1\<rparr>))"
  by (simp add: enter_sort_def)

lemma leave_sort_free: "mutex18 l = Unlocked \<Longrightarrow> leave_sort l =
    Inr (l\<lparr>sorting_count := sorting_count l - 1,
      status := if sorting_count l = 1 then FREE else status l\<rparr>)"
  by (simp add: leave_sort_def Let_def)

lemma enter_update_free: "mutex18 l = Unlocked \<Longrightarrow> enter_update l =
    Inr (if status l \<noteq> FREE then None else Some (l\<lparr>status := UPDATING\<rparr>))"
  by (simp add: enter_update_def)

lemma leave_update_free: "mutex18 l = Unlocked \<Longrightarrow> leave_update l = Inr (l\<lparr>status := FREE\<rparr>)"
  by (simp add: leave_update_def)

lemma holds18D: "list18_holds l ss \<Longrightarrow> mutex18 l = Unlocked" "list18_holds l ss \<Longrightarrow> count18 l = length ss"
  by (simp_all add: list18_holds_def)

lemma sort_list18_holds:
  assumes "list18_holds l ss" and "\<forall>s\<in>set ss. cstring_ok s" and "ss \<noteq> []" and "length ss < SIZE_MOD"
    and "status l \<noteq> UPDATING"
  shows "\<exists>l'. sort_list18 (Suc k) l = Inr (Some ((), l')) \<and> list18_holds l' (order_first ss) \<and>
    sorting_count l' = sorting_count l \<and> status l' = (if sorting_count l = 0 then FREE else SORTING)"
proof -
  let ?l = "l\<lparr>status := SORTING, sorting_count := sorting_count l + 1\<rparr>"
  have h: "list18_holds ?l ss" using assms(1) by simp
  have n: "sz_sub (count18 ?l) 1 = length ss - 1"
    using assms(1,3,4) by (cases ss) (auto simp: list18_holds_def sz_sub_def)
  have "\<exists>l'. sort_iters (Suc k) (length ss - 1) ?l = Inr l' \<and> list18_holds l' (order_first ss) \<and>
      status l' = SORTING \<and> sorting_count l' = sorting_count l + 1"
  proof (cases "2 \<le> length ss")
    case True
    then obtain n where n: "length ss - 1 = Suc n" by (cases "length ss - 1") auto
    from sort_iters_holds[OF h True assms(2), of k n] show ?thesis unfolding n by (auto simp del: sort_iters.simps)
  next
    case False
    then obtain s where "ss = [s]" using assms(3) by (cases ss rule: order_first.cases) auto
    then show ?thesis using h by simp
  qed
  then obtain l' where l': "sort_iters (Suc k) (length ss - 1) ?l = Inr l'" "list18_holds l' (order_first ss)"
      "status l' = SORTING" "sorting_count l' = sorting_count l + 1" by blast
  have "sort_list18 (Suc k) l = Inr (Some ((), l'\<lparr>sorting_count := sorting_count l' - 1,
      status := if sorting_count l' = 1 then FREE else status l'\<rparr>))"
    unfolding sort_list18_def
    using enter_sort_free[OF holds18D(1)[OF assms(1)]] assms(5) n l'(1) leave_sort_free[OF holds18D(1)[OF l'(2)]]
    by (simp add: between_def)
  then show ?thesis using l' by auto
qed

lemma sort_list18_empty:
  assumes "list18_holds l []" and "status l \<noteq> UPDATING"
  shows "sort_list18 fuel l = Inl Undefined"
proof -
  have n: "sz_sub 0 1 = Suc (SIZE_MOD - 2)" by (simp add: sz_sub_def SIZE_MOD_def)
  have "sort_once fuel l' = Inl Undefined" if "list18_holds l' []" for l'
    using that by (auto simp: sort_once_def list18_holds_def) (case_tac as; simp)
  then show ?thesis
    using enter_sort_free[OF holds18D(1)[OF assms(1)]] holds18D(2)[OF assms(1)] assms n
    by (simp add: sort_list18_def between_def)
qed

lemma sort_list18_waits: "list18_holds l ss \<Longrightarrow> status l = UPDATING \<Longrightarrow> sort_list18 fuel l = Inr None"
  using enter_sort_free[OF holds18D(1)] by (simp add: sort_list18_def between_def)

lemma push_front18_holds:
  assumes "list18_holds l ss" and "heap18 l a = None" and "length ss + 1 < SIZE_MOD" and "status l = FREE"
  shows "\<exists>l'. list_push_front18 (Some a) s l = Inr (Some ((), l')) \<and> list18_holds l' (s # ss) \<and> status l' = FREE"
proof -
  obtain as where c: "chain18 (heap18 l) (term_next18 l) as ss" using assms(1) by (auto simp: list18_holds_def)
  have "a \<notin> set as" using chain18_dom[OF c, of a] assms(2) by fastforce
  then have "chain18 ((heap18 l)(a \<mapsto> \<lparr>nxt18 = term_next18 l, nmutex = Unlocked, str18 = s\<rparr>)) (Some a) (a # as) (s # ss)"
    using c by (simp add: chain18_other)
  then show ?thesis using assms enter_update_free[OF holds18D(1)[OF assms(1)]]
    by (auto simp: list_push_front18_def between_def push_node18_def leave_update_free list18_holds_def sz_add_def
        simp del: chain18.simps)
qed

lemma print_loop18_chain:
  "chain18 (heap18 l) p as ss \<Longrightarrow> length ss < fuel \<Longrightarrow> print_loop18 fuel l p = Inr ss"
proof (induction as arbitrary: p ss fuel)
  case Nil
  then show ?case by (cases fuel) auto
next
  case (Cons a as)
  then show ?case by (cases fuel) auto
qed

lemma list_print18_holds:
  assumes "list18_holds l ss" and "length ss < fuel" and "status l = FREE"
  shows "list_print18 fuel l = Inr (Some (separator # ss @ [separator], l))"
proof -
  obtain as where "chain18 (heap18 (l\<lparr>status := UPDATING\<rparr>)) (term_next18 l) as ss"
    using assms(1) by (auto simp: list18_holds_def)
  from print_loop18_chain[OF this assms(2)] show ?thesis
    using assms(3) enter_update_free[OF holds18D(1)[OF assms(1)]] holds18D(1)[OF assms(1)]
    by (simp add: list_print18_def between_def leave_update_free)
qed

section \<open>The protocol of the status\<close>

text \<open>
  Threads are numbers. A thread that found the status unsuitable sleeps on the condition until a
  broadcast; the mutex of the list makes every critical section one step. A sorting thread's work
  between its sections is left to \<open>Sorters18\<close>: it touches neither the status nor the counter.
  A wait may also end without a broadcast.
\<close>

datatype phase18 = Idle | Sleeping | Sorting | Updating

record sys18 =
  lst :: list18_t
  phase_of :: "nat \<Rightarrow> phase18"

text \<open>\<open>pthread_cond_broadcast\<close>: every sleeper looks at the status again.\<close>

definition wake_all :: "(nat \<Rightarrow> phase18) \<Rightarrow> nat \<Rightarrow> phase18" where
  "wake_all ph = (\<lambda>t. if ph t = Sleeping then Idle else ph t)"

inductive step18 :: "sys18 \<Rightarrow> sys18 \<Rightarrow> bool" where
  sort_starts: "phase_of s t = Idle \<Longrightarrow> enter_sort (lst s) = Inr (Some l) \<Longrightarrow>
    step18 s (s\<lparr>lst := l, phase_of := (phase_of s)(t := Sorting)\<rparr>)"
| sort_sleeps: "phase_of s t = Idle \<Longrightarrow> enter_sort (lst s) = Inr None \<Longrightarrow>
    step18 s (s\<lparr>phase_of := (phase_of s)(t := Sleeping)\<rparr>)"
| sort_ends: "phase_of s t = Sorting \<Longrightarrow> leave_sort (lst s) = Inr l \<Longrightarrow>
    step18 s (s\<lparr>lst := l, phase_of := wake_all ((phase_of s)(t := Idle))\<rparr>)"
| update_starts: "phase_of s t = Idle \<Longrightarrow> enter_update (lst s) = Inr (Some l) \<Longrightarrow>
    step18 s (s\<lparr>lst := l, phase_of := (phase_of s)(t := Updating)\<rparr>)"
| update_sleeps: "phase_of s t = Idle \<Longrightarrow> enter_update (lst s) = Inr None \<Longrightarrow>
    step18 s (s\<lparr>phase_of := (phase_of s)(t := Sleeping)\<rparr>)"
| update_ends: "phase_of s t = Updating \<Longrightarrow> leave_update (lst s) = Inr l \<Longrightarrow>
    step18 s (s\<lparr>lst := l, phase_of := wake_all ((phase_of s)(t := Idle))\<rparr>)"
| wakes_up: "phase_of s t = Sleeping \<Longrightarrow> step18 s (s\<lparr>phase_of := (phase_of s)(t := Idle)\<rparr>)"

definition start18 :: "sys18 \<Rightarrow> bool" where
  "start18 s = (lst s = list_init18 (lst s) \<and> phase_of s = (\<lambda>_. Idle))"

definition threads_in :: "phase18 \<Rightarrow> (nat \<Rightarrow> phase18) \<Rightarrow> nat set" where
  "threads_in p ph = {t. ph t = p}"

definition protocol_inv :: "sys18 \<Rightarrow> bool" where
  "protocol_inv s =
     (mutex18 (lst s) = Unlocked \<and>
      finite (threads_in Sorting (phase_of s)) \<and> sorting_count (lst s) = int (card (threads_in Sorting (phase_of s))) \<and>
      (case status (lst s) of
         FREE \<Rightarrow> threads_in Sorting (phase_of s) = {} \<and> threads_in Updating (phase_of s) = {} \<and> threads_in Sleeping (phase_of s) = {}
       | SORTING \<Rightarrow> threads_in Sorting (phase_of s) \<noteq> {} \<and> threads_in Updating (phase_of s) = {}
       | UPDATING \<Rightarrow> threads_in Sorting (phase_of s) = {} \<and> (\<exists>t. threads_in Updating (phase_of s) = {t})))"

lemma threads_in_upd:
  "threads_in p (ph(t := p)) = insert t (threads_in p ph)"
  "q \<noteq> p \<Longrightarrow> threads_in q (ph(t := p)) = threads_in q ph - {t}"
  by (auto simp: threads_in_def)

lemma threads_in_wake:
  "p \<noteq> Sleeping \<Longrightarrow> p \<noteq> Idle \<Longrightarrow> threads_in p (wake_all (ph(t := Idle))) = threads_in p ph - {t}"
  "threads_in Sleeping (wake_all ph) = {}"
  by (auto simp: threads_in_def wake_all_def)

lemma list_init18_simps [simp]:
  "mutex18 (list_init18 l) = Unlocked" "status (list_init18 l) = FREE" "sorting_count (list_init18 l) = 0"
  by (simp_all add: list_init18_def)

lemma protocol_start: "start18 s \<Longrightarrow> protocol_inv s"
proof -
  assume "start18 s"
  then have e: "lst s = list_init18 (lst s)" and ph: "phase_of s = (\<lambda>_. Idle)" by (simp_all add: start18_def)
  have "mutex18 (lst s) = Unlocked" "status (lst s) = FREE" "sorting_count (lst s) = 0"
    by (subst e, simp)+
  then show ?thesis using ph by (simp add: protocol_inv_def threads_in_def)
qed

lemma protocol_step: "step18 s s' \<Longrightarrow> protocol_inv s \<Longrightarrow> protocol_inv s'"
proof (induction rule: step18.induct)
  case (sort_starts s t l)
  then have m: "mutex18 (lst s) = Unlocked" and f: "finite (threads_in Sorting (phase_of s))" by (simp_all add: protocol_inv_def)
  have l: "status (lst s) \<noteq> UPDATING"
      "l = (lst s)\<lparr>status := SORTING, sorting_count := sorting_count (lst s) + 1\<rparr>"
    using sort_starts(2) enter_sort_free[OF m] by (auto split: if_splits)
  have "t \<notin> threads_in Sorting (phase_of s)" "threads_in Updating (phase_of s) = {}"
    using sort_starts l(1) by (auto simp: threads_in_def protocol_inv_def split: ListStatus.splits)
  then show ?case using sort_starts(1,3) l f
    by (simp add: protocol_inv_def threads_in_upd)
next
  case (sort_sleeps s t)
  then have m: "mutex18 (lst s) = Unlocked" by (simp add: protocol_inv_def)
  have l: "status (lst s) = UPDATING" using sort_sleeps(2) enter_sort_free[OF m] by (simp split: if_splits)
  have "t \<notin> threads_in Updating (phase_of s)" using sort_sleeps(1) by (simp add: threads_in_def)
  then show ?case using sort_sleeps(3) l by (auto simp: protocol_inv_def threads_in_upd)
next
  case (sort_ends s t l)
  then have m: "mutex18 (lst s) = Unlocked" and f: "finite (threads_in Sorting (phase_of s))" by (simp_all add: protocol_inv_def)
  have t: "t \<in> threads_in Sorting (phase_of s)" using sort_ends(1) by (simp add: threads_in_def)
  have st: "status (lst s) = SORTING" "threads_in Updating (phase_of s) = {}" "sorting_count (lst s) = int (card (threads_in Sorting (phase_of s)))"
    using sort_ends(3) t by (auto simp: protocol_inv_def split: ListStatus.splits)
  have l: "l = (lst s)\<lparr>sorting_count := sorting_count (lst s) - 1,
      status := if sorting_count (lst s) = 1 then FREE else SORTING\<rparr>"
    using sort_ends(2) leave_sort_free[OF m] st(1) by (auto split: if_splits)
  have c: "int (card (threads_in Sorting (phase_of s) - {t})) = int (card (threads_in Sorting (phase_of s))) - 1"
    using card_Suc_Diff1[OF f t] by linarith
  have "(sorting_count (lst s) = 1) = (threads_in Sorting (phase_of s) - {t} = {})"
    using c f st(3) by (metis card_0_eq diff_eq_eq finite_Diff of_nat_0 of_nat_eq_0_iff add_0)
  then show ?case using l st c m f
    by (simp add: protocol_inv_def threads_in_wake)
next
  case (update_starts s t l)
  then have m: "mutex18 (lst s) = Unlocked" by (simp add: protocol_inv_def)
  have l: "status (lst s) = FREE" "l = (lst s)\<lparr>status := UPDATING\<rparr>"
    using update_starts(2) enter_update_free[OF m] by (auto split: if_splits)
  then show ?case using update_starts(1,3)
    by (simp add: protocol_inv_def threads_in_upd)
next
  case (update_sleeps s t)
  then have m: "mutex18 (lst s) = Unlocked" by (simp add: protocol_inv_def)
  have l: "status (lst s) \<noteq> FREE" using update_sleeps(2) enter_update_free[OF m] by (simp split: if_splits)
  have "t \<notin> threads_in Updating (phase_of s)" "t \<notin> threads_in Sorting (phase_of s)" using update_sleeps(1) by (simp_all add: threads_in_def)
  then show ?case using update_sleeps(3) l by (auto simp: protocol_inv_def threads_in_upd split: ListStatus.splits)
next
  case (update_ends s t l)
  then have m: "mutex18 (lst s) = Unlocked" by (simp add: protocol_inv_def)
  have t: "t \<in> threads_in Updating (phase_of s)" using update_ends(1) by (simp add: threads_in_def)
  then have "threads_in Updating (phase_of s) = {t}" "threads_in Sorting (phase_of s) = {}"
    using update_ends(3) by (auto simp: protocol_inv_def split: ListStatus.splits)
  then show ?case using update_ends(2,3) leave_update_free[OF m]
    by (auto simp: protocol_inv_def threads_in_wake)
next
  case (wakes_up s t)
  then have "t \<notin> threads_in Updating (phase_of s)" "t \<notin> threads_in Sorting (phase_of s)" by (simp_all add: threads_in_def)
  then show ?case using wakes_up by (auto simp: protocol_inv_def threads_in_upd split: ListStatus.splits)
qed

interpretation prot: safe_system start18 step18 protocol_inv
  using protocol_start protocol_step by unfold_locales auto

text \<open>No thread sleeps for ever: whoever sleeps, some thread is at work and will broadcast.\<close>

lemma sleeper_not_alone:
  "protocol_inv s \<Longrightarrow> phase_of s t = Sleeping \<Longrightarrow> \<exists>u. phase_of s u = Sorting \<or> phase_of s u = Updating"
  by (auto simp: protocol_inv_def threads_in_def split: ListStatus.splits)

end
