(* ===== verification/Sorters18.thy ===== *)
theory Sorters18
  imports List18
begin

text \<open>
  \<open>tasks17_20/task18.c\<close>: several threads in \<open>sort_list\<close> at once. A step is what a thread does up to
  its next call of \<open>lock\<close> or \<open>unlock\<close>: the mutex of the terminator, of the first node and of the second
  node are taken hand over hand. Together the steps of one thread are \<open>sort_once\<close> of \<open>List18\<close>.
\<close>

section \<open>The steps of a pass\<close>

definition lock_first :: "list18_t \<Rightarrow> list18_t res" where
  "lock_first l = bind_r (next18 l Term) (on_mutex_at mutex_lock l)"

definition lock_second :: "list18_t \<Rightarrow> base_t \<Rightarrow> list18_t res" where
  "lock_second l base =
     bind_r (next18 l base) (\<lambda>p. bind_r (node18 l p) (\<lambda>(_, n). on_mutex_at mutex_lock l (nxt18 n)))"

text \<open>From the comparison to the release of \<open>base\<close>: whether the loop goes on, the new base and the list.\<close>

definition swap_pair :: "list18_t \<Rightarrow> base_t \<Rightarrow> (bool \<times> base_t \<times> list18_t) res" where
  "swap_pair l base =
     bind_r (next18 l base) (\<lambda>p.
     bind_r (node18 l p) (\<lambda>(first, nf).
     bind_r (node18 l (nxt18 nf)) (\<lambda>(second, ns).
     bind_r (str_comp (str18 nf) (str18 ns)) (\<lambda>c.
     bind_r (if c = GREATER then
               bind_r (set_next18 l base (Some second)) (\<lambda>l.
               bind_r (set_next18 l (Node second) (Some first)) (\<lambda>l.
               set_next18 l (Node first) (nxt18 ns)))
             else Inr l) (\<lambda>l.
     bind_r (next18 l base) (\<lambda>p.
     bind_r (node18 l p) (\<lambda>(tmp, n).
     bind_r (on_mutex mutex_unlock l base) (\<lambda>l.
     Inr (nxt18 n = None, Node tmp, l)))))))))"

definition unlock_next :: "list18_t \<Rightarrow> base_t \<Rightarrow> list18_t res" where
  "unlock_next l base = bind_r (next18 l base) (on_mutex_at mutex_unlock l)"

lemma sort_body_steps: "sort_body l base = bind_r (lock_second l base) (\<lambda>l. swap_pair l base)"
  by (simp add: sort_body_def lock_second_def swap_pair_def bind_r_assoc case_prod_unfold)

lemma sort_once_steps:
  "sort_once fuel l =
     bind_r (on_mutex mutex_lock l Term) (\<lambda>l.
     bind_r (lock_first l) (\<lambda>l.
     bind_r (do_while fuel l Term) (\<lambda>(base, l).
     bind_r (unlock_next l base) (\<lambda>l.
     on_mutex mutex_unlock l base))))"
  by (simp add: sort_once_def lock_first_def unlock_next_def bind_r_assoc case_prod_unfold)

section \<open>Threads\<close>

text \<open>Where a thread is in \<open>sort_list\<close>; the number counts the passes it has finished.\<close>

datatype sorter_pc = Enter | Pass nat | First nat | Second nat base_t | Swap nat base_t
  | UnlockNext nat base_t | UnlockBase nat base_t | Returned

record sorters =
  slist :: list18_t
  spc :: "nat \<Rightarrow> sorter_pc"

definition moves_to :: "nat \<Rightarrow> sorters \<Rightarrow> sorter_pc \<Rightarrow> list18_t \<Rightarrow> sorters res" where
  "moves_to t s pc l = Inr (s\<lparr>slist := l, spc := (spc s)(t := pc)\<rparr>)"

text \<open>
  A thread that can not go on, because a mutex is taken, the list is being updated or its call has
  returned, is \<open>Diverge\<close>.
\<close>

definition sorter_step :: "nat \<Rightarrow> sorters \<Rightarrow> sorters res" where
  "sorter_step t s = (let l = slist s in case spc s t of
     Enter \<Rightarrow> bind_r (enter_sort l) (\<lambda>r. case r of None \<Rightarrow> Inl Diverge | Some l \<Rightarrow> moves_to t s (Pass 0) l)
   | Pass i \<Rightarrow>
       if i < sz_sub (count18 l) 1 then bind_r (on_mutex mutex_lock l Term) (moves_to t s (First i))
       else bind_r (leave_sort l) (moves_to t s Returned)
   | First i \<Rightarrow> bind_r (lock_first l) (moves_to t s (Second i Term))
   | Second i base \<Rightarrow> bind_r (lock_second l base) (moves_to t s (Swap i base))
   | Swap i base \<Rightarrow> bind_r (swap_pair l base) (\<lambda>(is_end, base, l).
       moves_to t s (if is_end then Second i base else UnlockNext i base) l)
   | UnlockNext i base \<Rightarrow> bind_r (unlock_next l base) (moves_to t s (UnlockBase i base))
   | UnlockBase i base \<Rightarrow> bind_r (on_mutex mutex_unlock l base) (moves_to t s (Pass (i + 1)))
   | Returned \<Rightarrow> Inl Diverge)"

inductive sorters_step :: "sorters \<Rightarrow> sorters \<Rightarrow> bool" where
  sorter_moves: "sorter_step t s = Inr s' \<Longrightarrow> sorters_step s s'"

inductive_cases sorters_stepE: "sorters_step s s'"

text \<open>The first \<open>n\<close> threads call \<open>sort_list\<close>.\<close>

definition sorters_start :: "nat \<Rightarrow> list18_t \<Rightarrow> sorters" where
  "sorters_start n l = \<lparr>slist = l, spc = (\<lambda>t. if t < n then Enter else Returned)\<rparr>"

section \<open>A list whose first two nodes may be locked\<close>

definition pair_at :: "list18_t \<Rightarrow> nat \<Rightarrow> nat \<Rightarrow> mutex \<Rightarrow> mutex \<Rightarrow> char list list \<Rightarrow> bool" where
  "pair_at l a b m1 m2 cs =
     (\<exists>na nb as ss. term_next18 l = Some a \<and> heap18 l a = Some na \<and> nxt18 na = Some b \<and> heap18 l b = Some nb \<and>
        a \<noteq> b \<and> nmutex na = m1 \<and> nmutex nb = m2 \<and> cs = str18 na # str18 nb # ss \<and>
        chain18 (heap18 l) (nxt18 nb) as ss \<and> a \<notin> set as \<and> b \<notin> set as)"

text \<open>What the steps of a pass leave alone.\<close>

definition same_frame :: "list18_t \<Rightarrow> list18_t \<Rightarrow> bool" where
  "same_frame l l' =
     (mutex18 l' = mutex18 l \<and> count18 l' = count18 l \<and> status l' = status l \<and> sorting_count l' = sorting_count l)"

lemma pair_at_frame [simp]:
  "pair_at (l\<lparr>term_mutex := m\<rparr>) a b m1 m2 cs = pair_at l a b m1 m2 cs"
  "pair_at (l\<lparr>status := st\<rparr>) a b m1 m2 cs = pair_at l a b m1 m2 cs"
  "pair_at (l\<lparr>sorting_count := k\<rparr>) a b m1 m2 cs = pair_at l a b m1 m2 cs"
  by (simp_all add: pair_at_def)

lemma pair_at_lock:
  assumes "pair_at l a b m1 m2 cs"
  shows "lock_first l = bind_r (mutex_lock m1) (\<lambda>m. Inr (l\<lparr>heap18 := (heap18 l)(a \<mapsto> (the (heap18 l a))\<lparr>nmutex := m\<rparr>)\<rparr>))"
    and "lock_second l Term = bind_r (mutex_lock m2) (\<lambda>m. Inr (l\<lparr>heap18 := (heap18 l)(b \<mapsto> (the (heap18 l b))\<lparr>nmutex := m\<rparr>)\<rparr>))"
    and "unlock_next l (Node a) = bind_r (mutex_unlock m2) (\<lambda>m. Inr (l\<lparr>heap18 := (heap18 l)(b \<mapsto> (the (heap18 l b))\<lparr>nmutex := m\<rparr>)\<rparr>))"
    and "on_mutex mutex_unlock l (Node a) =
      bind_r (mutex_unlock m1) (\<lambda>m. Inr (l\<lparr>heap18 := (heap18 l)(a \<mapsto> (the (heap18 l a))\<lparr>nmutex := m\<rparr>)\<rparr>))"
  using assms by (auto simp: pair_at_def lock_first_def lock_second_def unlock_next_def)

lemma pair_at_set:
  assumes "pair_at l a b m1 m2 cs"
  shows "pair_at (l\<lparr>heap18 := (heap18 l)(a \<mapsto> (the (heap18 l a))\<lparr>nmutex := m\<rparr>)\<rparr>) a b m m2 cs"
    and "pair_at (l\<lparr>heap18 := (heap18 l)(b \<mapsto> (the (heap18 l b))\<lparr>nmutex := m\<rparr>)\<rparr>) a b m1 m cs"
proof -
  obtain na nb as ss where c: "term_next18 l = Some a" "heap18 l a = Some na" "nxt18 na = Some b" "heap18 l b = Some nb"
      "a \<noteq> b" "nmutex na = m1" "nmutex nb = m2" "cs = str18 na # str18 nb # ss"
      "chain18 (heap18 l) (nxt18 nb) as ss" "a \<notin> set as" "b \<notin> set as"
    using assms unfolding pair_at_def by blast
  have "chain18 ((heap18 l)(a \<mapsto> na\<lparr>nmutex := m\<rparr>)) (nxt18 nb) as ss" "chain18 ((heap18 l)(b \<mapsto> nb\<lparr>nmutex := m\<rparr>)) (nxt18 nb) as ss"
    using c by (simp_all add: chain18_other)
  then show "pair_at (l\<lparr>heap18 := (heap18 l)(a \<mapsto> (the (heap18 l a))\<lparr>nmutex := m\<rparr>)\<rparr>) a b m m2 cs"
    and "pair_at (l\<lparr>heap18 := (heap18 l)(b \<mapsto> (the (heap18 l b))\<lparr>nmutex := m\<rparr>)\<rparr>) a b m1 m cs"
    using c by (auto simp: pair_at_def intro!: exI[of _ as])
qed

text \<open>The comparison orders the first two strings; the first node may become another one.\<close>

lemma pair_at_swap:
  assumes p: "pair_at l a b Locked Locked cs" and t: "term_mutex l = Locked" and ok: "\<forall>s \<in> set cs. cstring_ok s"
  shows "\<exists>l' c d. swap_pair l Term = Inr (False, Node c, l') \<and> pair_at l' c d Locked Locked (order_first cs) \<and>
    term_mutex l' = Unlocked \<and> same_frame l l'"
proof -
  obtain na nb as ss where c: "term_next18 l = Some a" "heap18 l a = Some na" "nxt18 na = Some b" "heap18 l b = Some nb"
      "a \<noteq> b" "nmutex na = Locked" "nmutex nb = Locked" "cs = str18 na # str18 nb # ss"
      "chain18 (heap18 l) (nxt18 nb) as ss" "a \<notin> set as" "b \<notin> set as"
    using p unfolding pair_at_def by blast
  have s: "str_comp (str18 na) (str18 nb) = Inr (comp_of (strcmp (str18 na) (str18 nb)))"
    using ok c(8) by (simp add: str_comp_strcmp)
  show ?thesis
  proof (cases "sc.le (str18 na) (str18 nb)")
    case True
    then have "comp_of (strcmp (str18 na) (str18 nb)) \<noteq> GREATER" by (simp add: sc.le_def comp_strings_def)
    then have "swap_pair l Term = Inr (False, Node a, l\<lparr>term_mutex := Unlocked\<rparr>)"
      using c s t by (simp add: swap_pair_def)
    moreover have "pair_at l a b Locked Locked (order_first cs)" using p c(8) True by simp
    ultimately show ?thesis by (intro exI conjI) (assumption, simp_all add: same_frame_def)
  next
    case False
    then have g: "comp_of (strcmp (str18 na) (str18 nb)) = GREATER" by (simp add: sc.le_def comp_strings_def)
    let ?h = "(heap18 l)(b \<mapsto> nb\<lparr>nxt18 := Some a\<rparr>, a \<mapsto> na\<lparr>nxt18 := nxt18 nb\<rparr>)"
    let ?l = "l\<lparr>term_next18 := Some b, heap18 := ?h, term_mutex := Unlocked\<rparr>"
    have "swap_pair l Term = Inr (False, Node b, ?l)"
      using c s g t by (simp add: swap_pair_def)
    moreover have "pair_at ?l b a Locked Locked (order_first cs)"
      using c False by (auto simp: pair_at_def chain18_other intro!: exI[of _ as])
    ultimately show ?thesis by (intro exI conjI) (assumption, simp_all add: same_frame_def)
  qed
qed

lemma pair_at_holds:
  "list18_holds l cs \<Longrightarrow> 2 \<le> length cs \<Longrightarrow> \<exists>a b. pair_at l a b Unlocked Unlocked cs"
  unfolding list18_holds_def pair_at_def
  by (elim conjE exE) (rename_tac as, case_tac as; case_tac "tl as"; auto)

lemma holds_pair_at:
  assumes "pair_at l a b Unlocked Unlocked cs" and "mutex18 l = Unlocked" "term_mutex l = Unlocked" "count18 l = length cs"
  shows "list18_holds l cs"
proof -
  obtain na nb as ss where c: "term_next18 l = Some a" "heap18 l a = Some na" "nxt18 na = Some b" "heap18 l b = Some nb"
      "a \<noteq> b" "nmutex na = Unlocked" "nmutex nb = Unlocked" "cs = str18 na # str18 nb # ss"
      "chain18 (heap18 l) (nxt18 nb) as ss" "a \<notin> set as" "b \<notin> set as"
    using assms(1) unfolding pair_at_def by blast
  have "chain18 (heap18 l) (term_next18 l) (a # b # as) cs" using c by simp
  then show ?thesis using assms unfolding list18_holds_def by blast
qed

section \<open>The invariant of the threads\<close>

fun has_term :: "sorter_pc \<Rightarrow> bool" where
  "has_term Enter = False"
| "has_term (Pass i) = False"
| "has_term (First i) = True"
| "has_term (Second i base) = True"
| "has_term (Swap i base) = True"
| "has_term (UnlockNext i base) = False"
| "has_term (UnlockBase i base) = False"
| "has_term Returned = False"

fun has_first :: "sorter_pc \<Rightarrow> bool" where
  "has_first Enter = False"
| "has_first (Pass i) = False"
| "has_first (First i) = False"
| "has_first (Second i base) = True"
| "has_first (Swap i base) = True"
| "has_first (UnlockNext i base) = True"
| "has_first (UnlockBase i base) = True"
| "has_first Returned = False"

fun has_second :: "sorter_pc \<Rightarrow> bool" where
  "has_second Enter = False"
| "has_second (Pass i) = False"
| "has_second (First i) = False"
| "has_second (Second i base) = False"
| "has_second (Swap i base) = True"
| "has_second (UnlockNext i base) = True"
| "has_second (UnlockBase i base) = False"
| "has_second Returned = False"

text \<open>The number of passes is in range, and \<open>base\<close> is the terminator or the first node \<open>a\<close>.\<close>

fun pc_ok :: "nat \<Rightarrow> nat \<Rightarrow> sorter_pc \<Rightarrow> bool" where
  "pc_ok k a Enter = True"
| "pc_ok k a (Pass i) = (i \<le> k)"
| "pc_ok k a (First i) = (i < k)"
| "pc_ok k a (Second i base) = (i < k \<and> base = Term)"
| "pc_ok k a (Swap i base) = (i < k \<and> base = Term)"
| "pc_ok k a (UnlockNext i base) = (i < k \<and> base = Node a)"
| "pc_ok k a (UnlockBase i base) = (i < k \<and> base = Node a)"
| "pc_ok k a Returned = True"

fun swapped :: "sorter_pc \<Rightarrow> bool" where
  "swapped Enter = False"
| "swapped (Pass i) = (0 < i)"
| "swapped (First i) = (0 < i)"
| "swapped (Second i base) = (0 < i)"
| "swapped (Swap i base) = (0 < i)"
| "swapped (UnlockNext i base) = True"
| "swapped (UnlockBase i base) = True"
| "swapped Returned = True"

definition insiders :: "sorters \<Rightarrow> nat set" where
  "insiders s = {t. spc s t \<noteq> Enter \<and> spc s t \<noteq> Returned}"

text \<open>
  Thread \<open>tm\<close> holds the terminator, thread \<open>fm\<close> the first node and, in the middle of its pass, the
  second one. Once a thread has finished a comparison the first two strings are in order.
\<close>

definition locked_by :: "nat option \<Rightarrow> mutex" where
  "locked_by w = (if w = None then Unlocked else Locked)"

definition second_lock :: "nat option \<Rightarrow> (nat \<Rightarrow> sorter_pc) \<Rightarrow> mutex" where
  "second_lock fm pcs = (case fm of None \<Rightarrow> Unlocked | Some t \<Rightarrow> if has_second (pcs t) then Locked else Unlocked)"

definition sorters_at :: "nat \<Rightarrow> char list list \<Rightarrow> sorters \<Rightarrow> nat \<Rightarrow> nat \<Rightarrow> nat option \<Rightarrow> nat option \<Rightarrow> char list list \<Rightarrow> bool" where
  "sorters_at n ss s a b tm fm cs =
     (pair_at (slist s) a b (locked_by fm) (second_lock fm (spc s)) cs \<and>
      term_mutex (slist s) = locked_by tm \<and> mutex18 (slist s) = Unlocked \<and> count18 (slist s) = length ss \<and>
      (\<forall>t. has_term (spc s t) = (tm = Some t)) \<and> (\<forall>t. has_first (spc s t) = (fm = Some t)) \<and>
      (\<forall>t. pc_ok (length ss - 1) a (spc s t)) \<and> (\<forall>t \<ge> n. spc s t = Returned) \<and>
      (cs = ss \<or> cs = order_first ss) \<and> (\<forall>t < n. swapped (spc s t) \<longrightarrow> cs = order_first ss) \<and>
      sorting_count (slist s) = int (card (insiders s)) \<and>
      status (slist s) = (if insiders s = {} then FREE else SORTING))"

definition sorters_inv :: "nat \<Rightarrow> char list list \<Rightarrow> sorters \<Rightarrow> bool" where
  "sorters_inv n ss s = (\<exists>a b tm fm cs. sorters_at n ss s a b tm fm cs)"

definition sortable :: "char list list \<Rightarrow> bool" where
  "sortable ss = (2 \<le> length ss \<and> length ss < SIZE_MOD \<and> (\<forall>s \<in> set ss. cstring_ok s))"

lemma locked_by_simps [simp]: "locked_by None = Unlocked" "locked_by (Some t) = Locked"
  by (simp_all add: locked_by_def)

lemma second_lock_simps [simp]:
  "second_lock None pcs = Unlocked"
  "second_lock (Some t) pcs = (if has_second (pcs t) then Locked else Unlocked)"
  by (simp_all add: second_lock_def)

lemma sorters_start_inv:
  assumes "list18_holds l ss" and "sortable ss" and "status l = FREE" and "sorting_count l = 0"
  shows "sorters_inv n ss (sorters_start n l)"
proof -
  obtain a b where "pair_at l a b Unlocked Unlocked ss"
    using pair_at_holds[OF assms(1)] assms(2) by (auto simp: sortable_def)
  then have "sorters_at n ss (sorters_start n l) a b None None ss"
    using assms by (auto simp: sorters_at_def sorters_start_def list18_holds_def insiders_def)
  then show ?thesis unfolding sorters_inv_def by blast
qed

lemma insiders_upd:
  "pc \<noteq> Enter \<Longrightarrow> pc \<noteq> Returned \<Longrightarrow> insiders (s\<lparr>slist := l, spc := (spc s)(t := pc)\<rparr>) = insert t (insiders s)"
  "insiders (s\<lparr>slist := l, spc := (spc s)(t := Returned)\<rparr>) = insiders s - {t}"
  by (auto simp: insiders_def)

lemma insider: "spc s t \<noteq> Enter \<Longrightarrow> spc s t \<noteq> Returned \<Longrightarrow> insert t (insiders s) = insiders s"
  by (auto simp: insiders_def)

lemma finite_insiders: "sorters_at n ss s a b tm fm cs \<Longrightarrow> finite (insiders s)"
proof -
  assume "sorters_at n ss s a b tm fm cs"
  then have "insiders s \<subseteq> {..<n}" by (auto simp: sorters_at_def insiders_def not_le[symmetric])
  then show ?thesis by (rule finite_subset) simp
qed

lemma passes: "sortable ss \<Longrightarrow> sz_sub (length ss) 1 = length ss - 1"
  by (simp add: sortable_def)

text \<open>What the invariant says of one thread.\<close>

lemma sorters_atD:
  assumes "sorters_at n ss s a b tm fm cs"
  shows "pair_at (slist s) a b (locked_by fm) (second_lock fm (spc s)) cs"
    "term_mutex (slist s) = locked_by tm" "mutex18 (slist s) = Unlocked" "count18 (slist s) = length ss"
    "has_term (spc s t) = (tm = Some t)" "has_first (spc s t) = (fm = Some t)"
    "pc_ok (length ss - 1) a (spc s t)" "spc s t \<noteq> Returned \<Longrightarrow> t < n"
    "cs = ss \<or> cs = order_first ss" "t < n \<Longrightarrow> swapped (spc s t) \<Longrightarrow> cs = order_first ss"
    "sorting_count (slist s) = int (card (insiders s))"
    "status (slist s) = (if insiders s = {} then FREE else SORTING)"
  using assms by (auto simp: sorters_at_def not_le[symmetric])

lemma pc_ok_other: "\<not> has_first pc \<Longrightarrow> pc_ok k a pc = pc_ok k a' pc"
  by (cases pc) simp_all

text \<open>One step: either the thread is blocked, or it moves on and the invariant is kept.\<close>

definition steps_well :: "nat \<Rightarrow> char list list \<Rightarrow> nat \<Rightarrow> sorters \<Rightarrow> bool" where
  "steps_well n ss t s =
     (case sorter_step t s of Inl f \<Rightarrow> f = Diverge | Inr s' \<Rightarrow> sorters_inv n ss s')"

lemma steps_wellI: "sorter_step t s = Inr s' \<Longrightarrow> sorters_at n ss s' a b tm fm cs \<Longrightarrow> steps_well n ss t s"
  unfolding steps_well_def sorters_inv_def by (simp, blast)

lemma steps_blocked: "sorter_step t s = Inl Diverge \<Longrightarrow> steps_well n ss t s"
  by (simp add: steps_well_def)

text \<open>A step of thread \<open>t\<close>, given where the locks and the contents are afterwards.\<close>

lemma moved_inv:
  assumes i: "sorters_at n ss s a b tm fm cs" and t: "t < n"
    and fr: "mutex18 l = Unlocked" "count18 l = length ss" and tm: "term_mutex l = locked_by tm'"
    and p: "pair_at l a' b' (locked_by fm') (second_lock fm' ((spc s)(t := pc))) cs'"
    and ht: "has_term pc = (tm' = Some t)" "\<forall>u. u \<noteq> t \<longrightarrow> (tm' = Some u) = (tm = Some u)"
    and hf: "has_first pc = (fm' = Some t)" "\<forall>u. u \<noteq> t \<longrightarrow> (fm' = Some u) = (fm = Some u)"
    and ok: "pc_ok (length ss - 1) a' pc" "a' = a \<or> fm = Some t"
    and cs: "cs' = cs \<or> cs' = order_first cs" and sw: "swapped pc \<Longrightarrow> cs' = order_first ss"
    and cnt: "sorting_count l = int (card (insiders (s\<lparr>slist := l, spc := (spc s)(t := pc)\<rparr>)))"
      "status l = (if insiders (s\<lparr>slist := l, spc := (spc s)(t := pc)\<rparr>) = {} then FREE else SORTING)"
  shows "sorters_at n ss (s\<lparr>slist := l, spc := (spc s)(t := pc)\<rparr>) a' b' tm' fm' cs'"
proof -
  note d = sorters_atD[OF i]
  have c: "cs' = ss \<or> cs' = order_first ss" using cs d(9) order_first_idem by auto
  have sw': "cs' = order_first ss" if "u < n" "swapped (((spc s)(t := pc)) u)" for u
  proof (cases "u = t")
    case True
    then show ?thesis using sw that by simp
  next
    case False
    then have "cs = order_first ss" using d(10)[of u] that by simp
    then show ?thesis using cs order_first_idem by auto
  qed
  have "has_term (((spc s)(t := pc)) u) = (tm' = Some u)" for u
    using d(5)[of u] ht by (cases "u = t") simp_all
  moreover have "has_first (((spc s)(t := pc)) u) = (fm' = Some u)" for u
    using d(6)[of u] hf by (cases "u = t") simp_all
  moreover have "pc_ok (length ss - 1) a' (((spc s)(t := pc)) u)" for u
  proof (cases "u = t")
    case True
    then show ?thesis using ok by simp
  next
    case False
    show ?thesis
    proof (cases "a' = a")
      case True
      then show ?thesis using False d(7)[of u] by simp
    next
      case other: False
      then have "\<not> has_first (spc s u)" using ok(2) d(6)[of u] False by auto
      then show ?thesis using False d(7)[of u] pc_ok_other by auto
    qed
  qed
  moreover have "((spc s)(t := pc)) u = Returned" if "n \<le> u" for u
    using that t d(8)[of u] by auto
  ultimately show ?thesis using fr tm p c sw' cnt unfolding sorters_at_def by simp
qed

lemma inside_well:
  assumes i: "sorters_at n ss s a b tm fm cs" and st: "sorter_step t s = moves_to t s pc l"
    and ins: "spc s t \<noteq> Enter" "spc s t \<noteq> Returned" "pc \<noteq> Enter" "pc \<noteq> Returned"
    and fr: "same_frame (slist s) l" and tm: "term_mutex l = locked_by tm'"
    and p: "pair_at l a' b' (locked_by fm') (second_lock fm' ((spc s)(t := pc))) cs'"
    and ht: "has_term pc = (tm' = Some t)" "\<forall>u. u \<noteq> t \<longrightarrow> (tm' = Some u) = (tm = Some u)"
    and hf: "has_first pc = (fm' = Some t)" "\<forall>u. u \<noteq> t \<longrightarrow> (fm' = Some u) = (fm = Some u)"
    and ok: "pc_ok (length ss - 1) a' pc" "a' = a \<or> fm = Some t"
    and cs: "cs' = cs \<or> cs' = order_first cs" and sw: "swapped pc \<Longrightarrow> cs' = order_first ss"
  shows "steps_well n ss t s"
proof -
  note d = sorters_atD[OF i]
  have "sorters_at n ss (s\<lparr>slist := l, spc := (spc s)(t := pc)\<rparr>) a' b' tm' fm' cs'"
    by (rule moved_inv[OF i d(8)[OF ins(2)] _ _ tm p ht hf ok cs sw])
      (use d fr in \<open>simp_all only: insiders_upd(1)[OF ins(3,4)] insider[OF ins(1,2)] same_frame_def\<close>)
  then show ?thesis using st by (intro steps_wellI) (simp_all add: moves_to_def)
qed

lemma same_frameI [simp]: "same_frame l (l\<lparr>term_mutex := m\<rparr>)" "same_frame l (l\<lparr>heap18 := h\<rparr>)"
  by (simp_all add: same_frame_def)

lemma enter_well:
  assumes i: "sorters_at n ss s a b tm fm cs" and pc: "spc s t = Enter"
  shows "steps_well n ss t s"
proof -
  note d = sorters_atD[OF i]
  let ?l = "(slist s)\<lparr>status := SORTING, sorting_count := sorting_count (slist s) + 1\<rparr>"
  have st: "sorter_step t s = Inr (s\<lparr>slist := ?l, spc := (spc s)(t := Pass 0)\<rparr>)"
    using d(3,12) pc by (simp add: sorter_step_def enter_sort_free moves_to_def)
  have t: "t \<notin> insiders s" "t < n" using pc d(8)[of t] by (auto simp: insiders_def)
  have nf: "fm \<noteq> Some t" "tm \<noteq> Some t" using d(5,6)[of t] pc by auto
  have lk: "second_lock fm ((spc s)(t := Pass 0)) = second_lock fm (spc s)"
    using nf by (cases fm) auto
  have "sorters_at n ss (s\<lparr>slist := ?l, spc := (spc s)(t := Pass 0)\<rparr>) a b tm fm cs"
    by (rule moved_inv[OF i t(2)]) (use d(1-4,11) nf lk t finite_insiders[OF i] in \<open>simp_all add: insiders_upd\<close>)
  then show ?thesis by (rule steps_wellI[OF st])
qed

lemma pass_well:
  assumes i: "sorters_at n ss s a b tm fm cs" and sz: "sortable ss" and pc: "spc s t = Pass k"
  shows "steps_well n ss t s"
proof -
  note d = sorters_atD[OF i]
  have nf: "fm \<noteq> Some t" "tm \<noteq> Some t" using d(5,6)[of t] pc by auto
  have t: "t < n" "t \<in> insiders s" using pc d(8)[of t] by (auto simp: insiders_def)
  have len: "sz_sub (count18 (slist s)) 1 = length ss - 1" using d(4) passes[OF sz] by simp
  have lk: "second_lock fm ((spc s)(t := q)) = second_lock fm (spc s)" for q
    using nf by (cases fm) auto
  show ?thesis
  proof (cases "k < length ss - 1")
    case False
    let ?l = "(slist s)\<lparr>sorting_count := sorting_count (slist s) - 1,
        status := if sorting_count (slist s) = 1 then FREE else status (slist s)\<rparr>"
    have st: "sorter_step t s = Inr (s\<lparr>slist := ?l, spc := (spc s)(t := Returned)\<rparr>)"
      using d(3) pc False len by (simp add: sorter_step_def leave_sort_free moves_to_def Let_def)
    have c: "int (card (insiders s - {t})) = int (card (insiders s)) - 1"
      using card_Suc_Diff1[OF finite_insiders[OF i] t(2)] by linarith
    have e: "(sorting_count (slist s) = 1) = (insiders s - {t} = {})"
      using c d(11) finite_insiders[OF i] by (metis card_0_eq diff_eq_eq finite_Diff of_nat_0 of_nat_eq_0_iff add_0)
    have "0 < k" using d(7)[of t] pc False sz by (simp add: sortable_def)
    then have cs: "cs = order_first ss" using d(10)[OF t(1)] pc by simp
    have "sorters_at n ss (s\<lparr>slist := ?l, spc := (spc s)(t := Returned)\<rparr>) a b tm fm cs"
      by (rule moved_inv[OF i t(1)]) (use d(1-4,11,12) nf lk t c e cs in \<open>auto simp: insiders_upd\<close>)
    then show ?thesis by (rule steps_wellI[OF st])
  next
    case True
    have step: "sorter_step t s = bind_r (mutex_lock (locked_by tm)) (\<lambda>m. moves_to t s (First k) ((slist s)\<lparr>term_mutex := m\<rparr>))"
      using d(2) pc True len by (simp add: sorter_step_def bind_r_assoc)
    show ?thesis
    proof (cases tm)
      case (Some u)
      then show ?thesis using step by (intro steps_blocked) simp
    next
      case None
      have st: "sorter_step t s = moves_to t s (First k) ((slist s)\<lparr>term_mutex := Locked\<rparr>)"
        using step None by simp
      show ?thesis
        by (rule inside_well[OF i st, of "Some t" a b fm cs])
          (use None pc d(1) nf lk True d(10)[OF t(1)] in simp_all)
    qed
  qed
qed

lemma first_well:
  assumes i: "sorters_at n ss s a b tm fm cs" and pc: "spc s t = First k"
  shows "steps_well n ss t s"
proof -
  note d = sorters_atD[OF i]
  have tm: "tm = Some t" and nf: "fm \<noteq> Some t" and t: "t < n" using d(5,6,8)[of t] pc by auto
  let ?l = "(slist s)\<lparr>heap18 := (heap18 (slist s))(a \<mapsto> (the (heap18 (slist s) a))\<lparr>nmutex := Locked\<rparr>)\<rparr>"
  show ?thesis
  proof (cases fm)
    case (Some u)
    have "sorter_step t s = Inl Diverge"
      using pair_at_lock(1)[OF d(1)] Some pc by (simp add: sorter_step_def)
    then show ?thesis by (rule steps_blocked)
  next
    case None
    have p: "pair_at (slist s) a b Unlocked Unlocked cs" using d(1) None by simp
    have step: "sorter_step t s = moves_to t s (Second k Term) ?l"
      using pair_at_lock(1)[OF p] pc by (simp add: sorter_step_def)
    show ?thesis
      by (rule inside_well[OF i step, of tm a b "Some t" cs])
        (use pc d(2) d(7)[of t] d(10)[OF t] tm None pair_at_set(1)[OF p, of Locked] in simp_all)
  qed
qed

lemma second_well:
  assumes i: "sorters_at n ss s a b tm fm cs" and pc: "spc s t = Second k base"
  shows "\<exists>s'. sorter_step t s = Inr s'" "steps_well n ss t s"
proof -
  note d = sorters_atD[OF i]
  have tm: "tm = Some t" "fm = Some t" and t: "t < n" and b: "base = Term" using d(5-8)[of t] pc by auto
  let ?l = "(slist s)\<lparr>heap18 := (heap18 (slist s))(b \<mapsto> (the (heap18 (slist s) b))\<lparr>nmutex := Locked\<rparr>)\<rparr>"
  have p: "pair_at (slist s) a b Locked Unlocked cs" using d(1) tm pc by simp
  have step: "sorter_step t s = moves_to t s (Swap k Term) ?l"
    using pair_at_lock(2)[OF p] pc b by (simp add: sorter_step_def)
  then show "\<exists>s'. sorter_step t s = Inr s'" by (simp add: moves_to_def)
  show "steps_well n ss t s"
    by (rule inside_well[OF i step, of tm a b fm cs])
      (use pc d(2) d(7)[of t] d(10)[OF t] tm pair_at_set(2)[OF p, of Locked] in simp_all)
qed

lemma swap_well:
  assumes i: "sorters_at n ss s a b tm fm cs" and sz: "sortable ss" and pc: "spc s t = Swap k base"
  shows "\<exists>s'. sorter_step t s = Inr s'" "steps_well n ss t s"
proof -
  note d = sorters_atD[OF i]
  have tm: "tm = Some t" "fm = Some t" and t: "t < n" and b: "base = Term" using d(5-8)[of t] pc by auto
  have p: "pair_at (slist s) a b Locked Locked cs" using d(1) tm pc by simp
  have "set cs = set ss" using d(9) set_order_first by auto
  then have ok: "\<forall>x \<in> set cs. cstring_ok x" using sz by (simp add: sortable_def)
  obtain l c e where l: "swap_pair (slist s) Term = Inr (False, Node c, l)" "pair_at l c e Locked Locked (order_first cs)"
      "term_mutex l = Unlocked" "same_frame (slist s) l"
    using pair_at_swap[OF p _ ok] d(2) tm by auto
  have step: "sorter_step t s = moves_to t s (UnlockNext k (Node c)) l"
    using l(1) pc b by (simp add: sorter_step_def)
  then show "\<exists>s'. sorter_step t s = Inr s'" by (simp add: moves_to_def)
  have cs: "order_first cs = order_first ss" using d(9) order_first_idem by auto
  show "steps_well n ss t s"
    by (rule inside_well[OF i step, of None c e fm "order_first cs"])
      (use pc d(7)[of t] tm l cs in simp_all)
qed

lemma unlock_next_well:
  assumes i: "sorters_at n ss s a b tm fm cs" and pc: "spc s t = UnlockNext k base"
  shows "\<exists>s'. sorter_step t s = Inr s'" "steps_well n ss t s"
proof -
  note d = sorters_atD[OF i]
  have tm: "tm \<noteq> Some t" "fm = Some t" and t: "t < n" and b: "base = Node a" using d(5-8)[of t] pc by auto
  let ?l = "(slist s)\<lparr>heap18 := (heap18 (slist s))(b \<mapsto> (the (heap18 (slist s) b))\<lparr>nmutex := Unlocked\<rparr>)\<rparr>"
  have p: "pair_at (slist s) a b Locked Locked cs" using d(1) tm pc by simp
  have step: "sorter_step t s = moves_to t s (UnlockBase k (Node a)) ?l"
    using pair_at_lock(3)[OF p] pc b by (simp add: sorter_step_def)
  then show "\<exists>s'. sorter_step t s = Inr s'" by (simp add: moves_to_def)
  show "steps_well n ss t s"
    by (rule inside_well[OF i step, of tm a b fm cs])
      (use pc d(2) d(7)[of t] d(10)[OF t] tm pair_at_set(2)[OF p, of Unlocked] in simp_all)
qed

lemma unlock_base_well:
  assumes i: "sorters_at n ss s a b tm fm cs" and pc: "spc s t = UnlockBase k base"
  shows "\<exists>s'. sorter_step t s = Inr s'" "steps_well n ss t s"
proof -
  note d = sorters_atD[OF i]
  have tm: "tm \<noteq> Some t" "fm = Some t" and t: "t < n" and b: "base = Node a" using d(5-8)[of t] pc by auto
  let ?l = "(slist s)\<lparr>heap18 := (heap18 (slist s))(a \<mapsto> (the (heap18 (slist s) a))\<lparr>nmutex := Unlocked\<rparr>)\<rparr>"
  have p: "pair_at (slist s) a b Locked Unlocked cs" using d(1) tm pc by simp
  have step: "sorter_step t s = moves_to t s (Pass (k + 1)) ?l"
    using pair_at_lock(4)[OF p] pc b by (simp add: sorter_step_def)
  then show "\<exists>s'. sorter_step t s = Inr s'" by (simp add: moves_to_def)
  show "steps_well n ss t s"
    by (rule inside_well[OF i step, of tm a b None cs])
      (use pc d(2) d(7)[of t] d(10)[OF t] tm pair_at_set(1)[OF p, of Unlocked] in simp_all)
qed

lemma every_step_well:
  assumes "sorters_inv n ss s" and sz: "sortable ss"
  shows "steps_well n ss t s"
proof -
  obtain a b tm fm cs where i: "sorters_at n ss s a b tm fm cs" using assms(1) unfolding sorters_inv_def by blast
  show ?thesis
  proof (cases "spc s t")
    case Enter
    then show ?thesis by (rule enter_well[OF i])
  next
    case (Pass k)
    then show ?thesis by (rule pass_well[OF i sz])
  next
    case (First k)
    then show ?thesis by (rule first_well[OF i])
  next
    case (Second k base)
    then show ?thesis by (rule second_well(2)[OF i])
  next
    case (Swap k base)
    then show ?thesis by (rule swap_well(2)[OF i sz])
  next
    case (UnlockNext k base)
    then show ?thesis by (rule unlock_next_well(2)[OF i])
  next
    case (UnlockBase k base)
    then show ?thesis by (rule unlock_base_well(2)[OF i])
  next
    case Returned
    then show ?thesis by (intro steps_blocked) (simp add: sorter_step_def)
  qed
qed

section \<open>No deadlock, and an end\<close>

definition sorters_returned :: "sorters \<Rightarrow> bool" where
  "sorters_returned s = (\<forall>t. spc s t = Returned)"

lemma insider_moves:
  assumes i: "sorters_at n ss s a b tm fm cs" and sz: "sortable ss" and u: "u \<in> insiders s"
  shows "\<exists>t \<in> insiders s. \<exists>s'. sorter_step t s = Inr s'"
proof -
  note d = sorters_atD[OF i]
  have moves: "\<exists>s'. sorter_step t s = Inr s'" if "sorter_step t s \<noteq> Inl Diverge" for t
  proof -
    have "sorters_inv n ss s" using i unfolding sorters_inv_def by blast
    then show ?thesis using every_step_well[OF _ sz, of n s t] that
      by (auto simp: steps_well_def split: sum.splits)
  qed
  have "\<exists>t s'. spc s t \<noteq> Enter \<and> spc s t \<noteq> Returned \<and> sorter_step t s = Inr s'"
  proof (cases fm)
    case (Some t)
    then have "has_first (spc s t)" using d(6) by simp
    then have "\<exists>s'. sorter_step t s = Inr s'" "spc s t \<noteq> Enter \<and> spc s t \<noteq> Returned"
      using second_well(1)[OF i] swap_well(1)[OF i sz] unlock_next_well(1)[OF i] unlock_base_well(1)[OF i]
      by (cases "spc s t"; fastforce)+
    then show ?thesis by blast
  next
    case fm: None
    show ?thesis
    proof (cases tm)
      case (Some t)
      then have "has_term (spc s t)" "\<not> has_first (spc s t)" using d(5,6)[of t] fm by simp_all
      then obtain k where k: "spc s t = First k" by (cases "spc s t") auto
      then have "sorter_step t s \<noteq> Inl Diverge"
        using pair_at_lock(1)[OF d(1)] fm by (simp add: sorter_step_def moves_to_def)
      then show ?thesis using moves[of t] k by (intro exI[of _ t]) auto
    next
      case None
      have e: "spc s u \<noteq> Enter" "spc s u \<noteq> Returned" using u by (simp_all add: insiders_def)
      have n: "\<not> has_term (spc s u)" "\<not> has_first (spc s u)" using d(5,6)[of u] fm None by simp_all
      have "sorter_step u s \<noteq> Inl Diverge"
        using e n d(2,3,12) None
        by (cases "spc s u") (auto simp: sorter_step_def leave_sort_free moves_to_def Let_def)
      then show ?thesis using moves[of u] e by blast
    qed
  qed
  then show ?thesis by (auto simp: insiders_def)
qed

lemma someone_moves:
  assumes "sorters_inv n ss s" and sz: "sortable ss" and nd: "\<not> sorters_returned s"
  shows "\<exists>s'. sorters_step s s'"
proof -
  obtain a b tm fm cs where i: "sorters_at n ss s a b tm fm cs" using assms(1) unfolding sorters_inv_def by blast
  note d = sorters_atD[OF i]
  have "\<exists>t s'. sorter_step t s = Inr s'"
  proof (cases "insiders s = {}")
    case True
    obtain t where t: "spc s t \<noteq> Returned" using nd by (auto simp: sorters_returned_def)
    then have "spc s t = Enter" using True by (auto simp: insiders_def)
    then show ?thesis using d(3,12) by (auto simp: sorter_step_def enter_sort_free moves_to_def intro!: exI[of _ t])
  next
    case False
    then show ?thesis using insider_moves[OF i sz] by blast
  qed
  then show ?thesis by (blast intro: sorter_moves)
qed

text \<open>Six steps for every pass.\<close>

fun pc_rank :: "nat \<Rightarrow> sorter_pc \<Rightarrow> nat" where
  "pc_rank k Enter = 6 * k + 2"
| "pc_rank k (Pass i) = 6 * (k - i) + 1"
| "pc_rank k (First i) = 6 * (k - i)"
| "pc_rank k (Second i base) = 6 * (k - i) - 1"
| "pc_rank k (Swap i base) = 6 * (k - i) - 2"
| "pc_rank k (UnlockNext i base) = 6 * (k - i) - 3"
| "pc_rank k (UnlockBase i base) = 6 * (k - i) - 4"
| "pc_rank k Returned = 0"

definition sorters_rank :: "nat \<Rightarrow> char list list \<Rightarrow> sorters \<Rightarrow> nat" where
  "sorters_rank n ss s = (\<Sum>t < n. pc_rank (length ss - 1) (spc s t))"

lemma pc_rank_bound: "pc_rank k pc \<le> 6 * k + 2"
  by (cases pc) auto

lemma sorters_rank_bound: "sortable ss \<Longrightarrow> sorters_rank n ss s \<le> n * (6 * length ss)"
proof -
  assume "sortable ss"
  then have "2 \<le> length ss" by (simp add: sortable_def)
  then have "6 * (length ss - 1) + 2 \<le> 6 * length ss" by linarith
  then have "pc_rank (length ss - 1) (spc s t) \<le> 6 * length ss" for t
    by (rule order_trans[OF pc_rank_bound])
  then show ?thesis using sum_bounded_above[of "{..<n}" "\<lambda>t. pc_rank (length ss - 1) (spc s t)" "6 * length ss"]
    by (simp add: sorters_rank_def)
qed

lemma sorter_step_rank:
  assumes i: "sorters_at n ss s a b tm fm cs" and sz: "sortable ss" and st: "sorter_step t s = Inr s'"
  shows "t < n \<and> (\<exists>pc. spc s' = (spc s)(t := pc) \<and> pc_rank (length ss - 1) pc < pc_rank (length ss - 1) (spc s t))"
proof -
  note d = sorters_atD[OF i]
  have "spc s t \<noteq> Returned" using st by (auto simp: sorter_step_def)
  then have t: "t < n" by (rule d(8))
  have len: "sz_sub (count18 (slist s)) 1 = length ss - 1" using d(4) passes[OF sz] by simp
  have "\<exists>pc. spc s' = (spc s)(t := pc) \<and> pc_rank (length ss - 1) pc < pc_rank (length ss - 1) (spc s t)"
  proof (cases "spc s t")
    case Enter
    then show ?thesis using st d(3,12)
      by (auto simp: sorter_step_def enter_sort_free moves_to_def split: if_splits)
  next
    case (Pass k)
    then show ?thesis using st len d(3)
      by (cases "k < length ss - 1") (auto simp: sorter_step_def leave_sort_free moves_to_def Let_def bind_r_Inr_iff)
  next
    case (First k)
    then show ?thesis using st d(7)[of t] by (auto simp: sorter_step_def moves_to_def bind_r_Inr_iff)
  next
    case (Second k base)
    then show ?thesis using st d(7)[of t] by (auto simp: sorter_step_def moves_to_def bind_r_Inr_iff)
  next
    case (Swap k base)
    then have tm: "fm = Some t" "base = Term" "tm = Some t" using d(5-7)[of t] by auto
    have p: "pair_at (slist s) a b Locked Locked cs" using d(1) tm Swap by simp
    have "set cs = set ss" using d(9) set_order_first by auto
    then have "\<forall>x \<in> set cs. cstring_ok x" using sz by (simp add: sortable_def)
    then obtain c l where "swap_pair (slist s) Term = Inr (False, Node c, l)"
      using pair_at_swap[OF p] d(2) tm by auto
    then show ?thesis using st d(7)[of t] Swap tm by (auto simp: sorter_step_def moves_to_def)
  next
    case (UnlockNext k base)
    then show ?thesis using st d(7)[of t] by (auto simp: sorter_step_def moves_to_def bind_r_Inr_iff)
  next
    case (UnlockBase k base)
    then show ?thesis using st d(7)[of t] by (auto simp: sorter_step_def moves_to_def bind_r_Inr_iff)
  next
    case Returned
    then show ?thesis using st by (simp add: sorter_step_def)
  qed
  then show ?thesis using t by blast
qed

lemma sorters_decrease:
  assumes "sorters_inv n ss s" and sz: "sortable ss" and st: "sorters_step s s'"
  shows "sorters_rank n ss s' < sorters_rank n ss s"
proof -
  obtain a b tm fm cs where i: "sorters_at n ss s a b tm fm cs" using assms(1) unfolding sorters_inv_def by blast
  obtain t where "sorter_step t s = Inr s'" using st by (rule sorters_stepE)
  then obtain pc where pc: "t < n" "spc s' = (spc s)(t := pc)"
      "pc_rank (length ss - 1) pc < pc_rank (length ss - 1) (spc s t)"
    using sorter_step_rank[OF i sz] by blast
  show ?thesis unfolding sorters_rank_def
    by (rule sum_strict_mono_ex1) (use pc in auto)
qed

lemma sorters_inv_step:
  assumes "sorters_inv n ss s" and "sortable ss" and "sorters_step s s'"
  shows "sorters_inv n ss s'"
proof -
  obtain t where "sorter_step t s = Inr s'" using assms(3) by (rule sorters_stepE)
  then show ?thesis using every_step_well[OF assms(1,2), of t] by (simp add: steps_well_def)
qed

text \<open>When all have returned the list is as one sequential call leaves it.\<close>

lemma sorters_result:
  assumes "sorters_inv n ss s" and "sorters_returned s" and "0 < n"
  shows "list18_holds (slist s) (order_first ss)" "status (slist s) = FREE" "sorting_count (slist s) = 0"
proof -
  obtain a b tm fm cs where i: "sorters_at n ss s a b tm fm cs" using assms(1) unfolding sorters_inv_def by blast
  note d = sorters_atD[OF i]
  have r: "spc s t = Returned" for t using assms(2) by (simp add: sorters_returned_def)
  have none: "tm = None" "fm = None" using d(5,6) r by (metis has_term.simps(8) not_Some_eq, metis has_first.simps(8) not_Some_eq)
  have cs: "cs = order_first ss" using d(10)[of 0] assms(3) r by simp
  have ins: "insiders s = {}" using r by (simp add: insiders_def)
  show "list18_holds (slist s) (order_first ss)"
    by (rule holds_pair_at) (use d(1-4) none cs length_order_first in simp_all)
  show "status (slist s) = FREE" "sorting_count (slist s) = 0" using d(11,12) ins by simp_all
qed

definition sorters_begin :: "nat \<Rightarrow> char list list \<Rightarrow> sorters \<Rightarrow> bool" where
  "sorters_begin n ss s =
     (\<exists>l. s = sorters_start n l \<and> list18_holds l ss \<and> sortable ss \<and> status l = FREE \<and> sorting_count l = 0)"

text \<open>The system as an instance of the locales; the strings are \<open>sortable\<close> throughout.\<close>

interpretation sorting: terminating_system
  "sorters_begin n ss" sorters_step "\<lambda>s. sortable ss \<and> sorters_inv n ss s" sorters_returned "sorters_rank n ss" for n ss
  by unfold_locales
    (auto simp: sorters_begin_def intro: sorters_start_inv sorters_inv_step someone_moves sorters_decrease)

section \<open>The main program\<close>

definition COUNT_OF_SORTING_THREADS :: nat where
  "COUNT_OF_SORTING_THREADS = 3"

text \<open>One line of input, as in \<open>main\<close>; \<open>None\<close> while the list is sorted or updated by another thread.\<close>

definition on_line18 :: "nat \<Rightarrow> char list \<Rightarrow> nat option \<Rightarrow> list18_t \<Rightarrow> (char list list \<times> list18_t) option res" where
  "on_line18 fuel buff new l =
     (if length buff = 1 then list_print18 fuel l
      else bind_r (list_push_front18 new buff l) (\<lambda>r. Inr (map_option (\<lambda>(_, l). ([], l)) r)))"

lemma on_line18_holds:
  assumes "list18_holds l ss" and "status l = FREE" and "length ss < fuel" and "length ss + 1 < SIZE_MOD" and "heap18 l a = None"
  shows "\<exists>l'. on_line18 fuel buff (Some a) l =
      Inr (Some (if length buff = 1 then separator # ss @ [separator] else [], l')) \<and>
    list18_holds l' (if length buff = 1 then ss else buff # ss) \<and> status l' = FREE"
  using list_print18_holds[OF assms(1,3,2)] push_front18_holds[OF assms(1,5,4,2), of buff] assms(1,2)
  by (auto simp: on_line18_def)

lemma on_line18_heap:
  assumes "on_line18 fuel buff (Some a) l = Inr (Some (out, l'))" and "heap18 l' b \<noteq> None"
  shows "heap18 l b \<noteq> None \<or> b = a"
  using assms
  by (auto simp: on_line18_def list_print18_def list_push_front18_def between_def enter_update_def leave_update_def
      push_node18_def bind_r_Inr_iff split: if_splits option.splits)

lemma on_line18_waits:
  assumes "mutex18 l = Unlocked" and "status l \<noteq> FREE"
  shows "on_line18 fuel buff new l = Inr None"
  using enter_update_free[OF assms(1)] assms(2) by (simp add: on_line18_def list_print18_def list_push_front18_def between_def)

text \<open>
  The loop of \<open>main\<close> over at most \<open>k\<close> lines, each with the node \<open>malloc\<close> gives for it, while no thread
  sorts; the end of the input fails the assertion.
\<close>

fun main_lines18 :: "nat \<Rightarrow> nat \<Rightarrow> (char list \<times> nat option) list \<Rightarrow> list18_t \<Rightarrow> (char list list \<times> list18_t) res" where
  "main_lines18 fuel 0 ins l = Inr ([], l)"
| "main_lines18 fuel (Suc k) [] l = Inl Exit"
| "main_lines18 fuel (Suc k) ((buff, new) # ins) l =
     bind_r (on_line18 fuel buff new l) (\<lambda>r. case r of
       None \<Rightarrow> Inl Diverge
     | Some (out, l) \<Rightarrow> bind_r (main_lines18 fuel k ins l) (\<lambda>(outs, l). Inr (out @ outs, l)))"

text \<open>What the user sees: the strings entered so far, the latest first, for every empty line.\<close>

fun session18 :: "char list list \<Rightarrow> char list list \<Rightarrow> char list list" where
  "session18 ss [] = []"
| "session18 ss (b # bs) =
     (if length b = 1 then separator # ss @ separator # session18 ss bs else session18 (b # ss) bs)"

lemma main_lines18_session:
  assumes "list18_holds l ss" and "status l = FREE" and "length ss + length bs < fuel" and "fuel < SIZE_MOD"
    and "length as = length bs" and "distinct as" and "\<forall>a \<in> set as. heap18 l a = None"
  shows "\<exists>l'. main_lines18 fuel (length bs) (zip bs (map Some as)) l = Inr (session18 ss bs, l') \<and> status l' = FREE"
  using assms
proof (induction bs arbitrary: as l ss)
  case Nil
  then show ?case by simp
next
  case (Cons b bs)
  then obtain a as' where as: "as = a # as'" by (cases as) auto
  let ?ss = "if length b = 1 then ss else b # ss"
  obtain l1 where l1: "on_line18 fuel b (Some a) l =
      Inr (Some (if length b = 1 then separator # ss @ [separator] else [], l1))"
      "list18_holds l1 ?ss" "status l1 = FREE"
    using on_line18_holds[OF Cons.prems(1,2), of fuel a b] Cons.prems(3,4,7) as by auto
  have fresh: "\<forall>c \<in> set as'. heap18 l1 c = None"
    using on_line18_heap[OF l1(1)] Cons.prems(6,7) as by fastforce
  obtain l' where "main_lines18 fuel (length bs) (zip bs (map Some as')) l1 = Inr (session18 ?ss bs, l')" "status l' = FREE"
  proof -
    have "length ?ss + length bs < fuel" using Cons.prems(3) by simp
    then show thesis using Cons.IH[OF l1(2,3) _ Cons.prems(4) _ _ fresh] Cons.prems(5,6) as that by auto
  qed
  then show ?case using l1(1) as by auto
qed

lemma lines_are_printed_back:
  assumes "heap18 l = Map.empty" and "length bs < fuel" and "fuel < SIZE_MOD" and "length as = length bs" and "distinct as"
  shows "\<exists>l'. main_lines18 fuel (length bs) (zip bs (map Some as)) (list_init18 l) = Inr (session18 [] bs, l')"
proof -
  have "list18_holds (list_init18 l) []"
    by (auto simp: list18_holds_def list_init18_def intro!: exI[of _ "[]"])
  moreover have "\<forall>a \<in> set as. heap18 (list_init18 l) a = None" using assms(1) by (simp add: list_init18_def)
  ultimately show ?thesis
    using main_lines18_session[of "list_init18 l" "[]" bs fuel as] assms by (auto simp: list_init18_def)
qed

end
