(* ===== verification/Program18.thy ===== *)
theory Program18
  imports Sorters18
begin

text \<open>
  \<open>tasks17_20/task18.c\<close>: the whole program. \<open>main\<close> creates three threads that sort the list and sleep in
  turn, sets the handler of SIGINT, and pushes or prints for every line. A step is what a thread
  does up to its next call of \<open>lock\<close> or \<open>unlock\<close>, a wait, its next line of output or its next call of the system;
  which thread moves is not determined. The steps inside \<open>sort_list\<close> are those of \<open>Sorters18\<close>.
\<close>

section \<open>The state\<close>

definition LINES18 :: nat where
  "LINES18 = 10000"

text \<open>Where a sorting thread is: not created, in \<open>sleep\<close>, waiting on the condition, or in \<open>sort_list\<close>.\<close>

datatype thread18 = T_Unborn | T_Naps | T_Waits | T_At sorter_pc

text \<open>Where \<open>main\<close> is; the argument is the loop variable, the line, or the node to be printed next.\<close>

datatype main_pc18 = M_Create nat | M_SetMask | M_SetAction | M_Getline | M_Enter "char list" | M_Wait "char list"
  | M_Header | M_Print "nat option" | M_Malloc "char list" | M_Leave | M_End int | M_Killed

text \<open>
  What happened, the latest last: a line was put into the list, \<open>main\<close> printed a line, a sorting
  thread printed its number \<open>1\<close> or \<open>2\<close> and its duration of sleep.
\<close>

datatype event18 = Entered "char list" | Shown "char list" | Said nat int

record program18 =
  list_of :: list18_t
  threads :: "nat \<Rightarrow> thread18"
  main_at :: main_pc18
  lines_read :: nat
  history :: "event18 list"

text \<open>\<open>sleep_duration\<close> of the context of thread \<open>i\<close>; its list is the one list.\<close>

definition context18 :: "nat \<Rightarrow> int" where
  "context18 i = 2 * int i"

definition running18 :: "program18 \<Rightarrow> bool" where
  "running18 p = (case main_at p of M_End r \<Rightarrow> False | M_Killed \<Rightarrow> False | _ \<Rightarrow> True)"

section \<open>The sorting threads\<close>

text \<open>The threads in \<open>sort_list\<close> as \<open>Sorters18\<close> sees them: one that is elsewhere has yet to enter.\<close>

fun pc_of :: "thread18 \<Rightarrow> sorter_pc" where
  "pc_of T_Unborn = Enter"
| "pc_of T_Naps = Enter"
| "pc_of T_Waits = Enter"
| "pc_of (T_At pc) = (if pc = Returned then Enter else pc)"

definition sorters_of :: "program18 \<Rightarrow> sorters" where
  "sorters_of p = \<lparr>slist = list_of p, spc = (\<lambda>t. if t < COUNT_OF_SORTING_THREADS then pc_of (threads p t) else Returned)\<rparr>"

text \<open>\<open>pthread_cond_broadcast\<close>: whoever waits looks at the status again.\<close>

definition broadcast18 :: "program18 \<Rightarrow> program18" where
  "broadcast18 p = p\<lparr>threads := (\<lambda>t. if threads p t = T_Waits then T_At Enter else threads p t),
     main_at := (case main_at p of M_Wait b \<Rightarrow> M_Enter b | m \<Rightarrow> m)\<rparr>"

text \<open>
  The body of the endless loop of \<open>subroutine\<close>. A wait may end without a broadcast; a thread that has
  returned from \<open>sort_list\<close> prints and sleeps.
\<close>

definition subroutine18 :: "nat \<Rightarrow> program18 \<Rightarrow> program18 res" where
  "subroutine18 t p = (case threads p t of
     T_Unborn \<Rightarrow> Inl Diverge
   | T_Waits \<Rightarrow> Inr (p\<lparr>threads := (threads p)(t := T_At Enter)\<rparr>)
   | T_Naps \<Rightarrow> Inr (p\<lparr>threads := (threads p)(t := T_At Enter), history := history p @ [Said 2 (context18 t)]\<rparr>)
   | T_At pc \<Rightarrow>
       if pc = Returned
       then Inr (p\<lparr>threads := (threads p)(t := T_Naps), history := history p @ [Said 1 (context18 t)]\<rparr>)
       else if pc = Enter \<and> enter_sort (list_of p) = Inr None then Inr (p\<lparr>threads := (threads p)(t := T_Waits)\<rparr>)
       else bind_r (sorter_step t (sorters_of p)) (\<lambda>s.
         let p' = p\<lparr>list_of := slist s, threads := (threads p)(t := T_At (spc s t))\<rparr>
         in Inr (if spc s t = Returned then broadcast18 p' else p')))"

section \<open>The main thread\<close>

text \<open>
  What a call of the system gives: its result, the bytes of a line, nothing more to read, what
  \<open>malloc\<close> returns; \<open>No_In\<close> where nothing of the kind is asked for.
\<close>

datatype input18 = Result_In int | Line_In "char list" | End_In | Block_In "nat option" | No_In

definition main18 :: "input18 \<Rightarrow> program18 \<Rightarrow> program18 res" where
  "main18 inp p = (case (main_at p, inp) of
     (M_Create i, Result_In rc) \<Rightarrow>
       bind_r (ce rc) (\<lambda>_. Inr (p\<lparr>threads := (threads p)(i := T_At Enter),
         main_at := (if i + 1 < COUNT_OF_SORTING_THREADS then M_Create (i + 1) else M_SetMask)\<rparr>))
   | (M_SetMask, Result_In rc) \<Rightarrow> bind_r (ce rc) (\<lambda>_. Inr (p\<lparr>main_at := M_SetAction\<rparr>))
   | (M_SetAction, Result_In rc) \<Rightarrow> bind_r (ce rc) (\<lambda>_. Inr (p\<lparr>main_at := M_Getline\<rparr>))
   | (M_Getline, Line_In bs) \<Rightarrow> Inr (p\<lparr>main_at := M_Enter (c_string bs)\<rparr>)
   | (M_Getline, End_In) \<Rightarrow> Inl Exit
   | (M_Enter b, No_In) \<Rightarrow> bind_r (enter_update (list_of p)) (\<lambda>r. case r of
         None \<Rightarrow> Inr (p\<lparr>main_at := M_Wait b\<rparr>)
       | Some l \<Rightarrow> Inr (p\<lparr>list_of := l, main_at := (if length b = 1 then M_Header else M_Malloc b)\<rparr>))
   | (M_Wait b, No_In) \<Rightarrow> Inr (p\<lparr>main_at := M_Enter b\<rparr>)
   | (M_Header, No_In) \<Rightarrow>
       Inr (p\<lparr>main_at := M_Print (term_next18 (list_of p)), history := history p @ [Shown separator]\<rparr>)
   | (M_Print it, No_In) \<Rightarrow>
       if it = None then Inr (p\<lparr>main_at := M_Leave, history := history p @ [Shown separator]\<rparr>)
       else bind_r (node18 (list_of p) it) (\<lambda>(_, n).
         Inr (p\<lparr>main_at := M_Print (nxt18 n), history := history p @ [Shown (str18 n)]\<rparr>))
   | (M_Malloc b, Block_In new) \<Rightarrow> bind_r (push_node18 new b (list_of p)) (\<lambda>(_, l).
         Inr (p\<lparr>list_of := l, main_at := M_Leave, history := history p @ [Entered b]\<rparr>))
   | (M_Leave, No_In) \<Rightarrow> bind_r (leave_update (list_of p)) (\<lambda>l.
         Inr (broadcast18 (p\<lparr>list_of := l, lines_read := lines_read p + 1,
           main_at := (if lines_read p + 1 < LINES18 then M_Getline else M_End 0)\<rparr>)))
   | _ \<Rightarrow> Inl Diverge)"

text \<open>SIGINT: the handler calls \<open>_exit(0)\<close>; before it is set, the signal kills the process.\<close>

definition sigint_handler18 :: "program18 \<Rightarrow> program18" where
  "sigint_handler18 p = p\<lparr>main_at := (case main_at p of
     M_Create i \<Rightarrow> M_Killed | M_SetMask \<Rightarrow> M_Killed | M_SetAction \<Rightarrow> M_Killed | _ \<Rightarrow> M_End 0)\<rparr>"

text \<open>\<open>malloc\<close> returns a null pointer or a node that is not in use.\<close>

fun input_ok18 :: "input18 \<Rightarrow> list18_t \<Rightarrow> bool" where
  "input_ok18 (Block_In (Some a)) l = (heap18 l a = None)"
| "input_ok18 inp l = True"

inductive step_program18 :: "program18 \<Rightarrow> program18 \<Rightarrow> bool" where
  thread_step18: "running18 p \<Longrightarrow> subroutine18 t p = Inr p' \<Longrightarrow> step_program18 p p'"
| main_step18: "running18 p \<Longrightarrow> input_ok18 inp (list_of p) \<Longrightarrow> main18 inp p = Inr p' \<Longrightarrow> step_program18 p p'"
| interrupt18: "running18 p \<Longrightarrow> step_program18 p (sigint_handler18 p)"

inductive_cases step_program18E: "step_program18 p p'"

definition program18_starts :: "program18 \<Rightarrow> bool" where
  "program18_starts p =
     (list_of p = list_init18 (list_of p) \<and> heap18 (list_of p) = Map.empty \<and> threads p = (\<lambda>_. T_Unborn) \<and>
      main_at p = M_Create 0 \<and> lines_read p = 0 \<and> history p = [])"

section \<open>What the program is to do\<close>

text \<open>
  The specification: the list is a sequence of lines. A line is put in front; a listing shows all of
  them; the threads may at any time put the first two in order, and do nothing else.
\<close>

inductive listings :: "event18 list \<Rightarrow> char list list \<Rightarrow> bool" where
  no_lines: "listings [] []"
| line_entered: "listings h ss \<Longrightarrow> listings (h @ [Entered b]) (b # ss)"
| list_shown: "listings h ss \<Longrightarrow> listings (h @ Shown separator # map Shown ss @ [Shown separator]) ss"
| list_sorted: "listings h ss \<Longrightarrow> listings h (order_first ss)"

fun by_main :: "event18 \<Rightarrow> bool" where
  "by_main (Said k d) = False"
| "by_main e = True"

definition session_of :: "program18 \<Rightarrow> event18 list" where
  "session_of p = filter by_main (history p)"

fun entered_lines :: "event18 list \<Rightarrow> char list list" where
  "entered_lines [] = []"
| "entered_lines (Entered b # h) = b # entered_lines h"
| "entered_lines (e # h) = entered_lines h"

lemma entered_append [simp]: "entered_lines (h @ h') = entered_lines h @ entered_lines h'"
  by (induction h rule: entered_lines.induct) simp_all

lemma entered_shown [simp]: "entered_lines (map Shown ss) = []"
  by (induction ss) simp_all

text \<open>The list is always a permutation of the lines entered.\<close>

lemma listings_perm: "listings h ss \<Longrightarrow> mset ss = mset (entered_lines h)"
  by (induction rule: listings.induct) (simp_all add: order_first_perm)


section \<open>Sorting a list of any length\<close>

text \<open>
  \<open>Sorters18\<close> has the lists of at least two lines. With one line no pass is made; without a line the
  first thread to have the mutex of the terminator is about to use a null pointer.
\<close>

fun few_pc :: "char list list \<Rightarrow> sorter_pc \<Rightarrow> bool" where
  "few_pc ss Enter = True"
| "few_pc ss (Pass i) = (i = 0)"
| "few_pc ss (First i) = (i = 0 \<and> ss = [])"
| "few_pc ss Returned = True"
| "few_pc ss pc = False"

definition few_at :: "nat \<Rightarrow> char list list \<Rightarrow> sorters \<Rightarrow> nat option \<Rightarrow> bool" where
  "few_at n ss s tm =
     (mutex18 (slist s) = Unlocked \<and> count18 (slist s) = length ss \<and>
      (\<exists>as. chain18 (heap18 (slist s)) (term_next18 (slist s)) as ss) \<and> term_mutex (slist s) = locked_by tm \<and>
      (\<forall>t. has_term (spc s t) = (tm = Some t)) \<and> (\<forall>t. few_pc ss (spc s t)) \<and> (\<forall>t \<ge> n. spc s t = Returned) \<and>
      sorting_count (slist s) = int (card (insiders s)) \<and>
      status (slist s) = (if insiders s = {} then FREE else SORTING))"

definition lines_ok :: "char list list \<Rightarrow> bool" where
  "lines_ok ss = (length ss < SIZE_MOD \<and> (\<forall>s \<in> set ss. cstring_ok s))"

definition sorting_at :: "nat \<Rightarrow> char list list \<Rightarrow> sorters \<Rightarrow> bool" where
  "sorting_at n ss s = (lines_ok ss \<and> (if 2 \<le> length ss then sorters_inv n ss s else \<exists>tm. few_at n ss s tm))"

lemma lines_sortable: "lines_ok ss \<Longrightarrow> 2 \<le> length ss \<Longrightarrow> sortable ss"
  by (simp add: lines_ok_def sortable_def)

lemma lines_ok_perm: "mset cs = mset ss \<Longrightarrow> lines_ok cs = lines_ok ss"
  unfolding lines_ok_def by (metis mset_eq_setD size_mset)

lemma sorting_begins:
  assumes "list18_holds (slist s) ss" and "lines_ok ss" and "status (slist s) = FREE" and "sorting_count (slist s) = 0"
    and "spc s = (\<lambda>t. if t < n then Enter else Returned)"
  shows "sorting_at n ss s"
proof (cases "2 \<le> length ss")
  case True
  have "s = sorters_start n (slist s)" using assms(5) by (simp add: sorters_start_def)
  then show ?thesis using sorters_start_inv[OF assms(1) lines_sortable[OF assms(2) True] assms(3,4), of n] assms(2) True
    by (simp add: sorting_at_def)
next
  case False
  have "few_at n ss s None" using assms by (auto simp: few_at_def list18_holds_def insiders_def)
  then show ?thesis using False assms(2) by (auto simp: sorting_at_def)
qed

lemma sorting_frame:
  assumes "sorting_at n ss s"
  shows "mutex18 (slist s) = Unlocked" "status (slist s) = (if insiders s = {} then FREE else SORTING)"
    "n \<le> t \<Longrightarrow> spc s t = Returned"
  using assms
  by (auto simp: sorting_at_def few_at_def sorters_inv_def sorters_at_def split: if_splits)

text \<open>When nobody is inside the list holds the lines, the first two perhaps exchanged.\<close>

lemma sorting_calm:
  assumes "sorting_at n ss s" and "insiders s = {}"
  shows "\<exists>cs \<in> {ss, order_first ss}. list18_holds (slist s) cs" "sorting_count (slist s) = 0"
proof -
  have "(\<exists>cs \<in> {ss, order_first ss}. list18_holds (slist s) cs) \<and> sorting_count (slist s) = 0"
  proof (cases "2 \<le> length ss")
    case True
    then obtain a b tm fm cs where i: "sorters_at n ss s a b tm fm cs"
      using assms(1) by (auto simp: sorting_at_def sorters_inv_def)
    note d = sorters_atD[OF i]
    have pc: "spc s t = Enter \<or> spc s t = Returned" for t using assms(2) by (auto simp: insiders_def)
    have "\<not> has_term (spc s t)" "\<not> has_first (spc s t)" for t using pc[of t] by auto
    then have "tm = None" "fm = None" using d(5,6) by (metis not_Some_eq)+
    then have "list18_holds (slist s) cs" using d(1-4,9) length_order_first by (intro holds_pair_at) auto
    then show ?thesis using d(9,11) assms(2) by auto
  next
    case False
    then obtain tm where i: "few_at n ss s tm" using assms(1) by (auto simp: sorting_at_def)
    have pc: "spc s t = Enter \<or> spc s t = Returned" for t using assms(2) by (auto simp: insiders_def)
    have "\<not> has_term (spc s t)" for t using pc[of t] by auto
    then have "tm = None" using i unfolding few_at_def by (metis not_Some_eq)
    then show ?thesis using i assms(2) by (simp add: few_at_def list18_holds_def)
  qed
  then show "\<exists>cs \<in> {ss, order_first ss}. list18_holds (slist s) cs" "sorting_count (slist s) = 0" by blast+
qed

text \<open>A thread that has returned may call \<open>sort_list\<close> again.\<close>

lemma sorting_again:
  assumes "sorting_at n ss s" and "spc s t = Returned" and "t < n"
  shows "sorting_at n ss (s\<lparr>spc := (spc s)(t := Enter)\<rparr>)"
proof -
  let ?s = "s\<lparr>spc := (spc s)(t := Enter)\<rparr>"
  have i: "insiders ?s = insiders s" using assms(2) by (auto simp: insiders_def)
  have "sorters_at n ss ?s a b tm fm cs" if "sorters_at n ss s a b tm fm cs" for a b tm fm cs
  proof -
    note d = sorters_atD[OF that]
    have "fm \<noteq> Some t" using d(6)[of t] assms(2) by auto
    then have "second_lock fm (spc ?s) = second_lock fm (spc s)" by (cases fm) auto
    then show ?thesis using that i assms(2,3) d(5,6)[of t] unfolding sorters_at_def by auto
  qed
  moreover have "few_at n ss ?s tm" if "few_at n ss s tm" for tm
  proof -
    have "tm \<noteq> Some t" using that assms(2) unfolding few_at_def by (metis has_term.simps(8))
    then show ?thesis using that i assms(2,3) unfolding few_at_def by auto
  qed
  ultimately show ?thesis using assms(1) unfolding sorting_at_def sorters_inv_def by (auto split: if_splits) metis+
qed

lemma sorter_step_moves: "sorter_step t s = Inr s' \<Longrightarrow> spc s' = (spc s)(t := spc s' t) \<and> spc s t \<noteq> Returned"
  by (cases "spc s t") (auto simp: sorter_step_def moves_to_def Let_def bind_r_Inr_iff split: if_splits option.splits)

lemma sorter_step_enters: "sorter_step t s = Inr s' \<Longrightarrow> spc s' t \<noteq> Enter"
  by (cases "spc s t") (auto simp: sorter_step_def moves_to_def Let_def bind_r_Inr_iff split: if_splits option.splits)

text \<open>The steps on a list of at most one line.\<close>

lemma few_moves:
  assumes i: "few_at n ss s tm" and pc: "pc \<in> {Pass 0, First 0}" "spc s t = Enter \<or> pc = First 0 \<and> spc s t = Pass 0"
    and l: "l = (slist s)\<lparr>status := SORTING, sorting_count := k, term_mutex := locked_by tm'\<rparr>"
    and k: "k = int (card (insert t (insiders s)))" and t: "t < n" and ok: "few_pc ss pc"
    and tm: "has_term pc = (tm' = Some t)" "\<forall>u. u \<noteq> t \<longrightarrow> (tm' = Some u) = (tm = Some u)"
  shows "few_at n ss (s\<lparr>slist := l, spc := (spc s)(t := pc)\<rparr>) tm'"
proof -
  have "pc \<noteq> Enter" "pc \<noteq> Returned" using pc(1) by auto
  then have "insiders (s\<lparr>slist := l, spc := (spc s)(t := pc)\<rparr>) = insert t (insiders s)" by (rule insiders_upd)
  then show ?thesis using i l k t ok tm unfolding few_at_def by auto
qed

lemma few_step:
  assumes i: "few_at n ss s tm" and few: "length ss < 2"
  shows "case sorter_step t s of
    Inl f \<Rightarrow> f = Diverge \<or> f = Undefined \<and> ss = [] | Inr s' \<Rightarrow> \<exists>tm'. few_at n ss s' tm'"
proof -
  let ?l = "slist s"
  have m: "mutex18 ?l = Unlocked" and c: "count18 ?l = length ss" and tm: "term_mutex ?l = locked_by tm"
    and ht: "has_term (spc s t) = (tm = Some t)" and ok: "few_pc ss (spc s t)"
    and r: "\<forall>u \<ge> n. spc s u = Returned" and sc: "sorting_count ?l = int (card (insiders s))"
    and st: "status ?l = (if insiders s = {} then FREE else SORTING)"
    using i unfolding few_at_def by auto
  have fin: "finite (insiders s)"
    by (rule finite_subset[of _ "{..<n}"]) (use r in \<open>auto simp: insiders_def not_le[symmetric]\<close>)
  have t: "t < n" if "spc s t \<noteq> Returned" using r that not_le by blast
  have empty: "sz_sub 0 1 = SIZE_MOD - 1" using sz_sub_wraps[of 0 1] by (simp add: SIZE_MOD_def)
  show ?thesis
  proof (cases "spc s t")
    case Enter
    have n: "t \<notin> insiders s" using Enter by (simp add: insiders_def)
    let ?l' = "?l\<lparr>status := SORTING, sorting_count := sorting_count ?l + 1\<rparr>"
    have "sorter_step t s = Inr (s\<lparr>slist := ?l', spc := (spc s)(t := Pass 0)\<rparr>)"
      using Enter m st by (simp add: sorter_step_def enter_sort_free moves_to_def)
    moreover have "few_at n ss (s\<lparr>slist := ?l', spc := (spc s)(t := Pass 0)\<rparr>) tm"
      by (rule few_moves[OF i]) (use Enter t tm sc fin n ht in \<open>auto simp: list18_t.equality\<close>)
    ultimately show ?thesis by auto
  next
    case (Pass k)
    then have k: "k = 0" using ok by simp
    have ins: "t \<in> insiders s" using Pass by (simp add: insiders_def)
    show ?thesis
    proof (cases "ss = []")
      case True
      have step: "sorter_step t s = bind_r (mutex_lock (locked_by tm)) (\<lambda>m. moves_to t s (First 0) (?l\<lparr>term_mutex := m\<rparr>))"
        using Pass k c True tm empty SIZE_MOD_def by (simp add: sorter_step_def bind_r_assoc)
      show ?thesis
      proof (cases tm)
        case (Some u)
        then show ?thesis using step by simp
      next
        case None
        have "few_at n ss (s\<lparr>slist := ?l\<lparr>term_mutex := Locked\<rparr>, spc := (spc s)(t := First 0)\<rparr>) (Some t)"
          by (rule few_moves[OF i])
            (use Pass k t None sc st ins True in \<open>auto simp: insert_absorb intro!: list18_t.equality\<close>)
        then show ?thesis using step None by (auto simp: moves_to_def)
      qed
    next
      case False
      then have one: "length ss = 1" using few by (cases ss) auto
      let ?l' = "?l\<lparr>sorting_count := sorting_count ?l - 1, status := if sorting_count ?l = 1 then FREE else status ?l\<rparr>"
      let ?s' = "s\<lparr>slist := ?l', spc := (spc s)(t := Returned)\<rparr>"
      have step: "sorter_step t s = Inr ?s'"
        using Pass k c one m sz_sub_small[of 1 1] by (simp add: sorter_step_def leave_sort_free moves_to_def SIZE_MOD_def Let_def)
      have cd: "int (card (insiders s - {t})) = int (card (insiders s)) - 1"
        using card_Suc_Diff1[OF fin ins] by linarith
      have e: "(sorting_count ?l = 1) = (insiders s - {t} = {})"
        using cd sc fin by (metis card_0_eq diff_eq_eq finite_Diff of_nat_0 of_nat_eq_0_iff add_0)
      have "few_at n ss ?s' tm"
        using i cd e st sc ins ht Pass insiders_upd(2)[where l = ?l' and s = s and t = t] unfolding few_at_def by auto
      then show ?thesis using step by auto
    qed
  next
    case (First k)
    then have "ss = []" using ok by simp
    then have "term_next18 ?l = None" using i by (auto simp: few_at_def elim: chain18.elims)
    then show ?thesis using First \<open>ss = []\<close> by (simp add: sorter_step_def lock_first_def)
  qed (use ok in \<open>simp_all add: sorter_step_def\<close>)
qed

lemma sorting_step:
  assumes "sorting_at n ss s"
  shows "case sorter_step t s of
    Inl f \<Rightarrow> f = Diverge \<or> f = Undefined \<and> ss = [] | Inr s' \<Rightarrow> sorting_at n ss s'"
proof (cases "2 \<le> length ss")
  case True
  then show ?thesis using assms every_step_well[of n ss s t] lines_sortable
    by (auto simp: sorting_at_def steps_well_def split: sum.splits)
next
  case False
  then obtain tm where "few_at n ss s tm" using assms by (auto simp: sorting_at_def)
  then show ?thesis using few_step[of n ss s tm t] False assms by (auto simp: sorting_at_def split: sum.splits)
qed

text \<open>While threads are inside, one of them can go on.\<close>

lemma sorting_progress:
  assumes "sorting_at n ss s" and "u \<in> insiders s"
  shows "\<exists>t \<in> insiders s. sorter_step t s \<noteq> Inl Diverge"
proof (cases "2 \<le> length ss")
  case True
  then obtain a b tm fm cs where "sorters_at n ss s a b tm fm cs" using assms(1) by (auto simp: sorting_at_def sorters_inv_def)
  moreover have "sortable ss" using lines_sortable[OF _ True] assms(1) by (simp add: sorting_at_def)
  ultimately obtain t s' where "t \<in> insiders s" "sorter_step t s = Inr s'" using insider_moves[OF _ _ assms(2)] by blast
  then show ?thesis by (intro bexI[of _ t]) simp_all
next
  case False
  then obtain tm where i: "few_at n ss s tm" using assms(1) by (auto simp: sorting_at_def)
  show ?thesis
  proof (cases tm)
    case (Some t)
    then have "has_term (spc s t)" "few_pc ss (spc s t)" using i by (auto simp: few_at_def)
    then have "spc s t = First 0" "ss = []" by (cases "spc s t"; auto)+
    moreover have "term_next18 (slist s) = None" using i \<open>ss = []\<close> by (auto simp: few_at_def elim: chain18.elims)
    ultimately show ?thesis by (intro bexI[of _ t]) (auto simp: sorter_step_def lock_first_def insiders_def)
  next
    case None
    have "few_pc ss (spc s u)" "\<not> has_term (spc s u)" using i None by (auto simp: few_at_def)
    then have "spc s u = Pass 0" using assms(2) by (cases "spc s u") (auto simp: insiders_def)
    then have "sorter_step u s \<noteq> Inl Diverge" using i None
      by (auto simp: sorter_step_def few_at_def leave_sort_free moves_to_def Let_def)
    then show ?thesis using assms(2) by blast
  qed
qed


section \<open>The invariant of the program\<close>

text \<open>\<open>main\<close> between its two critical sections.\<close>

fun updates18 :: "main_pc18 \<Rightarrow> bool" where
  "updates18 M_Header = True"
| "updates18 (M_Print it) = True"
| "updates18 (M_Malloc b) = True"
| "updates18 M_Leave = True"
| "updates18 m = False"

fun main_line_ok :: "main_pc18 \<Rightarrow> bool" where
  "main_line_ok (M_Enter b) = cstring_ok b"
| "main_line_ok (M_Wait b) = cstring_ok b"
| "main_line_ok (M_Malloc b) = cstring_ok b"
| "main_line_ok m = True"

text \<open>What has been shown when \<open>main\<close> is at a place, for a list that holds \<open>ss\<close>.\<close>

fun shown_at :: "main_pc18 \<Rightarrow> event18 list \<Rightarrow> list18_t \<Rightarrow> char list list \<Rightarrow> bool" where
  "shown_at (M_Print it) h l ss =
     (\<exists>h' done left as. h = h' @ Shown separator # map Shown done \<and> listings h' ss \<and> ss = done @ left \<and>
        chain18 (heap18 l) it as left)"
| "shown_at m h l ss = listings h ss"

definition outside18 :: "program18 \<Rightarrow> bool" where
  "outside18 p = (\<exists>ss. listings (session_of p) ss \<and> length ss \<le> lines_read p \<and>
     sorting_at COUNT_OF_SORTING_THREADS ss (sorters_of p))"

definition inside18 :: "program18 \<Rightarrow> bool" where
  "inside18 p = (\<exists>ss. shown_at (main_at p) (session_of p) (list_of p) ss \<and>
     length ss \<le> lines_read p + (if main_at p = M_Leave then 1 else 0) \<and> lines_ok ss \<and> list18_holds (list_of p) ss \<and>
     status (list_of p) = UPDATING \<and> sorting_count (list_of p) = 0 \<and> (\<forall>t. pc_of (threads p t) = Enter))"

definition nobody_waits :: "program18 \<Rightarrow> bool" where
  "nobody_waits p = ((\<forall>t. threads p t \<noteq> T_Waits) \<and> (\<forall>b. main_at p \<noteq> M_Wait b))"

definition program18_inv :: "program18 \<Rightarrow> bool" where
  "program18_inv p =
     ((if updates18 (main_at p) then inside18 p else outside18 p) \<and> lines_read p < LINES18 \<and> main_line_ok (main_at p) \<and>
      (\<forall>i. main_at p = M_Create i \<longrightarrow> i < COUNT_OF_SORTING_THREADS \<and> (\<forall>t \<ge> i. threads p t = T_Unborn)) \<and>
      (\<forall>t \<ge> COUNT_OF_SORTING_THREADS. threads p t = T_Unborn) \<and>
      (status (list_of p) = FREE \<longrightarrow> nobody_waits p))"

lemma threads_three [simp]: "COUNT_OF_SORTING_THREADS = 3"
  by (simp add: COUNT_OF_SORTING_THREADS_def)

text \<open>What leaves the threads in \<open>sort_list\<close> as they are.\<close>

lemma sorters_of_simps [simp]:
  "sorters_of (p\<lparr>main_at := m\<rparr>) = sorters_of p"
  "sorters_of (p\<lparr>history := h\<rparr>) = sorters_of p"
  "sorters_of (p\<lparr>lines_read := k\<rparr>) = sorters_of p"
  "sorters_of (broadcast18 p) = sorters_of p"
  "slist (sorters_of p) = list_of p"
  by (auto simp: sorters_of_def broadcast18_def fun_eq_iff)

lemma broadcast18_simps [simp]:
  "list_of (broadcast18 p) = list_of p" "lines_read (broadcast18 p) = lines_read p" "history (broadcast18 p) = history p"
  "session_of (broadcast18 p) = session_of p" "nobody_waits (broadcast18 p)" "updates18 (main_at (broadcast18 p)) = updates18 (main_at p)"
  "main_line_ok (main_at (broadcast18 p)) = main_line_ok (main_at p)"
  "(main_at (broadcast18 p) = M_Create i) = (main_at p = M_Create i)"
  "(threads (broadcast18 p) t = T_Unborn) = (threads p t = T_Unborn)"
  "pc_of (threads (broadcast18 p) t) = pc_of (threads p t)"
  by (auto simp: broadcast18_def session_of_def nobody_waits_def split: main_pc18.splits)

lemma session_simps [simp]:
  "session_of (p\<lparr>main_at := m\<rparr>) = session_of p" "session_of (p\<lparr>threads := th\<rparr>) = session_of p"
  "session_of (p\<lparr>list_of := l\<rparr>) = session_of p" "session_of (p\<lparr>lines_read := k\<rparr>) = session_of p"
  "session_of (p\<lparr>history := history p @ [e]\<rparr>) = session_of p @ (if by_main e then [e] else [])"
  by (simp_all add: session_of_def)

lemma outside_broadcast [simp]: "outside18 (broadcast18 p) = outside18 p"
  by (simp add: outside18_def)

lemma inside_idle: "inside18 p \<Longrightarrow> pc_of (threads p t) = Enter"
  by (auto simp: inside18_def)

lemma outside_status:
  assumes "outside18 p"
  shows "mutex18 (list_of p) = Unlocked" "status (list_of p) = (if insiders (sorters_of p) = {} then FREE else SORTING)"
proof -
  obtain ss where i: "sorting_at COUNT_OF_SORTING_THREADS ss (sorters_of p)" using assms by (auto simp: outside18_def)
  show "mutex18 (list_of p) = Unlocked" "status (list_of p) = (if insiders (sorters_of p) = {} then FREE else SORTING)"
    using sorting_frame(1,2)[OF i] by simp_all
qed

text \<open>A step of a thread that does not touch the list.\<close>

lemma thread_elsewhere:
  assumes "program18_inv p" and "t < 3" and "pc_of w = pc_of (threads p t)" and "threads p t \<noteq> T_Unborn"
    and "\<forall>e \<in> set es. \<not> by_main e" and "w = T_Waits \<longrightarrow> status (list_of p) \<noteq> FREE"
  shows "program18_inv (p\<lparr>threads := (threads p)(t := w), history := history p @ es\<rparr>)"
proof -
  let ?p = "p\<lparr>threads := (threads p)(t := w), history := history p @ es\<rparr>"
  have s: "sorters_of ?p = sorters_of p" using assms(3) by (auto simp: sorters_of_def fun_eq_iff)
  have h: "session_of ?p = session_of p" using assms(5) by (simp add: session_of_def)
  have "pc_of (threads ?p u) = pc_of (threads p u)" for u using assms(3) by simp
  then have "inside18 ?p = inside18 p" "outside18 ?p = outside18 p" using s h by (simp_all add: inside18_def outside18_def)
  then show ?thesis using assms by (auto simp: program18_inv_def nobody_waits_def)
qed

section \<open>Every step keeps it\<close>

text \<open>A step inside \<open>sort_list\<close>: \<open>main\<close> is not between its critical sections.\<close>

lemma sorting_thread_step:
  assumes inv: "program18_inv p" and w: "threads p t = T_At pc" "pc \<noteq> Returned"
    and n: "\<not> (pc = Enter \<and> enter_sort (list_of p) = Inr None)"
  shows "\<not> updates18 (main_at p) \<or> sorter_step t (sorters_of p) = Inl Diverge"
proof (cases "updates18 (main_at p)")
  case True
  then have "inside18 p" using inv by (simp add: program18_inv_def)
  then have "pc = Enter" "status (list_of p) = UPDATING" "mutex18 (list_of p) = Unlocked"
    using inside_idle[of p t] w by (auto simp: inside18_def list18_holds_def)
  then show ?thesis using n enter_sort_free[of "list_of p"] by simp
qed simp

lemma thread_step_inv:
  assumes inv: "program18_inv p" and st: "subroutine18 t p = Inr p'"
  shows "program18_inv p'"
proof -
  have t: "t < 3"
  proof (rule ccontr)
    assume "\<not> t < 3"
    then have "threads p t = T_Unborn" using inv by (simp add: program18_inv_def)
    then show False using st by (simp add: subroutine18_def)
  qed
  note elsewhere = thread_elsewhere[OF inv t]
  show ?thesis
  proof (cases "threads p t")
    case (T_At pc)
    show ?thesis
    proof (cases "pc = Returned")
      case True
      then show ?thesis using st T_At elsewhere[of T_Naps "[Said 1 (context18 t)]"] by (auto simp: subroutine18_def)
    next
      case inside: False
      show ?thesis
      proof (cases "pc = Enter \<and> enter_sort (list_of p) = Inr None")
        case True
        then have "status (list_of p) \<noteq> FREE"
          by (auto simp: enter_sort_def bind_r_Inr_iff mutex_lock_Inr split: if_splits)
        then show ?thesis using st T_At True elsewhere[of T_Waits "[]"] by (auto simp: subroutine18_def)
      next
        case False
        obtain s where s: "sorter_step t (sorters_of p) = Inr s"
          and p': "p' = (let p' = p\<lparr>list_of := slist s, threads := (threads p)(t := T_At (spc s t))\<rparr>
             in if spc s t = Returned then broadcast18 p' else p')"
          using st T_At inside False by (auto simp: subroutine18_def bind_r_Inr_iff Let_def)
        let ?p = "p\<lparr>list_of := slist s, threads := (threads p)(t := T_At (spc s t))\<rparr>"
        let ?s = "if spc s t = Returned then s\<lparr>spc := (spc s)(t := Enter)\<rparr> else s"
        have m: "\<not> updates18 (main_at p)" using sorting_thread_step[OF inv T_At inside False] s by simp
        then obtain ss where ss: "listings (session_of p) ss" "length ss \<le> lines_read p" "sorting_at 3 ss (sorters_of p)"
          using inv by (auto simp: program18_inv_def outside18_def)
        have i: "sorting_at 3 ss s" using sorting_step[OF ss(3), of t] s by simp
        then have i': "sorting_at 3 ss ?s" using sorting_again[OF i _ t] by simp
        have u: "spc s u = (if u = t then spc s t else if u < 3 then pc_of (threads p u) else Returned)" for u
          using fun_cong[OF conjunct1[OF sorter_step_moves[OF s]], of u] by (simp add: sorters_of_def split: if_splits)
        have "spc (sorters_of ?p) v = spc ?s v" for v
          by (cases "v = t") (use u[of v] t in \<open>simp_all add: sorters_of_def\<close>)
        then have "sorters_of ?p = ?s" by (intro sorters.equality) auto
        then have o: "outside18 ?p" using ss i' unfolding outside18_def by auto
        have nw: "nobody_waits ?p" if "status (slist s) = FREE" "spc s t \<noteq> Returned"
        proof -
          have "t \<in> insiders s" using sorter_step_enters[OF s] that(2) by (simp add: insiders_def)
          then show ?thesis using sorting_frame(2)[OF i] that(1) by (auto split: if_splits)
        qed
        show ?thesis
          using inv o m nw t T_At unfolding p' Let_def program18_inv_def by (auto simp: not_le[symmetric])
      qed
    qed
  qed (use st elsewhere[of "T_At Enter" "[]"] elsewhere[of "T_At Enter" "[Said 2 (context18 t)]"] in \<open>auto simp: subroutine18_def\<close>)
qed

text \<open>What \<open>main\<close> has shown can always become a session.\<close>

definition session_ok :: "program18 \<Rightarrow> bool" where
  "session_ok p = (\<exists>es ss. listings (session_of p @ es) ss)"

lemma listings_ok: "listings (session_of p) ss \<Longrightarrow> session_ok p"
  unfolding session_ok_def by (rule exI[of _ "[]"]) auto

lemma program18_session: "program18_inv p \<Longrightarrow> session_ok p"
proof -
  assume inv: "program18_inv p"
  show ?thesis
  proof (cases "\<exists>it. main_at p = M_Print it")
    case True
    then obtain it h shown left where h: "session_of p = h @ Shown separator # map Shown shown" "listings h (shown @ left)"
      using inv by (auto simp: program18_inv_def inside18_def)
    then have "listings (session_of p @ map Shown left @ [Shown separator]) (shown @ left)"
      using list_shown[OF h(2)] by simp
    then show ?thesis unfolding session_ok_def by blast
  next
    case False
    then have "\<exists>ss. listings (session_of p) ss"
      using inv by (cases "main_at p") (auto simp: program18_inv_def inside18_def outside18_def)
    then show ?thesis using listings_ok by blast
  qed
qed

lemma c_string_ok: "cstring_ok (c_string bs)"
  by (auto simp: cstring_ok_def dest: set_takeWhileD)

lemma elsewhere_inv:
  assumes "program18_inv p" and "\<not> updates18 (main_at p)" and "\<not> updates18 m" and "main_line_ok m"
    and "\<And>i. m \<noteq> M_Create i" and "\<And>b. m = M_Wait b \<Longrightarrow> status (list_of p) \<noteq> FREE"
  shows "program18_inv (p\<lparr>main_at := m\<rparr>)"
  using assms by (auto simp: program18_inv_def outside18_def nobody_waits_def)

lemma main_enters:
  assumes inv: "program18_inv p" and m: "main_at p = M_Enter b" and l: "enter_update (list_of p) = Inr (Some l)"
    and m': "m' = (if length b = 1 then M_Header else M_Malloc b)"
  shows "program18_inv (p\<lparr>list_of := l, main_at := m'\<rparr>)"
proof -
  obtain ss where ss: "listings (session_of p) ss" "length ss \<le> lines_read p" "sorting_at 3 ss (sorters_of p)"
    using inv m by (auto simp: program18_inv_def outside18_def)
  have l': "status (list_of p) = FREE" "l = (list_of p)\<lparr>status := UPDATING\<rparr>"
    using l enter_update_free[of "list_of p"] sorting_frame(1)[OF ss(3)] by (auto split: if_splits)
  have none: "insiders (sorters_of p) = {}" using sorting_frame(2)[OF ss(3)] l'(1) by (auto split: if_splits)
  obtain cs where cs: "cs = ss \<or> cs = order_first ss" "list18_holds (list_of p) cs"
    using sorting_calm(1)[OF ss(3) none] by auto
  have "listings (session_of p) cs" "length cs \<le> lines_read p" "lines_ok cs"
    using cs(1) ss list_sorted length_order_first lines_ok_perm[OF order_first_perm] by (auto simp: sorting_at_def)
  moreover have "pc_of (threads p t) = Enter" for t
  proof (cases "t < 3")
    case True
    then show ?thesis using none by (cases "threads p t") (auto simp: insiders_def sorters_of_def dest: spec[of _ t])
  next
    case False
    then show ?thesis using inv by (simp add: program18_inv_def)
  qed
  ultimately have "inside18 (p\<lparr>list_of := l, main_at := m'\<rparr>)"
    using cs(2) l' sorting_calm(2)[OF ss(3) none] m' unfolding inside18_def by auto
  then show ?thesis using inv m m' l' by (auto simp: program18_inv_def)
qed

lemma main_leaves:
  assumes inv: "program18_inv p" and m: "main_at p = M_Leave" and l: "leave_update (list_of p) = Inr l"
    and m': "m' \<in> {M_Getline, M_End 0}"
  shows "outside18 (p\<lparr>list_of := l, lines_read := lines_read p + 1, main_at := m'\<rparr>)"
proof -
  obtain ss where ss: "listings (session_of p) ss" "length ss \<le> lines_read p + 1" "lines_ok ss" "list18_holds (list_of p) ss"
      "sorting_count (list_of p) = 0" "\<forall>t. pc_of (threads p t) = Enter"
    using inv m by (auto simp: program18_inv_def inside18_def)
  have l': "l = (list_of p)\<lparr>status := FREE\<rparr>" using l leave_update_free[OF holds18D(1)[OF ss(4)]] by simp
  have "sorting_at 3 ss (sorters_of (p\<lparr>list_of := l, lines_read := lines_read p + 1, main_at := m'\<rparr>))"
    by (rule sorting_begins) (use ss l' in \<open>auto simp: sorters_of_def fun_eq_iff\<close>)
  then show ?thesis using ss unfolding outside18_def by auto
qed

lemma main_pushes:
  assumes inv: "program18_inv p" and m: "main_at p = M_Malloc b" and a: "heap18 (list_of p) a = None"
    and l: "push_node18 (Some a) b (list_of p) = Inr ((), l)"
  shows "program18_inv (p\<lparr>list_of := l, main_at := M_Leave, history := history p @ [Entered b]\<rparr>)"
proof -
  obtain ss where ss: "listings (session_of p) ss" "length ss \<le> lines_read p" "lines_ok ss" "list18_holds (list_of p) ss"
      "status (list_of p) = UPDATING" "sorting_count (list_of p) = 0" "\<forall>t. pc_of (threads p t) = Enter"
    using inv m by (auto simp: program18_inv_def inside18_def)
  have b: "cstring_ok b" "lines_read p < LINES18" using inv m by (auto simp: program18_inv_def)
  then have small: "length ss + 1 < SIZE_MOD" using ss(2) by (simp add: LINES18_def SIZE_MOD_def)
  obtain as where c: "chain18 (heap18 (list_of p)) (term_next18 (list_of p)) as ss" using ss(4) by (auto simp: list18_holds_def)
  have "a \<notin> set as" using chain18_dom[OF c, of a] a by fastforce
  then have "list18_holds l (b # ss)" "status l = UPDATING" "sorting_count l = 0"
    using l ss c small by (auto simp: push_node18_def list18_holds_def chain18_other intro!: exI[of _ "a # as"])
  moreover have "listings (session_of p @ [Entered b]) (b # ss)" by (rule line_entered[OF ss(1)])
  ultimately have "inside18 (p\<lparr>list_of := l, main_at := M_Leave, history := history p @ [Entered b]\<rparr>)"
    using ss small b(1) unfolding inside18_def by (intro exI[of _ "b # ss"]) (simp add: lines_ok_def session_of_def)
  then show ?thesis using inv m \<open>status l = UPDATING\<close> by (auto simp: program18_inv_def)
qed

lemma main_opens:
  assumes inv: "program18_inv p" and m: "main_at p = M_Header"
  shows "program18_inv (p\<lparr>main_at := M_Print (term_next18 (list_of p)), history := history p @ [Shown separator]\<rparr>)"
proof -
  let ?p = "p\<lparr>main_at := M_Print (term_next18 (list_of p)), history := history p @ [Shown separator]\<rparr>"
  obtain ss where ss: "listings (session_of p) ss" and r: "length ss \<le> lines_read p" "lines_ok ss" "list18_holds (list_of p) ss"
      "status (list_of p) = UPDATING" "sorting_count (list_of p) = 0" "\<forall>t. pc_of (threads p t) = Enter"
    using inv m by (auto simp: program18_inv_def inside18_def)
  obtain as where c: "chain18 (heap18 (list_of p)) (term_next18 (list_of p)) as ss" using r(3) by (auto simp: list18_holds_def)
  have "shown_at (main_at ?p) (session_of ?p) (list_of ?p) ss"
    by simp (rule exI[of _ "session_of p"], rule exI[of _ "[]"], use ss c in \<open>auto simp: session_of_def\<close>)
  then have "inside18 ?p" using r unfolding inside18_def by (intro exI[of _ ss]) simp
  then show ?thesis using inv m by (auto simp: program18_inv_def nobody_waits_def)
qed

lemma main_prints:
  assumes inv: "program18_inv p" and m: "main_at p = M_Print it"
  shows "it = None \<Longrightarrow> program18_inv (p\<lparr>main_at := M_Leave, history := history p @ [Shown separator]\<rparr>)"
    and "it \<noteq> None \<Longrightarrow> \<exists>a n. node18 (list_of p) it = Inr (a, n) \<and>
      program18_inv (p\<lparr>main_at := M_Print (nxt18 n), history := history p @ [Shown (str18 n)]\<rparr>)"
proof -
  obtain ss h shown left as where ss: "session_of p = h @ Shown separator # map Shown shown" "listings h ss" "ss = shown @ left"
      "chain18 (heap18 (list_of p)) it as left" and r: "length ss \<le> lines_read p" "lines_ok ss" "list18_holds (list_of p) ss"
      "status (list_of p) = UPDATING" "sorting_count (list_of p) = 0" "\<forall>t. pc_of (threads p t) = Enter"
    using inv m by (auto simp: program18_inv_def inside18_def)
  show "program18_inv (p\<lparr>main_at := M_Leave, history := history p @ [Shown separator]\<rparr>)" if "it = None"
  proof -
    have "left = []" using ss(4) that by (cases as) auto
    then have "listings (session_of p @ [Shown separator]) ss" using list_shown[OF ss(2)] ss(1,3) by simp
    then have "inside18 (p\<lparr>main_at := M_Leave, history := history p @ [Shown separator]\<rparr>)"
      using r unfolding inside18_def by (intro exI[of _ ss]) (simp add: session_of_def)
    then show ?thesis using inv m by (auto simp: program18_inv_def nobody_waits_def)
  qed
  show "\<exists>a n. node18 (list_of p) it = Inr (a, n) \<and>
      program18_inv (p\<lparr>main_at := M_Print (nxt18 n), history := history p @ [Shown (str18 n)]\<rparr>)" if some: "it \<noteq> None"
  proof -
    obtain a as' where as: "as = a # as'" using ss(4) some by (cases as) auto
    then obtain n left' where n: "it = Some a" "heap18 (list_of p) a = Some n" "left = str18 n # left'"
        "chain18 (heap18 (list_of p)) (nxt18 n) as' left'" using ss(4) by auto
    let ?p = "p\<lparr>main_at := M_Print (nxt18 n), history := history p @ [Shown (str18 n)]\<rparr>"
    have "shown_at (M_Print (nxt18 n)) (session_of ?p) (list_of ?p) ss"
      unfolding shown_at.simps
      by (rule exI[of _ h], rule exI[of _ "shown @ [str18 n]"], rule exI[of _ left'], rule exI[of _ as'])
        (use ss(1-3) n(3,4) in \<open>simp add: session_of_def\<close>)
    then have "inside18 ?p" using r unfolding inside18_def by (intro exI[of _ ss]) simp
    then have "program18_inv ?p" using inv m by (auto simp: program18_inv_def nobody_waits_def)
    then show ?thesis using n by auto
  qed
qed

lemma main_step_inv:
  assumes inv: "program18_inv p" and ok: "input_ok18 inp (list_of p)" and st: "main18 inp p = Inr p'"
  shows "program18_inv p' \<or> \<not> running18 p' \<and> session_ok p'"
proof (cases "main_at p")
  case (M_Create i)
  then obtain rc where rc: "inp = Result_In rc" "rc = 0" using st
    by (cases inp) (auto simp: main18_def bind_r_Inr_iff ce_def)
  define m where "m = (if i + 1 < COUNT_OF_SORTING_THREADS then M_Create (i + 1) else M_SetMask)"
  have p': "p' = p\<lparr>threads := (threads p)(i := T_At Enter), main_at := m\<rparr>"
    using st M_Create rc by (simp add: main18_def m_def)
  have i: "i < 3" "threads p i = T_Unborn" "\<forall>t > i. threads p t = T_Unborn" using inv M_Create by (auto simp: program18_inv_def)
  have "pc_of (((threads p)(i := T_At Enter)) t) = pc_of (threads p t)" for t using i by simp
  then have "sorters_of p' = sorters_of p" unfolding p' by (auto simp: sorters_of_def fun_eq_iff)
  then have "outside18 p'" using inv M_Create unfolding outside18_def p' by (auto simp: program18_inv_def outside18_def)
  moreover have "\<not> updates18 m" "main_line_ok m" "\<forall>b. m \<noteq> M_Wait b" "\<forall>j. m = M_Create j \<longrightarrow> j = i + 1 \<and> j < 3"
    by (auto simp: m_def split: if_splits)
  ultimately show ?thesis using inv i M_Create unfolding p' by (auto simp: program18_inv_def nobody_waits_def)
next
  case (M_Enter b)
  then have inp: "inp = No_In" using st by (cases inp) (auto simp: main18_def)
  obtain r where r: "enter_update (list_of p) = Inr r" using st M_Enter inp by (auto simp: main18_def bind_r_Inr_iff)
  show ?thesis
  proof (cases r)
    case None
    then have "status (list_of p) \<noteq> FREE"
      using r by (auto simp: enter_update_def bind_r_Inr_iff mutex_lock_Inr split: if_splits)
    then show ?thesis using elsewhere_inv[OF inv, of "M_Wait b"] st M_Enter inp r None inv
      by (auto simp: main18_def program18_inv_def[of p])
  next
    case (Some l)
    then show ?thesis using main_enters[OF inv M_Enter _ refl, of l] st M_Enter inp r by (auto simp: main18_def)
  qed
next
  case (M_Print it)
  then have inp: "inp = No_In" using st by (cases inp) (auto simp: main18_def)
  show ?thesis
    using main_prints[OF inv M_Print] st M_Print inp by (cases "it = None") (auto simp: main18_def bind_r_Inr_iff)
next
  case (M_Malloc b)
  then obtain new where new: "inp = Block_In new" using st by (cases inp) (auto simp: main18_def)
  then obtain a l where "new = Some a" "push_node18 (Some a) b (list_of p) = Inr ((), l)"
      "p' = p\<lparr>list_of := l, main_at := M_Leave, history := history p @ [Entered b]\<rparr>"
    using st M_Malloc by (cases new) (auto simp: main18_def bind_r_Inr_iff push_node18_def)
  then show ?thesis using main_pushes[OF inv M_Malloc, of a l] ok new by simp
next
  case M_Leave
  then have inp: "inp = No_In" using st by (cases inp) (auto simp: main18_def)
  obtain l where l: "leave_update (list_of p) = Inr l" "p' = broadcast18 (p\<lparr>list_of := l, lines_read := lines_read p + 1,
      main_at := (if lines_read p + 1 < LINES18 then M_Getline else M_End 0)\<rparr>)"
    using st M_Leave inp by (auto simp: main18_def bind_r_Inr_iff)
  define m where "m = (if lines_read p + 1 < LINES18 then M_Getline else M_End 0)"
  let ?p = "p\<lparr>list_of := l, lines_read := lines_read p + 1, main_at := m\<rparr>"
  have p': "p' = broadcast18 ?p" using l(2) m_def by simp
  have o: "outside18 ?p" by (rule main_leaves[OF inv M_Leave l(1)]) (simp add: m_def)
  show ?thesis
  proof (cases "lines_read p + 1 < LINES18")
    case True
    then have m: "m = M_Getline" by (simp add: m_def)
    then have "program18_inv p'" using o inv True p' by (simp add: program18_inv_def)
    then show ?thesis by simp
  next
    case False
    then have "main_at p' = M_End 0" using p' by (simp add: broadcast18_def m_def)
    moreover have "session_ok p'" using o p' listings_ok by (auto simp: outside18_def session_ok_def intro: exI[of _ "[]"])
    ultimately show ?thesis by (simp add: running18_def)
  qed
next
  case M_Header
  then have "p' = p\<lparr>main_at := M_Print (term_next18 (list_of p)), history := history p @ [Shown separator]\<rparr>"
    using st by (cases inp) (auto simp: main18_def)
  then show ?thesis using main_opens[OF inv M_Header] by simp
next
  case M_SetMask
  then show ?thesis using st elsewhere_inv[OF inv, of M_SetAction] by (cases inp) (auto simp: main18_def bind_r_Inr_iff)
next
  case M_SetAction
  then show ?thesis using st elsewhere_inv[OF inv, of M_Getline] by (cases inp) (auto simp: main18_def bind_r_Inr_iff)
next
  case M_Getline
  then obtain bs where "p' = p\<lparr>main_at := M_Enter (c_string bs)\<rparr>" using st by (cases inp) (auto simp: main18_def)
  then show ?thesis using elsewhere_inv[OF inv, of "M_Enter (c_string bs)"] M_Getline c_string_ok[of bs] by simp
next
  case (M_Wait b)
  then show ?thesis using st elsewhere_inv[OF inv, of "M_Enter b"] inv by (cases inp) (auto simp: main18_def program18_inv_def[of p])
qed (use st in \<open>simp_all add: main18_def\<close>)

section \<open>Runs of the program\<close>

lemma program18_start_inv: "program18_starts p \<Longrightarrow> program18_inv p"
proof -
  assume st: "program18_starts p"
  then have l: "list_of p = list_init18 (list_of p)" by (simp add: program18_starts_def)
  have "list18_holds (list_init18 (list_of p)) []" by (auto simp: list18_holds_def list_init18_def intro!: exI[of _ "[]"])
  then have h: "list18_holds (list_of p) []" using l by simp
  have "status (list_init18 (list_of p)) = FREE" "sorting_count (list_init18 (list_of p)) = 0" by simp_all
  then have s: "status (list_of p) = FREE" "sorting_count (list_of p) = 0" using l by simp_all
  have th: "threads p = (\<lambda>_. T_Unborn)" using st by (simp add: program18_starts_def)
  have "sorting_at 3 [] (sorters_of p)"
    by (rule sorting_begins) (use h s th in \<open>auto simp: lines_ok_def sorters_of_def fun_eq_iff\<close>)
  then show ?thesis using st th no_lines
    by (auto simp: program18_inv_def outside18_def program18_starts_def session_of_def nobody_waits_def LINES18_def)
qed

definition program18_good :: "program18 \<Rightarrow> bool" where
  "program18_good p = (session_ok p \<and> (running18 p \<longrightarrow> program18_inv p))"

lemma program18_good_step: "program18_good p \<Longrightarrow> step_program18 p p' \<Longrightarrow> program18_good p'"
proof (erule step_program18E)
  fix t assume g: "program18_good p" and "running18 p" "subroutine18 t p = Inr p'"
  then have "program18_inv p'" using thread_step_inv[of p t p'] by (simp add: program18_good_def)
  then show ?thesis using program18_session by (simp add: program18_good_def)
next
  fix inp assume g: "program18_good p" and "running18 p" "input_ok18 inp (list_of p)" "main18 inp p = Inr p'"
  then have "program18_inv p' \<or> \<not> running18 p' \<and> session_ok p'" using main_step_inv[of p inp p'] by (simp add: program18_good_def)
  then show ?thesis using program18_session by (auto simp: program18_good_def)
next
  assume g: "program18_good p" and p': "p' = sigint_handler18 p"
  have "session_of p' = session_of p" "\<not> running18 p'"
    unfolding p' by (simp_all add: sigint_handler18_def running18_def split: main_pc18.splits)
  then show ?thesis using g by (simp add: program18_good_def session_ok_def)
qed

interpretation prog18: safe_system program18_starts step_program18 program18_good
proof unfold_locales
  show "program18_good p" if "program18_starts p" for p
    using program18_start_inv[OF that] program18_session by (simp add: program18_good_def)
qed (rule program18_good_step)

text \<open>The only fault: a sorting thread that finds the list empty.\<close>

lemma program18_fault:
  assumes inv: "program18_inv p" and f: "subroutine18 t p = Inl f"
  shows "f = Diverge \<or> f = Undefined \<and> entered_lines (session_of p) = []"
proof -
  have "\<exists>pc. threads p t = T_At pc \<or> threads p t = T_Unborn" using f by (cases "threads p t") (auto simp: subroutine18_def)
  then obtain pc where pc: "threads p t = T_At pc \<or> threads p t = T_Unborn" by blast
  show ?thesis
  proof (cases "threads p t = T_Unborn")
    case False
    then have w: "threads p t = T_At pc" "pc \<noteq> Returned" "\<not> (pc = Enter \<and> enter_sort (list_of p) = Inr None)"
      and s: "sorter_step t (sorters_of p) = Inl f"
      using pc f by (auto simp: subroutine18_def Let_def bind_r_Inl_iff split: if_splits)
    show ?thesis
    proof (cases "updates18 (main_at p)")
      case True
      then show ?thesis using sorting_thread_step[OF inv w] s by simp
    next
      case False
      then obtain ss where ss: "listings (session_of p) ss" "sorting_at 3 ss (sorters_of p)"
        using inv by (auto simp: program18_inv_def outside18_def)
      then show ?thesis using sorting_step[OF ss(2), of t] s listings_perm[OF ss(1)] by auto
    qed
  qed (use f in \<open>simp add: subroutine18_def\<close>)
qed

lemma main18_fault:
  assumes inv: "program18_inv p" and f: "main18 inp p = Inl f"
  shows "f = Diverge \<or> f = Exit"
proof (cases "updates18 (main_at p)")
  case True
  then have i: "inside18 p" using inv by (simp add: program18_inv_def)
  then have m: "mutex18 (list_of p) = Unlocked" by (auto simp: inside18_def list18_holds_def)
  show ?thesis
  proof (cases "main_at p")
    case (M_Print it)
    then show ?thesis using main_prints(2)[OF inv M_Print] f
      by (cases inp; cases "it = None") (auto simp: main18_def bind_r_Inl_iff)
  qed (use f True m leave_update_free[OF m] in
      \<open>cases inp; auto simp: main18_def bind_r_Inl_iff push_node18_def split: option.splits\<close>)+
next
  case False
  then have m: "mutex18 (list_of p) = Unlocked" using inv outside_status by (simp add: program18_inv_def)
  show ?thesis
    by (cases "main_at p"; use f False enter_update_free[OF m] in
      \<open>cases inp; auto simp: main18_def bind_r_Inl_iff ce_def assert_r_def split: if_splits option.splits\<close>)
qed

text \<open>Whoever is inside can go on.\<close>

definition in_sort :: "thread18 \<Rightarrow> bool" where
  "in_sort w = (\<exists>pc. w = T_At pc \<and> pc \<noteq> Enter \<and> pc \<noteq> Returned)"

lemma program18_progress:
  assumes inv: "program18_inv p" and st: "status (list_of p) \<noteq> FREE"
  shows "(\<exists>t. in_sort (threads p t) \<and> subroutine18 t p \<noteq> Inl Diverge) \<or>
    updates18 (main_at p) \<and> (\<exists>inp. input_ok18 inp (list_of p) \<and> main18 inp p \<noteq> Inl Diverge)"
proof (cases "updates18 (main_at p)")
  case True
  then have i: "inside18 p" using inv by (simp add: program18_inv_def)
  then have m: "mutex18 (list_of p) = Unlocked" by (auto simp: inside18_def list18_holds_def)
  have "\<exists>inp. input_ok18 inp (list_of p) \<and> main18 inp p \<noteq> Inl Diverge"
  proof (cases "main_at p")
    case (M_Print it)
    then show ?thesis using main_prints(2)[OF inv M_Print]
      by (intro exI[of _ No_In]) (cases "it = None"; auto simp: main18_def)
  next
    case (M_Malloc b)
    then show ?thesis by (intro exI[of _ "Block_In None"]) (simp add: main18_def push_node18_def)
  next
    case M_Header
    then show ?thesis by (intro exI[of _ No_In]) (simp add: main18_def)
  next
    case M_Leave
    then show ?thesis using leave_update_free[OF m] by (intro exI[of _ No_In]) (simp add: main18_def)
  qed (use True in simp_all)
  then show ?thesis using True by blast
next
  case False
  then have o: "outside18 p" using inv by (simp add: program18_inv_def)
  then obtain ss where ss: "sorting_at 3 ss (sorters_of p)" by (auto simp: outside18_def)
  obtain u where "u \<in> insiders (sorters_of p)" using outside_status(2)[OF o] st by (auto split: if_splits)
  then obtain t where t: "t \<in> insiders (sorters_of p)" "sorter_step t (sorters_of p) \<noteq> Inl Diverge"
    using sorting_progress[OF ss] by blast
  then obtain pc where pc: "threads p t = T_At pc" "pc \<noteq> Enter" "pc \<noteq> Returned"
    by (cases "threads p t") (auto simp: insiders_def sorters_of_def split: if_splits)
  then have "subroutine18 t p \<noteq> Inl Diverge" using t(2) by (auto simp: subroutine18_def Let_def bind_r_Inl_iff)
  then show ?thesis using pc by (auto simp: in_sort_def)
qed

lemma updates_alone: "program18_inv p \<Longrightarrow> updates18 (main_at p) \<Longrightarrow> \<not> in_sort (threads p t)"
  using inside_idle[of p t] by (auto simp: program18_inv_def in_sort_def)

lemma program18_calm:
  assumes inv: "program18_inv p" and st: "status (list_of p) = FREE"
  shows "nobody_waits p \<and>
    (\<exists>ss. listings (session_of p) ss \<and> mset ss = mset (entered_lines (session_of p)) \<and> list18_holds (list_of p) ss)"
proof -
  have o: "outside18 p" using inv st by (auto simp: program18_inv_def inside18_def split: if_splits)
  then obtain ss where ss: "listings (session_of p) ss" "sorting_at 3 ss (sorters_of p)" by (auto simp: outside18_def)
  have "insiders (sorters_of p) = {}" using outside_status(2)[OF o] st by (auto split: if_splits)
  then obtain cs where "cs = ss \<or> cs = order_first ss" "list18_holds (list_of p) cs"
    using sorting_calm(1)[OF ss(2)] by auto
  then have "listings (session_of p) cs" "list18_holds (list_of p) cs" using ss(1) list_sorted by auto
  then show ?thesis using inv st listings_perm by (auto simp: program18_inv_def)
qed

section \<open>Concrete runs\<close>

datatype action18 = A_Thread nat | A_Main input18 | A_Signal

definition act18 :: "action18 \<Rightarrow> program18 \<Rightarrow> program18 res" where
  "act18 a p = (if \<not> running18 p then Inl Diverge else case a of
     A_Thread t \<Rightarrow> subroutine18 t p
   | A_Main inp \<Rightarrow> if input_ok18 inp (list_of p) then main18 inp p else Inl Diverge
   | A_Signal \<Rightarrow> Inr (sigint_handler18 p))"

fun run18 :: "action18 list \<Rightarrow> program18 \<Rightarrow> program18 res" where
  "run18 [] p = Inr p"
| "run18 (a # as) p = bind_r (act18 a p) (run18 as)"

lemma act18_step: "act18 a p = Inr p' \<Longrightarrow> step_program18 p p'"
  by (auto simp: act18_def intro: step_program18.intros split: action18.splits if_splits)

lemma run18_steps: "run18 as p = Inr p' \<Longrightarrow> step_program18\<^sup>*\<^sup>* p p'"
  by (induction as arbitrary: p) (auto simp: bind_r_Inr_iff intro: act18_step converse_rtranclp_into_rtranclp)

lemma reachable_steps: "reachable start step s \<Longrightarrow> step\<^sup>*\<^sup>* s s' \<Longrightarrow> reachable start step s'"
  by (rotate_tac, induction rule: rtranclp_induct) (auto intro: reach_step)

definition program18_begin :: program18 where
  "program18_begin = \<lparr>list_of = \<lparr>term_next18 = None, term_mutex = Unlocked, count18 = 0, mutex18 = Unlocked,
     sorting_count = 0, status = FREE, heap18 = Map.empty\<rparr>, threads = (\<lambda>_. T_Unborn), main_at = M_Create 0,
     lines_read = 0, history = []\<rparr>"

lemma program18_begins: "program18_starts program18_begin"
  by (simp add: program18_starts_def program18_begin_def list_init18_def)

lemmas run18_simps = act18_def running18_def subroutine18_def main18_def sorters_of_def sorter_step_def enter_sort_free
  leave_sort_free enter_update_free leave_update_free moves_to_def push_node18_def broadcast18_def context18_def
  node18_def sigint_handler18_def Let_def

definition start_up18 :: "action18 list" where
  "start_up18 = replicate 5 (A_Main (Result_In 0))"

definition pushes18 :: "char list \<Rightarrow> nat \<Rightarrow> action18 list" where
  "pushes18 b a = [A_Main (Line_In b), A_Main No_In, A_Main (Block_In (Some a)), A_Main No_In]"

text \<open>A thread that comes before the first line uses a null pointer.\<close>

lemma empty_list_faults:
  "\<exists>p. run18 [A_Main (Result_In 0), A_Thread 0, A_Thread 0] program18_begin = Inr p \<and> subroutine18 0 p = Inl Undefined"
  by (simp add: run18_simps program18_begin_def sz_sub_def SIZE_MOD_def lock_first_def)

text \<open>One line, and the second thread asleep: \<open>u\<close> is in \<open>sort_list\<close>, \<open>v\<close> about to enter it, \<open>main\<close> wants to add a line.\<close>

definition crowded18 :: "list18_t \<Rightarrow> nat \<Rightarrow> nat \<Rightarrow> char list \<Rightarrow> event18 list \<Rightarrow> program18" where
  "crowded18 l u v b h = \<lparr>list_of = l, threads = (\<lambda>_. T_Unborn)(2 := T_Naps, u := T_At (Pass 0), v := T_At Enter),
     main_at = M_Enter b, lines_read = 1, history = h\<rparr>"

lemma crowded18_turn:
  assumes "u < 2" and "v < 2" and "u \<noteq> v" and l: "mutex18 l = Unlocked" "status l = SORTING" "sorting_count l = 1" "count18 l = 1"
  shows "run18 [A_Thread v, A_Main No_In, A_Thread u, A_Thread u, A_Thread u] (crowded18 l u v b h) =
    Inr (crowded18 l v u b (h @ [Said 1 (context18 u), Said 2 (context18 u)]))"
proof -
  have one: "sz_sub (Suc 0) (Suc 0) = 0" using sz_sub_small[of 1 1] by (simp add: SIZE_MOD_def)
  have same: "l\<lparr>status := SORTING, sorting_count := 1\<rparr> = l" "l\<lparr>sorting_count := 1\<rparr> = l" "l\<lparr>status := SORTING\<rparr> = l"
    using l by (auto intro: list18_t.equality)
  show ?thesis using assms one same
    by (simp add: run18_simps crowded18_def) (auto simp: fun_eq_iff)
qed

definition crowd18 :: "event18 list" where
  "crowd18 = [Said 1 (context18 0), Said 2 (context18 0), Said 1 (context18 1), Said 2 (context18 1)]"

lemma crowded18_rounds:
  assumes "mutex18 l = Unlocked" "status l = SORTING" "sorting_count l = 1" "count18 l = 1"
  shows "step_program18\<^sup>*\<^sup>* (crowded18 l 0 1 b h) (crowded18 l 0 1 b (h @ concat (replicate n crowd18)))"
proof (induction n arbitrary: h)
  case 0
  then show ?case by simp
next
  case (Suc n)
  have "step_program18\<^sup>*\<^sup>* (crowded18 l 0 1 b h) (crowded18 l 1 0 b (h @ [Said 1 (context18 0), Said 2 (context18 0)]))"
    by (rule run18_steps[OF crowded18_turn]) (use assms in simp_all)
  moreover have "step_program18\<^sup>*\<^sup>* (crowded18 l 1 0 b (h @ [Said 1 (context18 0), Said 2 (context18 0)])) (crowded18 l 0 1 b (h @ crowd18))"
    using run18_steps[OF crowded18_turn[of 1 0 l b "h @ [Said 1 (context18 0), Said 2 (context18 0)]"]] assms
    by (simp add: crowd18_def)
  ultimately have "step_program18\<^sup>*\<^sup>* (crowded18 l 0 1 b h) (crowded18 l 0 1 b (h @ crowd18))" by (rule rtranclp_trans)
  then show ?case using Suc.IH[of "h @ crowd18"] by (simp add: rtranclp_trans)
qed

definition one_line18 :: "char list \<Rightarrow> list18_t" where
  "one_line18 b = \<lparr>term_next18 = Some 0, term_mutex = Unlocked, count18 = 1, mutex18 = Unlocked,
     sorting_count = 1, status = SORTING, heap18 = [0 \<mapsto> \<lparr>nxt18 = None, nmutex = Unlocked, str18 = b\<rparr>]\<rparr>"

text \<open>The run up to there: the start, the first line, the third thread, the next line.\<close>

lemma run18_append: "run18 (as @ bs) p = bind_r (run18 as p) (run18 bs)"
proof (induction as arbitrary: p)
  case (Cons a as)
  then have "run18 (as @ bs) = (\<lambda>p. bind_r (run18 as p) (run18 bs))" by blast
  then show ?case by (simp add: bind_r_assoc)
qed simp

definition all18 :: "thread18 \<Rightarrow> nat \<Rightarrow> thread18" where
  "all18 w t = (if t < 3 then w else T_Unborn)"

lemma start_up18_run:
  "run18 start_up18 program18_begin = Inr (program18_begin\<lparr>threads := all18 (T_At Enter), main_at := M_Getline\<rparr>)"
  by (simp add: start_up18_def eval_nat_numeral run18_simps program18_begin_def)
    (auto simp: all18_def fun_eq_iff)

definition free18 :: "char list \<Rightarrow> list18_t" where
  "free18 b = (one_line18 b)\<lparr>status := FREE, sorting_count := 0\<rparr>"

lemma first_push18_run:
  assumes "length (c_string b) \<noteq> 1"
  shows "run18 (pushes18 b 0) (program18_begin\<lparr>threads := all18 (T_At Enter), main_at := M_Getline\<rparr>) =
    Inr \<lparr>list_of = free18 (c_string b), threads = all18 (T_At Enter), main_at = M_Getline, lines_read = 1, history = [Entered (c_string b)]\<rparr>"
  using assms
  by (simp add: pushes18_def run18_simps program18_begin_def free18_def one_line18_def LINES18_def)
    (auto simp: all18_def fun_eq_iff sz_add_def SIZE_MOD_def)

lemma third_thread18_run:
  "run18 [A_Thread 2, A_Thread 2, A_Thread 2, A_Thread 0, A_Main (Line_In b)]
     \<lparr>list_of = free18 s, threads = all18 (T_At Enter), main_at = M_Getline, lines_read = 1, history = h\<rparr> =
   Inr (crowded18 (one_line18 s) 0 1 (c_string b) (h @ [Said 1 (context18 2)]))"
proof -
  have one: "sz_sub (Suc 0) (Suc 0) = 0" using sz_sub_small[of 1 1] by (simp add: SIZE_MOD_def)
  show ?thesis
    by (simp add: run18_simps one free18_def one_line18_def crowded18_def all18_def)
      (auto simp: fun_eq_iff all18_def)
qed

text \<open>
  Two threads that take turns in \<open>sort_list\<close> keep \<open>main\<close> from adding a line for as long as they like:
  it looks at the status in every turn, and finds it \<open>SORTING\<close>.
\<close>

lemma update_starves:
  assumes "length (c_string s) \<noteq> 1"
  shows "reachable program18_starts step_program18
    (crowded18 (one_line18 (c_string s)) 0 1 (c_string b)
      ([Entered (c_string s), Said 1 (context18 2)] @ concat (replicate n crowd18)))"
proof -
  have "run18 (start_up18 @ pushes18 s 0 @ [A_Thread 2, A_Thread 2, A_Thread 2, A_Thread 0, A_Main (Line_In b)]) program18_begin =
      Inr (crowded18 (one_line18 (c_string s)) 0 1 (c_string b) [Entered (c_string s), Said 1 (context18 2)])"
    using third_thread18_run[of b "c_string s" "[Entered (c_string s)]"]
    by (simp only: run18_append start_up18_run first_push18_run[OF assms] bind_r_simps append.simps)
  then have "step_program18\<^sup>*\<^sup>* program18_begin
      (crowded18 (one_line18 (c_string s)) 0 1 (c_string b) [Entered (c_string s), Said 1 (context18 2)])"
    by (rule run18_steps)
  moreover have "step_program18\<^sup>*\<^sup>* \<dots>
      (crowded18 (one_line18 (c_string s)) 0 1 (c_string b)
        ([Entered (c_string s), Said 1 (context18 2)] @ concat (replicate n crowd18)))"
    by (rule crowded18_rounds) (simp_all add: one_line18_def)
  ultimately show ?thesis using program18_begins reach_start[where start = program18_starts]
    by (blast intro: reachable_steps)
qed

end
