(* ===== verification/Ping_Pong.thy ===== *)
theory Ping_Pong
  imports Transition
begin

text \<open>
  \<open>task14.c\<close> and \<open>task16/task16a.c\<close>: two threads, or two processes, print in turn, each waiting on its
  own semaphore and posting the other's. The number of rounds is a parameter, 10 in one program
  and 10000000 in the other.
\<close>

datatype player = Ping | Pong

fun other :: "player \<Rightarrow> player" where
  "other Ping = Pong"
| "other Pong = Ping"

datatype pp_pc = Waits | Prints | Posts

record pp_t =
  sem :: "player \<Rightarrow> nat"
  loops :: "player \<Rightarrow> nat"
  pp_at :: "player \<Rightarrow> pp_pc"
  out :: "player list"

definition LOOPS14 :: nat where
  "LOOPS14 = 10"

definition LOOPS16 :: nat where
  "LOOPS16 = 10000000"

text \<open>\<open>intsf_sem_wait\<close>: the results of \<open>sem_wait\<close> with \<open>errno\<close>, in order; \<open>None\<close> while it still waits.\<close>

definition EINTR :: int where
  "EINTR = 4"

fun intsf_sem_wait :: "(int \<times> int) list \<Rightarrow> int option" where
  "intsf_sem_wait [] = None"
| "intsf_sem_wait ((rc, errno) # rs) =
     (if rc = -1 then (if errno \<noteq> EINTR then Some (-1) else intsf_sem_wait rs) else Some 0)"

text \<open>\<open>sem_open(name, O_CREAT, mode, value)\<close> ignores \<open>value\<close> when the name exists already.\<close>

definition sem_open :: "nat option \<Rightarrow> nat \<Rightarrow> nat" where
  "sem_open existing value = (case existing of None \<Rightarrow> value | Some v \<Rightarrow> v)"

definition pp_start :: "nat \<Rightarrow> nat \<Rightarrow> pp_t" where
  "pp_start v1 v2 = \<lparr>sem = (\<lambda>p. case p of Ping \<Rightarrow> v1 | Pong \<Rightarrow> v2), loops = (\<lambda>_. 0),
     pp_at = (\<lambda>_. Waits), out = []\<rparr>"

definition main14 :: pp_t where
  "main14 = pp_start 1 0"

definition main16 :: "nat option \<Rightarrow> nat option \<Rightarrow> pp_t" where
  "main16 sem1 sem2 = pp_start (sem_open sem1 1) (sem_open sem2 0)"

text \<open>The loop of \<open>subroutine\<close>; \<open>None\<close> while the semaphore is 0, and after the last round.\<close>

definition pp_subroutine :: "nat \<Rightarrow> player \<Rightarrow> pp_t \<Rightarrow> pp_t option" where
  "pp_subroutine n p s = (case pp_at s p of
     Waits \<Rightarrow>
       if loops s p < n \<and> 0 < sem s p
       then Some (s\<lparr>sem := (sem s)(p := sem s p - 1), pp_at := (pp_at s)(p := Prints)\<rparr>) else None
   | Prints \<Rightarrow> Some (s\<lparr>out := out s @ [p], pp_at := (pp_at s)(p := Posts)\<rparr>)
   | Posts \<Rightarrow> Some (s\<lparr>sem := (sem s)(other p := sem s (other p) + 1), pp_at := (pp_at s)(p := Waits),
       loops := (loops s)(p := loops s p + 1)\<rparr>))"

inductive pp_step :: "nat \<Rightarrow> pp_t \<Rightarrow> pp_t \<Rightarrow> bool" for n where
  pp_step: "pp_subroutine n p s = Some s' \<Longrightarrow> pp_step n s s'"

inductive_cases pp_stepE: "pp_step n s s'"

definition pp_finished :: "nat \<Rightarrow> pp_t \<Rightarrow> bool" where
  "pp_finished n s = (\<forall>p. pp_at s p = Waits \<and> loops s p = n)"

text \<open>The output the program is meant to have.\<close>

fun turns :: "nat \<Rightarrow> player list" where
  "turns 0 = []"
| "turns (Suc k) = turns k @ [if even k then Ping else Pong]"

text \<open>Player \<open>p\<close> has the turn: the other one waits on a semaphore that is 0.\<close>

definition has_turn :: "nat \<Rightarrow> player \<Rightarrow> pp_t \<Rightarrow> bool" where
  "has_turn n p s =
     (pp_at s (other p) = Waits \<and> sem s (other p) = 0 \<and>
      loops s Ping = loops s Pong + (if p = Ping then 0 else 1) \<and> loops s Ping \<le> n \<and>
      (pp_at s p \<noteq> Waits \<longrightarrow> loops s p < n) \<and>
      sem s p = (if pp_at s p = Waits then 1 else 0) \<and>
      out s = turns (loops s Ping + loops s Pong + (if pp_at s p = Posts then 1 else 0)))"

definition pp_inv :: "nat \<Rightarrow> pp_t \<Rightarrow> bool" where
  "pp_inv n s = (\<exists>p. has_turn n p s)"

fun pp_place :: "pp_pc \<Rightarrow> nat" where
  "pp_place Waits = 0"
| "pp_place Prints = 1"
| "pp_place Posts = 2"

definition pp_work :: "nat \<Rightarrow> pp_t \<Rightarrow> nat" where
  "pp_work n s = 6 * n -
     (3 * loops s Ping + pp_place (pp_at s Ping) + 3 * loops s Pong + pp_place (pp_at s Pong))"

lemma other_neq [simp]: "other p \<noteq> p" "p \<noteq> other p" "other (other p) = p"
  by (cases p; simp)+

text \<open>Only the player whose turn it is can move, and its post hands the turn over.\<close>

lemma turn_moves:
  assumes "has_turn n p s" and "pp_subroutine n q s = Some s'"
  shows "q = p \<and> has_turn n (if pp_at s p = Posts then other p else p) s' \<and> pp_work n s' < pp_work n s"
proof -
  have q: "q = p"
  proof (rule ccontr)
    assume "q \<noteq> p"
    then have "q = other p" by (cases q; cases p) auto
    then show False using assms by (auto simp: has_turn_def pp_subroutine_def)
  qed
  show ?thesis
  proof (cases "pp_at s p")
    case Waits
    then have "loops s p < n" "s' = s\<lparr>sem := (sem s)(p := sem s p - 1), pp_at := (pp_at s)(p := Prints)\<rparr>"
      using assms(2) q by (simp_all add: pp_subroutine_def split: if_splits)
    then show ?thesis using assms(1) q Waits
      by (cases p) (auto simp: has_turn_def pp_work_def intro!: diff_less_mono2)
  next
    case Prints
    then have "s' = s\<lparr>out := out s @ [p], pp_at := (pp_at s)(p := Posts)\<rparr>"
      using assms(2) q by (simp add: pp_subroutine_def)
    then show ?thesis using assms(1) q Prints
      by (cases p) (auto simp: has_turn_def pp_work_def intro!: diff_less_mono2)
  next
    case Posts
    then have "s' = s\<lparr>sem := (sem s)(other p := sem s (other p) + 1), pp_at := (pp_at s)(p := Waits),
        loops := (loops s)(p := loops s p + 1)\<rparr>"
      using assms(2) q by (simp add: pp_subroutine_def)
    then show ?thesis using assms(1) q Posts
      by (cases p) (auto simp: has_turn_def pp_work_def intro!: diff_less_mono2)
  qed
qed

lemma turn_progress: "has_turn n p s \<Longrightarrow> \<not> pp_finished n s \<Longrightarrow> \<exists>s'. pp_subroutine n p s = Some s'"
proof (cases "pp_at s p")
  case Waits
  assume t: "has_turn n p s" "\<not> pp_finished n s"
  have "loops s p < n"
  proof (rule ccontr)
    assume "\<not> loops s p < n"
    then have "pp_at s q = Waits \<and> loops s q = n" for q using t(1) Waits unfolding has_turn_def
      by (cases p; cases q) simp_all
    then show False using t(2) by (simp add: pp_finished_def)
  qed
  then show ?thesis using t(1) Waits by (simp add: pp_subroutine_def has_turn_def)
qed (simp_all add: pp_subroutine_def)

interpretation pp: terminating_system "\<lambda>s. s = main14" "pp_step n" "pp_inv n" "pp_finished n" "pp_work n" for n
proof
  show "pp_inv n s" if "s = main14" for s
    using that by (auto simp: pp_inv_def has_turn_def main14_def pp_start_def intro: exI[of _ Ping])
  show "pp_inv n s'" if "pp_inv n s" "pp_step n s s'" for s s'
    using that turn_moves unfolding pp_inv_def by (blast elim: pp_stepE)
  show "\<exists>s'. pp_step n s s'" if "pp_inv n s" "\<not> pp_finished n s" for s
    using that turn_progress unfolding pp_inv_def by (blast intro: pp_step.intros)
  show "pp_work n s' < pp_work n s" if "pp_inv n s" "pp_step n s s'" for s s'
    using that turn_moves unfolding pp_inv_def by (blast elim: pp_stepE)
qed

lemma finished_output: "pp_inv n s \<Longrightarrow> pp_finished n s \<Longrightarrow> out s = turns (2 * n) \<and> sem s Ping = 1 \<and> sem s Pong = 0"
  unfolding pp_inv_def has_turn_def pp_finished_def
  by (elim exE) (rename_tac p, case_tac p; auto simp: mult_2)

lemma pp_inv_output: "pp_inv n s \<Longrightarrow> \<exists>k \<le> 2 * n. out s = turns k"
proof -
  assume "pp_inv n s"
  then obtain p where t: "has_turn n p s" by (auto simp: pp_inv_def)
  let ?k = "loops s Ping + loops s Pong + (if pp_at s p = Posts then 1 else 0)"
  have "?k \<le> 2 * n" "out s = turns ?k" using t by (cases p; auto simp: has_turn_def)+
  then show ?thesis by blast
qed

lemma fresh_names: "main16 None None = main14"
  by (simp add: main16_def main14_def sem_open_def)

text \<open>A semaphore \<open>/sem1\<close> left behind with value 0 blocks both processes at once.\<close>

lemma stale_name_blocks: "\<not> pp_step n (main16 (Some 0) None) s"
  by (auto simp: main16_def sem_open_def pp_start_def pp_subroutine_def elim!: pp_stepE split: player.splits if_splits)

text \<open>Interrupted waits are retried: only the first result other than an interruption counts.\<close>

lemma sem_wait_retries:
  "\<forall>r \<in> set rs. r = (-1, EINTR) \<Longrightarrow> intsf_sem_wait (rs @ (0, e) # rs') = Some 0"
  by (induction rs) auto

end
