(* ===== verification/Ping_Processes.thy ===== *)
theory Ping_Processes
  imports Ping_Pong
begin

text \<open>
  \<open>task16/task16a.c\<close>: the players as processes on named semaphores, from \<open>sem_open\<close> to the end of both
  processes. The parent is \<open>Ping\<close>. A name left behind keeps the value of its semaphore.
\<close>

section \<open>State\<close>

datatype proc_pc = Playing | Unlinks1 | Unlinks2 | Waiting | Exited int

record procs_t =
  game :: pp_t
  named :: "player \<Rightarrow> bool"
  proc_at :: "player \<Rightarrow> proc_pc"

text \<open>What the calls before the game return: both \<open>sem_open\<close>, \<open>sem_unlink\<close> and \<open>fork\<close>.\<close>

record start16_env =
  opens1 :: bool
  opens2 :: bool
  unlinks :: bool
  fork_pid :: int

text \<open>The exit status with the names that exist, or the two processes.\<close>

definition begin16 :: "start16_env \<Rightarrow> (player \<Rightarrow> nat option) \<Rightarrow> int \<times> (player \<Rightarrow> bool) + procs_t" where
  "begin16 e old =
     (let exists = (\<lambda>p. old p \<noteq> None) in
      if \<not> opens1 e then Inl (1, exists)
      else if \<not> opens2 e then Inl (1, exists(Ping := \<not> unlinks e))
      else if fork_pid e = -1 then Inl (1, \<lambda>p. \<not> unlinks e)
      else Inr \<lparr>game = main16 (old Ping) (old Pong), named = (\<lambda>_. True), proc_at = (\<lambda>_. Playing)\<rparr>)"

section \<open>Steps\<close>

definition at_pc :: "player \<Rightarrow> proc_pc \<Rightarrow> procs_t \<Rightarrow> procs_t" where
  "at_pc p pc s = s\<lparr>proc_at := (proc_at s)(p := pc)\<rparr>"

text \<open>
  The end of the loop: the child removes the names and exits with 1, the parent waits. \<open>wait\<close>
  returns the child's number \<open>pid\<close>, which \<open>CE\<close> takes for an error.
\<close>

definition after_wait :: "int \<Rightarrow> proc_pc" where
  "after_wait rc = (if rc \<noteq> 0 then Exited 1 else Exited 0)"

definition proc16 :: "nat \<Rightarrow> int \<Rightarrow> player \<Rightarrow> procs_t \<Rightarrow> procs_t option" where
  "proc16 n pid p s = (case proc_at s p of
     Playing \<Rightarrow>
       if pp_at (game s) p = Waits \<and> \<not> loops (game s) p < n
       then Some (at_pc p (if p = Ping then Waiting else Unlinks1) s)
       else map_option (\<lambda>g. s\<lparr>game := g\<rparr>) (pp_subroutine n p (game s))
   | Unlinks1 \<Rightarrow> Some (at_pc p Unlinks2 (s\<lparr>named := (named s)(Ping := False)\<rparr>))
   | Unlinks2 \<Rightarrow> Some (at_pc p (Exited 1) (s\<lparr>named := (named s)(Pong := False)\<rparr>))
   | Waiting \<Rightarrow> (case proc_at s (other p) of Exited _ \<Rightarrow> Some (at_pc p (after_wait pid) s)
       | Playing \<Rightarrow> None | Unlinks1 \<Rightarrow> None | Unlinks2 \<Rightarrow> None | Waiting \<Rightarrow> None)
   | Exited _ \<Rightarrow> None)"

text \<open>A signal makes \<open>sem_wait\<close> fail, and \<open>CE\<close> ends the process: unlike \<open>task14.c\<close> nothing is retried.\<close>

definition interrupt16 :: "nat \<Rightarrow> player \<Rightarrow> procs_t \<Rightarrow> procs_t option" where
  "interrupt16 n p s =
     (if proc_at s p = Playing \<and> pp_at (game s) p = Waits \<and> loops (game s) p < n then Some (at_pc p (Exited 1) s) else None)"

inductive step16 :: "nat \<Rightarrow> int \<Rightarrow> bool \<Rightarrow> procs_t \<Rightarrow> procs_t \<Rightarrow> bool" for n pid signals where
  proc_moves: "proc16 n pid p s = Some s' \<Longrightarrow> step16 n pid signals s s'"
| proc_interrupted: "signals \<Longrightarrow> interrupt16 n p s = Some s' \<Longrightarrow> step16 n pid signals s s'"

inductive_cases step16E: "step16 n pid signals s s'"

definition start16 :: procs_t where
  "start16 = \<lparr>game = main14, named = (\<lambda>_. True), proc_at = (\<lambda>_. Playing)\<rparr>"

lemma begin16_fresh: "opens1 e \<Longrightarrow> opens2 e \<Longrightarrow> fork_pid e \<noteq> -1 \<Longrightarrow> begin16 e (\<lambda>_. None) = Inr start16"
  by (simp add: begin16_def start16_def fresh_names)

section \<open>Without signals\<close>

definition both_exited :: "procs_t \<Rightarrow> bool" where
  "both_exited s = (proc_at s Ping = Exited 1 \<and> proc_at s Pong = Exited 1)"

definition procs_inv :: "nat \<Rightarrow> procs_t \<Rightarrow> bool" where
  "procs_inv n s =
     (pp_inv n (game s) \<and> (\<forall>p. proc_at s p \<noteq> Playing \<longrightarrow> loops (game s) p = n \<and> pp_at (game s) p = Waits) \<and>
      proc_at s Ping \<in> {Playing, Waiting, Exited 1} \<and> proc_at s Pong \<in> {Playing, Unlinks1, Unlinks2, Exited 1} \<and>
      named s Ping = (proc_at s Pong \<in> {Playing, Unlinks1}) \<and> named s Pong = (proc_at s Pong \<noteq> Exited 1) \<and>
      (proc_at s Ping = Exited 1 \<longrightarrow> proc_at s Pong = Exited 1))"

lemma at_pc_simps [simp]:
  "game (at_pc p pc s) = game s" "named (at_pc p pc s) = named s" "proc_at (at_pc p pc s) = (proc_at s)(p := pc)"
  by (simp_all add: at_pc_def)

lemma pp_subroutine_other: "pp_subroutine n p g = Some g' \<Longrightarrow> loops g' (other p) = loops g (other p) \<and> pp_at g' (other p) = pp_at g (other p)"
  by (cases "pp_at g p") (auto simp: pp_subroutine_def split: if_splits)

lemma proc16_cases:
  assumes "proc16 n pid p s = Some s'"
  obtains (plays) g where "proc_at s p = Playing" "pp_subroutine n p (game s) = Some g" "s' = s\<lparr>game := g\<rparr>"
  | (loop_ends) "proc_at s p = Playing" "pp_at (game s) p = Waits" "\<not> loops (game s) p < n"
      "s' = at_pc p (if p = Ping then Waiting else Unlinks1) s"
  | (unlinks1) "proc_at s p = Unlinks1" "s' = at_pc p Unlinks2 (s\<lparr>named := (named s)(Ping := False)\<rparr>)"
  | (unlinks2) "proc_at s p = Unlinks2" "s' = at_pc p (Exited 1) (s\<lparr>named := (named s)(Pong := False)\<rparr>)"
  | (waits) k where "proc_at s p = Waiting" "proc_at s (other p) = Exited k" "s' = at_pc p (after_wait pid) s"
  using assms by (auto simp: proc16_def split: proc_pc.splits if_splits)

lemma pp_inv_loops: "pp_inv n g \<Longrightarrow> loops g p \<le> n"
  unfolding pp_inv_def has_turn_def by (elim exE conjE) (rename_tac q, case_tac p; case_tac q; auto)

text \<open>The rank of a state, and what every step does to it.\<close>

fun proc_rank :: "proc_pc \<Rightarrow> nat" where
  "proc_rank Playing = 3"
| "proc_rank Unlinks1 = 2"
| "proc_rank Unlinks2 = 1"
| "proc_rank Waiting = 1"
| "proc_rank (Exited k) = 0"

definition procs_rank :: "nat \<Rightarrow> procs_t \<Rightarrow> nat" where
  "procs_rank n s = pp_work n (game s) + proc_rank (proc_at s Ping) + proc_rank (proc_at s Pong)"

lemma procs_step:
  assumes i: "procs_inv n s" and st: "proc16 n pid p s = Some s'" and pid: "pid \<noteq> 0"
  shows "procs_inv n s' \<and> procs_rank n s' < procs_rank n s"
  using st
proof (cases rule: proc16_cases)
  case (plays g)
  have g: "pp_inv n (game s)" using i by (simp add: procs_inv_def)
  have "pp_inv n g" using pp.step_inv[OF g pp_step.intros[OF plays(2)]] .
  moreover have "pp_work n g < pp_work n (game s)" using pp.decreases[OF g pp_step.intros[OF plays(2)]] .
  moreover have "proc_at s q \<noteq> Playing \<longrightarrow> loops g q = n \<and> pp_at g q = Waits" for q
  proof (cases "q = p")
    case True
    then show ?thesis using plays(1) by simp
  next
    case False
    then have "q = other p" by (cases p; cases q) simp_all
    moreover have "proc_at s q \<noteq> Playing \<longrightarrow> loops (game s) q = n \<and> pp_at (game s) q = Waits"
      using i by (simp add: procs_inv_def)
    ultimately show ?thesis using pp_subroutine_other[OF plays(2)] by simp
  qed
  ultimately show ?thesis using i plays(3) unfolding procs_inv_def procs_rank_def by auto
next
  case loop_ends
  then have "loops (game s) p = n" using pp_inv_loops[of n "game s" p] i by (simp add: procs_inv_def)
  then show ?thesis using i loop_ends by (cases p) (auto simp: procs_inv_def procs_rank_def)
next
  case unlinks1
  then show ?thesis using i by (cases p) (auto simp: procs_inv_def procs_rank_def)
next
  case unlinks2
  then show ?thesis using i by (cases p) (auto simp: procs_inv_def procs_rank_def)
next
  case (waits k)
  then show ?thesis using i pid by (cases p) (auto simp: procs_inv_def procs_rank_def after_wait_def)
qed

lemma procs_progress:
  assumes i: "procs_inv n s" and nf: "\<not> both_exited s"
  shows "\<exists>p s'. proc16 n pid p s = Some s'"
proof (cases "pp_finished n (game s)")
  case False
  obtain p where t: "has_turn n p (game s)" using i by (auto simp: procs_inv_def pp_inv_def)
  obtain g where g: "pp_subroutine n p (game s) = Some g" using turn_progress[OF t False] by blast
  then have "\<not> (pp_at (game s) p = Waits \<and> \<not> loops (game s) p < n)" by (auto simp: pp_subroutine_def split: if_splits)
  moreover have "proc_at s p = Playing"
    using i calculation by (auto simp: procs_inv_def)
  ultimately show ?thesis using g by (auto simp: proc16_def intro!: exI[of _ p])
next
  case True
  then have w: "pp_at (game s) p = Waits" "loops (game s) p = n" for p by (simp_all add: pp_finished_def)
  show ?thesis
  proof (cases "proc_at s Pong = Exited 1")
    case False
    then have "\<exists>s'. proc16 n pid Pong s = Some s'"
      using i w by (auto simp: procs_inv_def proc16_def)
    then show ?thesis by blast
  next
    case True
    then have "\<exists>s'. proc16 n pid Ping s = Some s'"
      using i w nf by (auto simp: procs_inv_def proc16_def both_exited_def)
    then show ?thesis by blast
  qed
qed

definition some_pid :: "int \<Rightarrow> int" where
  "some_pid pid = (if pid = 0 then 1 else pid)"

interpretation procs: terminating_system "\<lambda>s. s = start16" "step16 n (some_pid pid) False" "procs_inv n" both_exited "procs_rank n" for n pid
proof
  show "procs_inv n s" if "s = start16" for s
    using that pp.start_inv[of main14 n] by (simp add: procs_inv_def start16_def)
  show "procs_inv n s'" if "procs_inv n s" "step16 n (some_pid pid) False s s'" for s s'
    using that procs_step[of n s "some_pid pid"] by (auto elim!: step16E simp: some_pid_def)
  show "\<exists>s'. step16 n (some_pid pid) False s s'" if "procs_inv n s" "\<not> both_exited s" for s
    using procs_progress[OF that] by (blast intro: proc_moves)
  show "procs_rank n s' < procs_rank n s" if "procs_inv n s" "step16 n (some_pid pid) False s s'" for s s'
    using that procs_step[of n s "some_pid pid"] by (auto elim!: step16E simp: some_pid_def)
qed

lemma both_exited_result:
  assumes "procs_inv n s" and "both_exited s"
  shows "out (game s) = turns (2 * n) \<and> \<not> named s Ping \<and> \<not> named s Pong"
proof -
  have "pp_finished n (game s)" unfolding pp_finished_def
  proof
    fix p
    have "proc_at s p \<noteq> Playing \<longrightarrow> loops (game s) p = n \<and> pp_at (game s) p = Waits" "proc_at s p = Exited 1"
      using assms by (simp_all add: procs_inv_def both_exited_def) (cases p; simp)
    then show "pp_at (game s) p = Waits \<and> loops (game s) p = n" by simp
  qed
  then show ?thesis using assms finished_output[of n "game s"] by (auto simp: procs_inv_def both_exited_def)
qed

section \<open>With signals\<close>

text \<open>
  A child interrupted before its first turn exits at once. The parent prints, waits for its second
  turn and can not go on; both names are left, the first with value 0.
\<close>

lemma interrupted_child:
  assumes "2 \<le> n"
  shows "\<exists>s. (step16 n pid True)\<^sup>*\<^sup>* start16 s \<and> proc_at s Pong = Exited 1 \<and> proc_at s Ping = Playing \<and>
    (\<forall>p. proc16 n pid p s = None) \<and> named s = (\<lambda>_. True) \<and> sem (game s) Ping = 0"
proof -
  have m: "pp_at main14 = (\<lambda>_. Waits)" "loops main14 = (\<lambda>_. 0)" "sem main14 Ping = 1" "sem main14 Pong = 0"
    by (simp_all add: main14_def pp_start_def)
  define s1 where "s1 = at_pc Pong (Exited 1) start16"
  define g1 where "g1 = main14\<lparr>sem := (sem main14)(Ping := 0), pp_at := (\<lambda>_. Waits)(Ping := Prints)\<rparr>"
  define g2 where "g2 = g1\<lparr>out := out g1 @ [Ping], pp_at := (pp_at g1)(Ping := Posts)\<rparr>"
  define g3 where "g3 = g2\<lparr>sem := (sem g2)(Pong := sem g2 Pong + 1), pp_at := (pp_at g2)(Ping := Waits),
    loops := (loops g2)(Ping := loops g2 Ping + 1)\<rparr>"
  have p: "pp_subroutine n Ping main14 = Some g1" "pp_subroutine n Ping g1 = Some g2" "pp_subroutine n Ping g2 = Some g3"
    using assms m by (simp_all add: pp_subroutine_def g1_def g2_def g3_def)
  have at: "pp_at g1 Ping = Prints" "pp_at g2 Ping = Posts" "pp_at g3 Ping = Waits" "loops g3 Ping = 1" "sem g3 Ping = 0"
    using m by (simp_all add: g1_def g2_def g3_def)
  have s1: "proc_at s1 Ping = Playing" "proc_at s1 Pong = Exited 1" "named s1 = (\<lambda>_. True)" "game s1 = main14"
    by (simp_all add: s1_def start16_def)
  have "interrupt16 n Pong start16 = Some s1" using assms m by (simp add: interrupt16_def start16_def s1_def)
  then have 1: "step16 n pid True start16 s1" by (intro proc_interrupted) simp_all
  have "proc16 n pid Ping s1 = Some (s1\<lparr>game := g1\<rparr>)" using assms s1 p(1) m by (simp add: proc16_def)
  then have 2: "step16 n pid True s1 (s1\<lparr>game := g1\<rparr>)" by (rule proc_moves)
  have "proc16 n pid Ping (s1\<lparr>game := g1\<rparr>) = Some (s1\<lparr>game := g2\<rparr>)" using s1 p(2) at by (simp add: proc16_def)
  then have 3: "step16 n pid True (s1\<lparr>game := g1\<rparr>) (s1\<lparr>game := g2\<rparr>)" by (rule proc_moves)
  have "proc16 n pid Ping (s1\<lparr>game := g2\<rparr>) = Some (s1\<lparr>game := g3\<rparr>)" using s1 p(3) at by (simp add: proc16_def)
  then have 4: "step16 n pid True (s1\<lparr>game := g2\<rparr>) (s1\<lparr>game := g3\<rparr>)" by (rule proc_moves)
  have "(step16 n pid True)\<^sup>*\<^sup>* start16 (s1\<lparr>game := g3\<rparr>)"
    using 1 2 3 4 by (blast intro: converse_rtranclp_into_rtranclp)
  moreover have "proc16 n pid q (s1\<lparr>game := g3\<rparr>) = None" for q
    using assms s1 at by (cases q) (simp_all add: proc16_def pp_subroutine_def)
  ultimately show ?thesis using s1 at by (intro exI[of _ "s1\<lparr>game := g3\<rparr>"]) simp
qed

end
