(* ===== verification/Old_Proxy.thy ===== *)
theory Old_Proxy
  imports Handler_Buffers Socket_Utils
begin

text \<open>
  \<open>proxy/trash/proxy.c\<close>, the first version of the proxy: one connection after another, with blocking
  sockets that time out, and two buffers of thirty million zero bytes. It uses the parser of
  \<open>proxy/http_header_parser.c\<close>. What a socket delivers is a list of arrivals; when the list is used up
  a call blocks for ever. Loops have fuel; \<open>Diverge\<close> is the answer when it runs out.
\<close>

section \<open>Reading and writing\<close>

text \<open>
  \<open>Data\<close> is what the next calls of \<open>read\<close> return, piecewise; \<open>Eof\<close> stays; \<open>Again\<close> is -1 with
  \<open>EAGAIN\<close>, the receive timeout, and \<open>Broken\<close> is -1 with another error.
\<close>

datatype arrival = Data "char list" | Eof | Again | Broken

record arrived =
  a_cnt :: int
  a_again :: bool
  a_bytes :: "char list"

fun sys_read :: "nat \<Rightarrow> arrival list \<Rightarrow> (arrived \<times> arrival list) res" where
  "sys_read n [] = Inl Diverge"
| "sys_read n (Data bs # is) = Inr (\<lparr>a_cnt = int (length (take n bs)), a_again = False, a_bytes = take n bs\<rparr>,
     if n < length bs then Data (drop n bs) # is else is)"
| "sys_read n (Eof # is) = Inr (\<lparr>a_cnt = 0, a_again = False, a_bytes = []\<rparr>, Eof # is)"
| "sys_read n (Again # is) = Inr (\<lparr>a_cnt = -1, a_again = True, a_bytes = []\<rparr>, is)"
| "sys_read n (Broken # is) = Inr (\<lparr>a_cnt = -1, a_again = False, a_bytes = []\<rparr>, is)"

datatype accepted = Took nat | Full | Failed

text \<open>\<open>write_n\<close>: the pieces that were written.\<close>

fun write_n :: "char list \<Rightarrow> accepted list \<Rightarrow> (char list list \<times> accepted list) res" where
  "write_n [] os = Inr ([], os)"
| "write_n (b # bs) [] = Inl Diverge"
| "write_n (b # bs) (Failed # os) = Inl Exit"
| "write_n (b # bs) (Full # os) = write_n (b # bs) os"
| "write_n (b # bs) (Took k # os) =
     bind_r (write_n (drop k (b # bs)) os) (\<lambda>(ws, os). Inr (take k (b # bs) # ws, os))"

fun read_n :: "nat \<Rightarrow> char block \<Rightarrow> nat \<Rightarrow> nat \<Rightarrow> nat \<Rightarrow> arrival list \<Rightarrow> (char block \<times> arrival list) res" where
  "read_n 0 buff off sz readen is = Inl Diverge"
| "read_n (Suc fuel) buff off sz readen is =
     (if readen < sz then
        bind_r (sys_read (sz - readen) is) (\<lambda>(a, is).
        bind_r (assert_r (\<not> (a_cnt a = -1 \<and> \<not> a_again a))) (\<lambda>_.
        bind_r (store_list buff (off + readen) (a_bytes a)) (\<lambda>buff.
        read_n fuel buff off sz (if a_cnt a \<noteq> -1 then readen + nat (a_cnt a) else readen) is)))
      else bind_r (assert_r (readen = sz)) (\<lambda>_. Inr (buff, is)))"

text \<open>\<open>read_while\<close> is never called; each byte overwrites the one before, and the end is counted too.\<close>

fun read_while :: "nat \<Rightarrow> char block \<Rightarrow> nat \<Rightarrow> arrival list \<Rightarrow> (nat \<times> char block \<times> arrival list) res" where
  "read_while 0 buff readen is = Inl Diverge"
| "read_while (Suc fuel) buff readen is =
     bind_r (sys_read 1 is) (\<lambda>(a, is).
     bind_r (store_list buff 0 (a_bytes a)) (\<lambda>buff.
     bind_r (assert_r (a_cnt a \<noteq> -1)) (\<lambda>_.
     if a_cnt a = 0 then Inr (readen + 1, buff, is) else read_while fuel buff (readen + 1) is)))"

section \<open>The buffers\<close>

definition OLD_BUFF_SIZE :: nat where
  "OLD_BUFF_SIZE = 30000000"

text \<open>A buffer with the reading and the parsing position, \<open>rpos\<close> and \<open>ppos\<close>.\<close>

record old_buff =
  obuf :: "char block"
  rpos :: nat
  ppos :: nat

definition new_buff :: old_buff where
  "new_buff = \<lparr>obuf = \<lparr>blk_len = OLD_BUFF_SIZE, blk_cell = (\<lambda>_. Some NUL)\<rparr>, rpos = 0, ppos = 0\<rparr>"

text \<open>
  \<open>cnt = read(fd, rpos, n); rpos += cnt\<close>, before \<open>cnt\<close> is looked at: a failed read moves \<open>rpos\<close> one
  byte back, and at the start of the buffer, where there is no such byte, the pointer is undefined.
\<close>

definition read_more :: "nat \<Rightarrow> old_buff \<Rightarrow> arrival list \<Rightarrow> (int \<times> old_buff \<times> arrival list) res" where
  "read_more n m is =
     bind_r (sys_read n is) (\<lambda>(a, is).
     bind_r (store_list (obuf m) (rpos m) (a_bytes a)) (\<lambda>b.
     bind_r (defined_r (0 \<le> int (rpos m) + a_cnt a)) (\<lambda>_.
     Inr (a_cnt a, m\<lparr>obuf := b, rpos := nat (int (rpos m) + a_cnt a)\<rparr>, is))))"

section \<open>The request\<close>

definition REQ_READ :: nat where
  "REQ_READ = 100000"

fun req_line_loop ::
    "nat \<Rightarrow> allocator \<Rightarrow> request_t \<Rightarrow> old_buff \<Rightarrow> arrival list \<Rightarrow> (STATUS \<times> request_t \<times> old_buff \<times> arrival list) res" where
  "req_line_loop 0 al rq m is = Inl Diverge"
| "req_line_loop (Suc fuel) al rq m is =
     bind_r (read_more REQ_READ m is) (\<lambda>(cnt, m, is).
     if cnt = -1 \<or> cnt = 0 then Inr (ERROR, rq, m, is) else
     bind_r (cstring_at (obuf m) (ppos m)) (\<lambda>cur.
     bind_r (parse_req_type al cur rq) (\<lambda>(status, n, rq).
     let m = m\<lparr>ppos := ppos m + n\<rparr> in
     if status = OK then Inr (SUCCESS, rq, m, is)
     else if status = PARSING_ERROR then Inr (ERROR, rq, m, is)
     else req_line_loop fuel al rq m is)))"

text \<open>
  The second loop: \<open>headers_loop\<close> takes the rounds that read nothing; when a line is incomplete, the
  next round reads, and does not look at the result.
\<close>

fun req_headers_loop ::
    "nat \<Rightarrow> allocator \<Rightarrow> request_t \<Rightarrow> old_buff \<Rightarrow> arrival list \<Rightarrow> (STATUS \<times> request_t \<times> old_buff \<times> arrival list) res" where
  "req_headers_loop 0 al rq m is = Inl Diverge"
| "req_headers_loop (Suc fuel) al rq m is =
     bind_r (headers_loop al (obuf m) (ppos m) (req_headers rq)) (\<lambda>(status, pos, hs).
     let rq = rq\<lparr>req_headers := hs\<rparr>; m = m\<lparr>ppos := pos\<rparr> in
     if status = PARSING_ERROR then Inr (ERROR, rq, m, is)
     else if status = NO_END_OF_LINE then
       bind_r (read_more REQ_READ m is) (\<lambda>(_, m, is). req_headers_loop fuel al rq m is)
     else bind_r (cstr_val (req_type rq)) (\<lambda>t.
       Inr (if strcmp t ''GET'' \<noteq> 0 then ERROR else SUCCESS, rq, m, is)))"

text \<open>The caller's positions are only set on success.\<close>

definition back_to :: "old_buff \<Rightarrow> STATUS \<Rightarrow> old_buff \<Rightarrow> old_buff" where
  "back_to m st m' = (if st = SUCCESS then m' else m\<lparr>obuf := obuf m'\<rparr>)"

definition read_req ::
    "nat \<Rightarrow> allocator \<Rightarrow> request_t \<Rightarrow> old_buff \<Rightarrow> arrival list \<Rightarrow> (STATUS \<times> request_t \<times> old_buff \<times> arrival list) res" where
  "read_req fuel al rq m is =
     bind_r (req_line_loop fuel al (request_init rq) m is) (\<lambda>(st, rq, m1, is).
     bind_r (if st = SUCCESS then req_headers_loop fuel al rq m1 is else Inr (st, rq, m1, is)) (\<lambda>(st, rq, m2, is).
     Inr (st, rq, back_to m st m2, is)))"

section \<open>The response\<close>

definition RESP_READ :: nat where
  "RESP_READ = 1000000"

fun resp_line_loop ::
    "nat \<Rightarrow> allocator \<Rightarrow> response_t \<Rightarrow> old_buff \<Rightarrow> arrival list \<Rightarrow> (STATUS \<times> response_t \<times> old_buff \<times> arrival list) res" where
  "resp_line_loop 0 al rs m is = Inl Diverge"
| "resp_line_loop (Suc fuel) al rs m is =
     bind_r (read_more RESP_READ m is) (\<lambda>(cnt, m, is).
     if cnt = -1 then Inr (ERROR, rs, m, is) else
     bind_r (cstring_at (obuf m) (ppos m)) (\<lambda>cur.
     bind_r (parse_response_code al cur rs) (\<lambda>(status, n, rs).
     let m = m\<lparr>ppos := ppos m + n\<rparr> in
     if status = OK then Inr (SUCCESS, rs, m, is)
     else if status = PARSING_ERROR then Inr (ERROR, rs, m, is)
     else resp_line_loop fuel al rs m is)))"

definition C_atoi :: "char list \<Rightarrow> int res" where
  "C_atoi s = bind_r (defined_r (INT_MIN \<le> strtol s 10 \<and> strtol s 10 \<le> INT_MAX)) (\<lambda>_. Inr (strtol s 10))"

text \<open>How long the body is: \<open>Some\<close> length, or \<open>None\<close> for chunks; \<open>Inr None\<close> when neither header is there.\<close>

definition body_kind :: "header_t vec \<Rightarrow> nat option option res" where
  "body_kind hs =
     bind_r (find_header hs ''Content-Length'') (\<lambda>cl.
     bind_r (find_header hs ''Transfer-Encoding'') (\<lambda>ch.
     (case cl of
        None \<Rightarrow> Inr (if ch = None then None else Some None)
      | Some i \<Rightarrow>
          bind_r (vector_get hs i) (\<lambda>h.
          bind_r (cstr_val (hdr_value h)) (\<lambda>v.
          bind_r (C_atoi v) (\<lambda>k. Inr (Some (Some (sz_of_int k)))))))))"

fun resp_headers_loop ::
    "nat \<Rightarrow> allocator \<Rightarrow> response_t \<Rightarrow> old_buff \<Rightarrow> arrival list \<Rightarrow>
     (nat option option \<times> response_t \<times> old_buff \<times> arrival list) res" where
  "resp_headers_loop 0 al rs m is = Inl Diverge"
| "resp_headers_loop (Suc fuel) al rs m is =
     bind_r (headers_loop al (obuf m) (ppos m) (resp_headers rs)) (\<lambda>(status, pos, hs).
     let rs = rs\<lparr>resp_headers := hs\<rparr>; m = m\<lparr>ppos := pos\<rparr> in
     if status = PARSING_ERROR then Inr (None, rs, m, is)
     else if status = NO_END_OF_LINE then
       bind_r (read_more RESP_READ m is) (\<lambda>(cnt, m, is).
       if cnt = -1 then Inr (None, rs, m, is) else resp_headers_loop fuel al rs m is)
     else bind_r (body_kind hs) (\<lambda>k. Inr (k, rs, m, is)))"

text \<open>Reading until bytes arrive: \<open>None\<close> after a failed read.\<close>

fun wait_for_bytes :: "nat \<Rightarrow> old_buff \<Rightarrow> arrival list \<Rightarrow> (STATUS \<times> old_buff \<times> arrival list) res" where
  "wait_for_bytes 0 m is = Inl Diverge"
| "wait_for_bytes (Suc fuel) m is =
     bind_r (sys_read RESP_READ is) (\<lambda>(a, is).
     bind_r (store_list (obuf m) (rpos m) (a_bytes a)) (\<lambda>b.
     if a_cnt a = -1 then Inr (ERROR, m\<lparr>obuf := b\<rparr>, is) else
     let m = m\<lparr>obuf := b, rpos := rpos m + nat (a_cnt a)\<rparr> in
     if a_cnt a > 0 then Inr (SUCCESS, m, is) else wait_for_bytes fuel m is))"

text \<open>The lines behind the last chunk. Nothing is read here: an incomplete or a wrong line is tried again for ever.\<close>

fun trailers_loop :: "nat \<Rightarrow> allocator \<Rightarrow> old_buff \<Rightarrow> old_buff res" where
  "trailers_loop 0 al m = Inl Diverge"
| "trailers_loop (Suc fuel) al m =
     bind_r (cstring_at (obuf m) (ppos m)) (\<lambda>cur.
     bind_r (parse_next_header al cur uninit_header) (\<lambda>(status, n, _).
     let m = m\<lparr>ppos := ppos m + n\<rparr> in
     if status = END_OF_HEADER then Inr m else trailers_loop fuel al m))"

text \<open>\<open>char num[100]\<close> takes the chunk size and a terminator.\<close>

definition NUM_SIZE :: nat where
  "NUM_SIZE = 100"

definition chunk_data :: "nat \<Rightarrow> nat \<Rightarrow> old_buff \<Rightarrow> arrival list \<Rightarrow> (old_buff \<times> arrival list) res" where
  "chunk_data fuel need m is =
     (let nn = sz_sub (rpos m) (ppos m) in
      bind_r (if nn < need
              then bind_r (read_n fuel (obuf m) (rpos m) (sz_sub need nn) 0 is) (\<lambda>(b, is).
                   Inr (m\<lparr>obuf := b, rpos := sz_add (rpos m) (sz_sub need nn)\<rparr>, is))
              else Inr (m, is)) (\<lambda>(m, is).
      Inr (m\<lparr>ppos := sz_add (ppos m) need\<rparr>, is)))"

fun chunks_loop :: "nat \<Rightarrow> allocator \<Rightarrow> old_buff \<Rightarrow> arrival list \<Rightarrow> (STATUS \<times> old_buff \<times> arrival list) res" where
  "chunks_loop 0 al m is = Inl Diverge"
| "chunks_loop (Suc fuel) al m is =
     bind_r (cstring_at (obuf m) (ppos m)) (\<lambda>cur.
     (case strstr cur CRLF of
        None \<Rightarrow>
          bind_r (wait_for_bytes fuel m is) (\<lambda>(st, m, is).
          if st = SUCCESS then chunks_loop fuel al m is else Inr (ERROR, m, is))
      | Some crln \<Rightarrow>
          bind_r (defined_r (crln < NUM_SIZE)) (\<lambda>_.
          let csz = strtol (take crln cur) 16; m = m\<lparr>ppos := ppos m + crln + 2\<rparr> in
          if csz = 0 then bind_r (trailers_loop fuel al m) (\<lambda>m. Inr (SUCCESS, m, is))
          else
            bind_r (defined_r (csz + 2 \<le> LONG_MAX)) (\<lambda>_.
            bind_r (chunk_data fuel (sz_of_int (csz + 2)) m is) (\<lambda>(m, is). chunks_loop fuel al m is)))))"

definition whole_body :: "nat \<Rightarrow> nat \<Rightarrow> old_buff \<Rightarrow> arrival list \<Rightarrow> (old_buff \<times> arrival list) res" where
  "whole_body fuel contlen m is =
     (let need = sz_sub contlen (sz_sub (rpos m) (ppos m)) in
      bind_r (read_n fuel (obuf m) (rpos m) need 0 is) (\<lambda>(b, is).
      Inr (m\<lparr>obuf := b, ppos := sz_add (ppos m) contlen, rpos := sz_add (rpos m) need\<rparr>, is)))"

definition read_response ::
    "nat \<Rightarrow> allocator \<Rightarrow> response_t \<Rightarrow> old_buff \<Rightarrow> arrival list \<Rightarrow> (STATUS \<times> response_t \<times> old_buff \<times> arrival list) res" where
  "read_response fuel al rs m is =
     bind_r (resp_line_loop fuel al (response_init rs) m is) (\<lambda>(st, rs, m1, is).
     if st \<noteq> SUCCESS then Inr (ERROR, rs, back_to m ERROR m1, is) else
     bind_r (resp_headers_loop fuel al rs m1 is) (\<lambda>(kind, rs, m2, is).
     (case kind of
        None \<Rightarrow> Inr (ERROR, rs, back_to m ERROR m2, is)
      | Some None \<Rightarrow>
          bind_r (chunks_loop fuel al m2 is) (\<lambda>(st, m3, is). Inr (st, rs, back_to m st m3, is))
      | Some (Some contlen) \<Rightarrow>
          bind_r (whole_body fuel contlen m2 is) (\<lambda>(m3, is). Inr (SUCCESS, rs, m3, is)))))"

section \<open>A connection\<close>

text \<open>What the system gives to one attempt to reach the server.\<close>

record attempt =
  at_socket :: int
  at_resolve :: "char list \<Rightarrow> hostent option"
  at_junk :: sockaddr_in
  at_connect :: "sockaddr_in \<Rightarrow> int"
  at_out :: "accepted list"
  at_in :: "arrival list"

text \<open>The result of \<open>name2addr\<close> is not looked at: on failure the uninitialised address is used.\<close>

definition old_connect :: "attempt \<Rightarrow> request_t \<Rightarrow> (int \<times> io list) res" where
  "old_connect a rq =
     bind_r (assert_r (0 \<le> at_socket a)) (\<lambda>_.
     bind_r (find_header (req_headers rq) ''Host'') (\<lambda>host.
     (case host of
        None \<Rightarrow> Inl Exit
      | Some i \<Rightarrow>
          bind_r (vector_get (req_headers rq) i) (\<lambda>h.
          bind_r (cstr_val (hdr_value h)) (\<lambda>name.
          bind_r (name2addr (at_resolve a) name 80 (at_junk a)) (\<lambda>(_, addr).
          bind_r (assert_r (at_connect a addr = 0)) (\<lambda>_.
          Inr (at_socket a, [Socket (at_socket a), Connect (at_socket a) addr]))))))))"

text \<open>
  The loop over at most three attempts: the descriptor of the server and the response on success,
  \<open>None\<close> after the third failure, when the descriptor is closed twice.
\<close>

fun attempts_loop ::
    "nat \<Rightarrow> nat \<Rightarrow> allocator \<Rightarrow> request_t \<Rightarrow> char list \<Rightarrow> attempt list \<Rightarrow> response_t \<Rightarrow> old_buff \<Rightarrow>
     (int option \<times> response_t \<times> old_buff \<times> io list) res" where
  "attempts_loop fuel 0 al rq bytes as rs m = Inl Diverge"
| "attempts_loop fuel (Suc k) al rq bytes [] rs m = Inl Diverge"
| "attempts_loop fuel (Suc k) al rq bytes (a # as) rs m =
     bind_r (old_connect a rq) (\<lambda>(host_fd, es).
     bind_r (write_n bytes (at_out a)) (\<lambda>(ws, _).
     bind_r (read_response fuel al rs m (at_in a)) (\<lambda>(st, rs, m, _).
     let es = es @ map (Write host_fd) ws in
     if st = SUCCESS then Inr (Some host_fd, rs, m, es)
     else if k = 0 then Inr (None, rs, m, es @ [Close host_fd, Close host_fd])
     else bind_r (attempts_loop fuel k al rq bytes as rs m) (\<lambda>(r, rs, m, es').
          Inr (r, rs, m, es @ Close host_fd # es')))))"

definition ATTEMPTS :: nat where
  "ATTEMPTS = 3"

text \<open>
  \<open>handler\<close>: its outer loop returns in the first round on every path. \<open>memset\<close> on a refused \<open>malloc\<close>
  is undefined, and so is printing and comparing the null pointers of a request whose first line never
  came.
\<close>

definition old_handler ::
    "nat \<Rightarrow> allocator \<Rightarrow> int \<Rightarrow> request_t \<Rightarrow> response_t \<Rightarrow> arrival list \<Rightarrow> accepted list \<Rightarrow> attempt list \<Rightarrow> io list res" where
  "old_handler fuel al fd rq rs is os as =
     bind_r (defined_r (al OLD_BUFF_SIZE)) (\<lambda>_.
     bind_r (read_req fuel al rq new_buff is) (\<lambda>(st, rq, cm, _).
     if st \<noteq> SUCCESS then
       bind_r (cstr_val (uri rq)) (\<lambda>_. bind_r (cstr_val (req_type rq)) (\<lambda>_. Inr [Close fd]))
     else
     bind_r (read_bytes (obuf cm) 0 (ppos cm)) (\<lambda>bytes.
     bind_r (attempts_loop fuel ATTEMPTS al rq bytes as rs new_buff) (\<lambda>(host, rs, sm, es).
     (case host of
        None \<Rightarrow> Inr (es @ [Close fd])
      | Some host_fd \<Rightarrow>
          bind_r (read_bytes (obuf sm) 0 (ppos sm)) (\<lambda>resp.
          bind_r (write_n resp os) (\<lambda>(ws, _).
          Inr (es @ map (Write fd) ws @ [Close fd, Close host_fd]))))))))"

text \<open>What the system gives to the loop of \<open>main\<close> for one connection.\<close>

record visit =
  v_fd :: int
  v_setsockopt :: int
  v_in :: "arrival list"
  v_out :: "accepted list"
  v_attempts :: "attempt list"

definition CONTEXT_SIZE :: nat where
  "CONTEXT_SIZE = 4"

fun visits_loop :: "nat \<Rightarrow> allocator \<Rightarrow> request_t \<Rightarrow> response_t \<Rightarrow> visit list \<Rightarrow> io list res" where
  "visits_loop fuel al rq rs [] = Inr []"
| "visits_loop fuel al rq rs (v # vs) =
     bind_r (assert_r (v_fd v \<noteq> status_code ERROR)) (\<lambda>_.
     bind_r (defined_r (al CONTEXT_SIZE)) (\<lambda>_.
     bind_r (assert_r (0 \<le> v_setsockopt v)) (\<lambda>_.
     bind_r (old_handler fuel al (v_fd v) rq rs (v_in v) (v_out v) (v_attempts v)) (\<lambda>es.
     bind_r (visits_loop fuel al rq rs vs) (\<lambda>es'. Inr (es @ es'))))))"

text \<open>\<open>main\<close>, for the connections that come; \<open>sock\<close>, \<open>rq\<close> and \<open>rs\<close> are uninitialised memory.\<close>

definition old_main ::
    "nat \<Rightarrow> allocator \<Rightarrow> server_env \<Rightarrow> servsock_t \<Rightarrow> request_t \<Rightarrow> response_t \<Rightarrow> visit list \<Rightarrow> io list res" where
  "old_main fuel al e sock rq rs vs =
     bind_r (defined_r (al REQ_READ)) (\<lambda>_.
     (case create_servsock e 8080 10 (sock, []) of (st, _, es) \<Rightarrow>
       bind_r (assert_r (st = SUCCESS)) (\<lambda>_.
       bind_r (visits_loop fuel al rq rs vs) (\<lambda>es'. Inr (es @ es')))))"

end
