(* ===== verification/Socket_Demos.thy ===== *)
theory Socket_Demos
  imports Old_Proxy
begin

text \<open>
  \<open>http/demo.c\<close>, \<open>proxy/trash/server.c\<close> and \<open>proxy/trash/client.c\<close>: one request, or one greeting, over a
  socket. Each reads into a zeroed buffer of fixed size and prints it as a string. The results of
  the calls are arguments, what the peer sends is a list of arrivals as in \<open>Old_Proxy\<close>.
\<close>

section \<open>A zeroed buffer\<close>

text \<open>\<open>n\<close> bytes, the first of them \<open>bs\<close> and the others 0.\<close>

definition zeroed :: "nat \<Rightarrow> char list \<Rightarrow> char block" where
  "zeroed n bs = \<lparr>blk_len = n, blk_cell = (\<lambda>i. if i < length bs then Some (bs ! i) else Some NUL)\<rparr>"

lemma zeroed_store:
  "length bs + length xs \<le> n \<Longrightarrow> store_list (zeroed n bs) (length bs) xs = Inr (zeroed n (bs @ xs))"
  by (auto simp: store_list_def zeroed_def nth_append fun_eq_iff)

lemma cstring_full:
  assumes "\<forall>i < blk_len b. \<exists>c. blk_cell b i = Some c \<and> c \<noteq> NUL" and "p \<le> blk_len b"
  shows "cstring_at b p = Inl Undefined"
  using assms(2)
proof (induction "blk_len b - p" arbitrary: p)
  case 0
  then show ?case by (simp add: cstring_at.simps)
next
  case (Suc k)
  then have p: "p < blk_len b" by simp
  then obtain c where "blk_cell b p = Some c" "c \<noteq> NUL" using assms(1) by blast
  moreover have "cstring_at b (Suc p) = Inl Undefined" using Suc p by (intro Suc.hyps(1)) auto
  ultimately show ?case using p by (subst cstring_at.simps) simp
qed

text \<open>\<open>printf("%s")\<close> of it: a buffer that is full and has no 0 in it is read beyond its end.\<close>

lemma zeroed_string:
  assumes "length bs \<le> n"
  shows "cstring_at (zeroed n bs) 0 = (if length bs < n \<or> NUL \<in> set bs then Inr (c_string bs) else Inl Undefined)"
proof (cases "length bs < n")
  case True
  then show ?thesis using cstring_at_terminated[of bs "zeroed n bs" 0] by (simp add: zeroed_def)
next
  case full: False
  then have n: "length bs = n" using assms by simp
  show ?thesis
  proof (cases "NUL \<in> set bs")
    case False
    have "cstring_at (zeroed n bs) 0 = Inl Undefined"
    proof (rule cstring_full)
      show "\<forall>i < blk_len (zeroed n bs). \<exists>c. blk_cell (zeroed n bs) i = Some c \<and> c \<noteq> NUL"
        using False n by (auto simp: zeroed_def dest: nth_mem)
    qed simp
    then show ?thesis using full False by simp
  next
    case True
    obtain ys zs where bs: "bs = ys @ NUL # zs" "NUL \<notin> set ys" using split_list_first[OF True] by blast
    have ys: "c_string ys = ys" using bs(2) by (auto simp: takeWhile_eq_all_conv)
    have "\<forall>i < length ys. blk_cell (zeroed n bs) i = Some (ys ! i)" "blk_cell (zeroed n bs) (length ys) = Some NUL"
      by (auto simp: zeroed_def bs(1) nth_append)
    moreover have "length ys < blk_len (zeroed n bs)" using n by (simp add: zeroed_def bs(1))
    ultimately have "cstring_at (zeroed n bs) 0 = Inr (c_string (drop 0 ys))"
      by (intro cstring_at_terminated) simp_all
    moreover have "c_string bs = ys"
      using takeWhile_tail[of "\<lambda>c. c \<noteq> NUL" NUL ys zs] ys by (simp add: bs(1))
    ultimately show ?thesis using True ys by simp
  qed
qed

section \<open>The request of \<open>demo.c\<close>\<close>

text \<open>
  \<open>error\<close> is not declared and called with one of its three arguments. \<open>wr off n\<close> is what \<open>write\<close>
  returns for \<open>n\<close> bytes at \<open>off\<close>; a result of 0 ends the loop.
\<close>

fun demo_write :: "nat \<Rightarrow> (nat \<Rightarrow> nat \<Rightarrow> int) \<Rightarrow> nat \<Rightarrow> nat \<Rightarrow> nat res" where
  "demo_write 0 wr sz sent = Inl Diverge"
| "demo_write (Suc fuel) wr sz sent =
     (let bytes = wr sent (sz - sent) in
      if bytes < 0 then Inl Undefined
      else if bytes = 0 then Inr sent
      else let sent = sent + nat bytes in
        if sent < sz then demo_write fuel wr sz sent else Inr sent)"

fun demo_read :: "nat \<Rightarrow> arrival list \<Rightarrow> nat \<Rightarrow> char block \<Rightarrow> nat \<Rightarrow> (char block \<times> nat) res" where
  "demo_read 0 is sz resp received = Inl Diverge"
| "demo_read (Suc fuel) is sz resp received =
     bind_r (sys_read (sz - received) is) (\<lambda>(a, is).
     if a_cnt a \<le> 0 then Inr (resp, received)
     else bind_r (store_list resp received (a_bytes a)) (\<lambda>resp.
       demo_read fuel is sz resp (received + nat (a_cnt a))))"

definition DEMO_TOTAL :: nat where
  "DEMO_TOTAL = 1000000"

definition demo_message :: "char list" where
  "demo_message =
     ''GET /WackoWiki/KursOperacionnyeSistemy/PraktikumPosixThreads/PthreadTasks HTTP/1.1'' @ CRLF @
     ''Host: parallels.nsu.ru'' @ CRLF @ CRLF"

record demo_env =
  d_socket :: int
  d_host :: "hostent option"
  d_connect :: int
  d_write :: "nat \<Rightarrow> nat \<Rightarrow> int"
  d_malloc :: bool
  d_arrivals :: "arrival list"

text \<open>The response as it is printed. The address is copied into the four bytes of \<open>s_addr\<close>.\<close>

definition demo_main :: "nat \<Rightarrow> demo_env \<Rightarrow> char list res" where
  "demo_main fuel e =
     bind_r (defined_r (\<not> d_socket e < 0)) (\<lambda>_.
     bind_r (case d_host e of None \<Rightarrow> Inl Undefined
       | Some server \<Rightarrow> defined_r (h_length server \<le> 4 \<and> h_length server \<le> length (h_addr server))) (\<lambda>_.
     bind_r (defined_r (\<not> d_connect e < 0)) (\<lambda>_.
     bind_r (demo_write fuel (d_write e) (length demo_message) 0) (\<lambda>_.
     bind_r (defined_r (d_malloc e)) (\<lambda>_.
     bind_r (demo_read fuel (d_arrivals e) DEMO_TOTAL (zeroed DEMO_TOTAL []) 0) (\<lambda>(resp, received).
     cstring_at resp 0))))))"

text \<open>The socket accepts a part of what it is given, and no more.\<close>

definition socket_takes :: "(nat \<Rightarrow> nat \<Rightarrow> int) \<Rightarrow> bool" where
  "socket_takes wr = (\<forall>off n. 0 \<le> wr off n \<and> wr off n \<le> int n)"

lemma demo_write_ends:
  assumes "socket_takes wr" and "sz - sent < fuel" and "sent \<le> sz"
  shows "\<exists>k. demo_write fuel wr sz sent = Inr k \<and> sent \<le> k \<and> k \<le> sz \<and>
    (k < sz \<longrightarrow> wr k (sz - k) = 0)"
  using assms(2,3)
proof (induction fuel arbitrary: sent)
  case 0
  then show ?case by simp
next
  case (Suc fuel)
  have b: "0 \<le> wr sent (sz - sent)" "wr sent (sz - sent) \<le> int (sz - sent)"
    using assms(1) by (simp_all add: socket_takes_def)
  show ?case
  proof (cases "wr sent (sz - sent) = 0 \<or> sent + nat (wr sent (sz - sent)) = sz")
    case True
    then show ?thesis using b Suc.prems by (auto simp: Let_def)
  next
    case False
    let ?s = "sent + nat (wr sent (sz - sent))"
    have s: "sent < ?s" "?s < sz" using False b Suc.prems by auto
    have "sz - ?s < fuel" using s Suc.prems by linarith
    from Suc.IH[OF this] s b show ?thesis by (auto simp: Let_def)
  qed
qed

text \<open>What the peer sends before it closes, or the connection breaks or times out.\<close>

fun delivered :: "arrival list \<Rightarrow> char list" where
  "delivered [] = []"
| "delivered (Data bs # is) = bs @ delivered is"
| "delivered (Eof # is) = []"
| "delivered (Again # is) = []"
| "delivered (Broken # is) = []"

text \<open>The peer sends pieces that are not empty, and stops.\<close>

fun stops :: "arrival list \<Rightarrow> bool" where
  "stops [] = False"
| "stops (Data bs # is) = (bs \<noteq> [] \<and> stops is)"
| "stops (Eof # is) = True"
| "stops (Again # is) = True"
| "stops (Broken # is) = True"

lemma demo_read_full: "demo_read (Suc fuel) is n b n = (if is = [] then Inl Diverge else Inr (b, n))"
  by (cases "is" rule: stops.cases) simp_all

lemma demo_read_all:
  assumes "stops is" and "length bs \<le> n" and "length is + 1 < fuel"
  shows "demo_read fuel is n (zeroed n bs) (length bs) =
    Inr (zeroed n (take n (bs @ delivered is)), min n (length (bs @ delivered is)))"
  using assms
proof (induction "is" arbitrary: bs fuel)
  case Nil
  then show ?case by simp
next
  case (Cons x xs)
  obtain f where f: "fuel = Suc f" "length xs + 1 < f" using Cons.prems(3) by (cases fuel) auto
  show ?case
  proof (cases x)
    case (Data ds)
    then have ds: "ds \<noteq> []" "stops xs" using Cons.prems(1) by simp_all
    show ?thesis
    proof (cases "length ds \<le> n - length bs")
      case True
      then have "store_list (zeroed n bs) (length bs) ds = Inr (zeroed n (bs @ ds))"
        using zeroed_store[of bs ds n] Cons.prems(2) by simp
      moreover have "take (n - length bs) ds = ds" using True by simp
      moreover have "\<not> n - length bs < length ds" using True by simp
      moreover have "0 < length ds" using ds by simp
      ultimately show ?thesis using Cons.IH[OF ds(2), of "bs @ ds" f] True Cons.prems(2) f Data by simp
    next
      case False
      let ?d = "take (n - length bs) ds"
      have len: "length ?d = n - length bs" using False by simp
      have whole: "take n (bs @ delivered (x # xs)) = bs @ ?d" "n \<le> length (bs @ delivered (x # xs))"
        using False Cons.prems(2) Data by simp_all
      show ?thesis
      proof (cases "length bs = n")
        case True
        then show ?thesis using whole f Data demo_read_full[of f "x # xs" n "zeroed n bs"] by simp
      next
        case short: False
        then have pos: "0 < n - length bs" using Cons.prems(2) by simp
        have store: "store_list (zeroed n bs) (length bs) ?d = Inr (zeroed n (bs @ ?d))"
          using zeroed_store[of bs ?d n] len Cons.prems(2) by simp
        obtain g where g: "f = Suc g" using f(2) by (cases f) auto
        have rest: "demo_read f (Data (drop (n - length bs) ds) # xs) n b n = Inr (b, n)" for b
          unfolding g by (simp only: demo_read_full) simp
        have sz: "length bs + nat (int n - int (length bs)) = n" using Cons.prems(2) by simp
        have "demo_read (Suc f) (x # xs) n (zeroed n bs) (length bs) = Inr (zeroed n (bs @ ?d), n)"
          using False pos len store Data rest by (simp add: nat_diff_distrib' sz)
        then show ?thesis using whole f(1) by simp
      qed
    qed
  qed (use f Cons.prems(2) in simp_all)
qed

text \<open>
  With every call succeeding, a response shorter than the buffer is printed up to its first 0; one
  that fills the buffer without a 0 is read beyond the buffer.
\<close>

definition demo_ready :: "demo_env \<Rightarrow> bool" where
  "demo_ready e =
     (0 \<le> d_socket e \<and> (\<exists>h. d_host e = Some h \<and> h_length h = 4 \<and> length (h_addr h) = 4) \<and> 0 \<le> d_connect e \<and>
      socket_takes (d_write e) \<and> d_malloc e \<and> stops (d_arrivals e))"

lemma demo_main_shows:
  assumes "demo_ready e" and "length demo_message < fuel" and "length (d_arrivals e) + 1 < fuel"
  shows "demo_main fuel e =
    (let bs = take DEMO_TOTAL (delivered (d_arrivals e)) in
     if length bs < DEMO_TOTAL \<or> NUL \<in> set bs then Inr (c_string bs) else Inl Undefined)"
proof -
  obtain k where "demo_write fuel (d_write e) (length demo_message) 0 = Inr k"
    using demo_write_ends[of "d_write e" "length demo_message" 0 fuel] assms by (auto simp: demo_ready_def)
  moreover have "demo_read fuel (d_arrivals e) DEMO_TOTAL (zeroed DEMO_TOTAL []) 0 =
      Inr (zeroed DEMO_TOTAL (take DEMO_TOTAL (delivered (d_arrivals e))), min DEMO_TOTAL (length (delivered (d_arrivals e))))"
    using demo_read_all[of "d_arrivals e" "[]" DEMO_TOTAL fuel] assms by (simp add: demo_ready_def)
  ultimately show ?thesis
    using assms(1) zeroed_string[of "take DEMO_TOTAL (delivered (d_arrivals e))" DEMO_TOTAL]
    by (auto simp: demo_main_def demo_ready_def Let_def)
qed

text \<open>A failed call ends in the undeclared \<open>error\<close>.\<close>

lemma demo_main_fails:
  "d_socket e < 0 \<or> d_host e = None \<Longrightarrow> demo_main fuel e = Inl Undefined"
  by (cases "d_socket e < 0") (auto simp: demo_main_def)

section \<open>The greetings of \<open>server.c\<close> and \<open>client.c\<close>\<close>

definition GREETING_SIZE :: nat where
  "GREETING_SIZE = 1024"

text \<open>
  The exit status, the lines printed, and the calls that open, bind, connect, write and close;
  \<open>setsockopt\<close> and the final \<open>shutdown\<close> of the listening socket are not recorded.
\<close>

type_synonym outcome = "int \<times> char list list \<times> io list"

text \<open>One \<open>read\<close> into the zeroed buffer, whatever it returns, and the string in it.\<close>

definition read_greeting :: "arrival list \<Rightarrow> char list res" where
  "read_greeting is =
     bind_r (sys_read GREETING_SIZE is) (\<lambda>(a, is).
     bind_r (store_list (zeroed GREETING_SIZE []) 0 (a_bytes a)) (\<lambda>buffer. cstring_at buffer 0))"

record hello_server_env =
  hs_socket :: int
  hs_setsockopt :: int
  hs_bind :: int
  hs_listen :: int
  hs_accept :: int
  hs_arrivals :: "arrival list"

definition server_hello :: "char list" where
  "server_hello = ''Hello from server''"

definition client_hello :: "char list" where
  "client_hello = ''Hello from client''"

definition HELLO_PORT :: "16 word" where
  "HELLO_PORT = 8080"

definition hello_server :: "hello_server_env \<Rightarrow> outcome res" where
  "hello_server e =
     (let fd = hs_socket e; opened = [Socket fd]; bound = opened @ [Bind fd (htons HELLO_PORT)];
          listening = bound @ [Listen fd 3]; new = hs_accept e in
      if fd < 0 then Inr (1, [], [])
      else if hs_setsockopt e \<noteq> 0 then Inr (1, [], opened)
      else if hs_bind e < 0 then Inr (1, [], bound)
      else if hs_listen e < 0 then Inr (1, [], listening)
      else if new < 0 then Inr (1, [], listening)
      else bind_r (read_greeting (hs_arrivals e)) (\<lambda>text.
        Inr (0, [text, ''Hello message sent''], listening @ [Write new server_hello, Close new])))"

record hello_client_env =
  hc_socket :: int
  hc_connect :: int
  hc_junk :: sockaddr_in
  hc_arrivals :: "arrival list"

text \<open>\<open>inet_pton\<close> accepts the literal address. \<open>close\<close> gets the result of \<open>connect\<close>, not the socket.\<close>

definition local_address :: "sockaddr_in \<Rightarrow> sockaddr_in" where
  "local_address a = a\<lparr>sin_family := AF_INET, sin_port := htons HELLO_PORT, s_addr := [127, 0, 0, 1]\<rparr>"

definition hello_client :: "hello_client_env \<Rightarrow> outcome res" where
  "hello_client e =
     (let sock = hc_socket e; opened = [Socket sock, Connect sock (local_address (hc_junk e))]; client_fd = hc_connect e in
      if sock < 0 then Inr (-1, ['' Socket creation error ''], [])
      else if client_fd < 0 then Inr (-1, [''Connection Failed ''], opened)
      else bind_r (read_greeting (hc_arrivals e)) (\<lambda>text.
        Inr (0, [''Hello message sent'', text], opened @ [Write sock client_hello, Close client_fd])))"

lemma read_greeting_data:
  assumes "bs \<noteq> []"
  shows "read_greeting (Data bs # is) =
    (let t = take GREETING_SIZE bs in
     if length t < GREETING_SIZE \<or> NUL \<in> set t then Inr (c_string t) else Inl Undefined)"
proof -
  let ?t = "take GREETING_SIZE bs"
  have "store_list (zeroed GREETING_SIZE []) 0 ?t = Inr (zeroed GREETING_SIZE ?t)"
    using zeroed_store[of "[]" ?t GREETING_SIZE] by simp
  then show ?thesis using zeroed_string[of ?t GREETING_SIZE] by (simp add: read_greeting_def Let_def)
qed

text \<open>The two programs with each other: both print the other's greeting.\<close>

lemma greetings:
  assumes "0 \<le> hs_socket e" "hs_setsockopt e = 0" "0 \<le> hs_bind e" "0 \<le> hs_listen e" "0 \<le> hs_accept e"
    and "hs_arrivals e = [Data client_hello]"
    and "0 \<le> hc_socket c" "hc_connect c = 0" "hc_arrivals c = [Data server_hello]"
  shows "\<exists>log log'. hello_server e = Inr (0, [client_hello, ''Hello message sent''], log) \<and>
    hello_client c = Inr (0, [''Hello message sent'', server_hello], log') \<and> Close 0 \<in> set log' \<and>
    (0 < hc_socket c \<longrightarrow> Close (hc_socket c) \<notin> set log')"
  using assms read_greeting_data[of client_hello "[]"] read_greeting_data[of server_hello "[]"]
  by (simp add: hello_server_def hello_client_def Let_def client_hello_def server_hello_def GREETING_SIZE_def)

text \<open>A greeting of at least 1024 bytes without a 0 is read beyond the buffer.\<close>

lemma long_greeting:
  assumes "0 \<le> hs_socket e" "hs_setsockopt e = 0" "0 \<le> hs_bind e" "0 \<le> hs_listen e" "0 \<le> hs_accept e"
    and "hs_arrivals e = [Data bs]" and "GREETING_SIZE \<le> length bs" and "NUL \<notin> set bs"
  shows "hello_server e = Inl Undefined"
proof -
  have "bs \<noteq> []" using assms(7) by (auto simp: GREETING_SIZE_def)
  moreover have "NUL \<notin> set (take GREETING_SIZE bs)" using assms(8) by (auto dest: in_set_takeD)
  ultimately show ?thesis using assms read_greeting_data[of bs "[]"]
    by (simp add: hello_server_def Let_def)
qed

end
