(* ===== verification/Thread_Cancel.thy ===== *)
theory Thread_Cancel
  imports Transition
begin

text \<open>
  \<open>task4.c\<close> and \<open>task5.c\<close>: \<open>main\<close> creates a thread that prints for ever, cancels it and joins it; in
  \<open>task5.c\<close> a cleanup handler is to print a message. A pending cancellation is acted upon in \<open>usleep\<close>,
  and may be acted upon in \<open>printf\<close>.
\<close>

section \<open>State and steps\<close>

datatype child_pc = Unborn | ChildPrints | ChildPauses | Cleans | Gone

datatype canceller_pc = Creates | Sleeps | Cancels | Joins | Returns

record cancel_t =
  c_screen :: "char list list"
  c_child :: child_pc
  c_main :: canceller_pc
  c_pending :: bool

definition child_message :: "char list" where
  "child_message = ''child pthead''"

text \<open>What a handler calls, in order; nothing after \<open>pthread_exit\<close> is executed.\<close>

datatype call = Pthread_exit | Printf "char list"

fun run_calls :: "call list \<Rightarrow> char list list \<Rightarrow> char list list" where
  "run_calls [] screen = screen"
| "run_calls (Pthread_exit # cs) screen = screen"
| "run_calls (Printf t # cs) screen = run_calls cs (screen @ [t])"

text \<open>The message of \<open>task5.c\<close>, the bytes of its Cyrillic text.\<close>

definition cancel_message :: "char list" where
  "cancel_message = map char_of [208, 188, 208, 181, 208, 189, 209, 143, 32, 208, 190, 209, 130, 208, 188,
     208, 181, 208, 189, 208, 184, 208, 187, 208, 184, 40, 40, 40, 40 :: nat]"

definition cancel_handler :: "call list" where
  "cancel_handler = [Pthread_exit, Printf cancel_message]"

text \<open>\<open>handlers\<close> is what was pushed with \<open>pthread_cleanup_push\<close>: nothing in \<open>task4.c\<close>.\<close>

definition printing_thread :: "call list \<Rightarrow> cancel_t \<Rightarrow> cancel_t list" where
  "printing_thread handlers s = (case c_child s of
     Unborn \<Rightarrow> []
   | ChildPrints \<Rightarrow> s\<lparr>c_screen := c_screen s @ [child_message], c_child := ChildPauses\<rparr> #
       (if c_pending s then [s\<lparr>c_child := Cleans\<rparr>] else [])
   | ChildPauses \<Rightarrow> [s\<lparr>c_child := if c_pending s then Cleans else ChildPrints\<rparr>]
   | Cleans \<Rightarrow> [s\<lparr>c_screen := run_calls handlers (c_screen s), c_child := Gone\<rparr>]
   | Gone \<Rightarrow> [])"

definition subroutine4 :: "cancel_t \<Rightarrow> cancel_t list" where
  "subroutine4 = printing_thread []"

definition subroutine5 :: "cancel_t \<Rightarrow> cancel_t list" where
  "subroutine5 = printing_thread cancel_handler"

definition main4 :: "cancel_t \<Rightarrow> cancel_t list" where
  "main4 s = (case c_main s of
     Creates \<Rightarrow> [s\<lparr>c_child := ChildPrints, c_main := Sleeps\<rparr>]
   | Sleeps \<Rightarrow> [s\<lparr>c_main := Cancels\<rparr>]
   | Cancels \<Rightarrow> [s\<lparr>c_pending := True, c_main := Joins\<rparr>]
   | Joins \<Rightarrow> (if c_child s = Gone then [s\<lparr>c_main := Returns\<rparr>] else [])
   | Returns \<Rightarrow> [])"

text \<open>The two differ in how long they sleep.\<close>

definition main5 :: "cancel_t \<Rightarrow> cancel_t list" where
  "main5 = main4"

definition cancel_start :: cancel_t where
  "cancel_start = \<lparr>c_screen = [], c_child = Unborn, c_main = Creates, c_pending = False\<rparr>"

inductive cancel_step :: "(cancel_t \<Rightarrow> cancel_t list) \<Rightarrow> (cancel_t \<Rightarrow> cancel_t list) \<Rightarrow> cancel_t \<Rightarrow> cancel_t \<Rightarrow> bool"
  for child main where
  child_moves: "c_main s \<noteq> Returns \<Longrightarrow> s' \<in> set (child s) \<Longrightarrow> cancel_step child main s s'"
| canceller_moves: "s' \<in> set (main s) \<Longrightarrow> cancel_step child main s s'"

inductive_cases cancel_stepE: "cancel_step child main s s'"

section \<open>What the screen shows\<close>

definition cancel_inv :: "cancel_t \<Rightarrow> bool" where
  "cancel_inv s =
     (set (c_screen s) \<subseteq> {child_message} \<and> (c_child s = Unborn) = (c_main s = Creates) \<and>
      c_pending s = (c_main s \<in> {Joins, Returns}) \<and> (c_child s \<in> {Cleans, Gone} \<longrightarrow> c_pending s) \<and>
      (c_main s = Returns \<longrightarrow> c_child s = Gone))"

text \<open>A handler that prints nothing, be it missing or one that calls \<open>pthread_exit\<close> first.\<close>

definition quiet :: "call list \<Rightarrow> bool" where
  "quiet handlers = (handlers = [] \<or> hd handlers = Pthread_exit)"

lemma quiet_handlers: "quiet []" "quiet cancel_handler"
  by (simp_all add: quiet_def cancel_handler_def)

lemma quiet_calls: "quiet handlers \<Longrightarrow> run_calls handlers screen = screen"
  by (cases "(handlers, screen)" rule: run_calls.cases) (auto simp: quiet_def)

lemma cancel_inv_step:
  assumes "quiet handlers" and "cancel_inv s" and "cancel_step (printing_thread handlers) main4 s s'"
  shows "cancel_inv s'"
  using assms(3)
proof (rule cancel_stepE)
  assume "c_main s \<noteq> Returns" "s' \<in> set (printing_thread handlers s)"
  then show ?thesis using assms(2) quiet_calls[OF assms(1)]
    by (cases "c_child s") (auto simp: cancel_inv_def printing_thread_def split: if_splits)
next
  assume "s' \<in> set (main4 s)"
  then show ?thesis using assms(2)
    by (cases "c_main s") (auto simp: cancel_inv_def main4_def split: if_splits)
qed

text \<open>Either \<open>main\<close> goes on, or it waits in \<open>join\<close> for a thread that does.\<close>

lemma cancel_progress: "cancel_inv s \<Longrightarrow> c_main s \<noteq> Returns \<Longrightarrow> \<exists>s'. cancel_step (printing_thread handlers) main4 s s'"
proof (cases "main4 s")
  case (Cons s' ss)
  then have "s' \<in> set (main4 s)" by simp
  then show ?thesis by (blast intro: canceller_moves)
next
  case Nil
  assume i: "cancel_inv s" "c_main s \<noteq> Returns"
  then have "c_main s = Joins" "c_child s \<noteq> Gone" "c_child s \<noteq> Unborn"
    using Nil by (auto simp: main4_def cancel_inv_def split: canceller_pc.splits if_splits)
  then obtain s' where "s' \<in> set (printing_thread handlers s)"
    by (cases "c_child s") (auto simp: printing_thread_def)
  then show ?thesis using i(2) by (blast intro: child_moves)
qed

definition quietly :: "call list \<Rightarrow> call list" where
  "quietly handlers = (if quiet handlers then handlers else [])"

interpretation canc: progressing_system "\<lambda>s. s = cancel_start" "cancel_step (printing_thread (quietly hs)) main4" cancel_inv "\<lambda>s. c_main s = Returns" for hs
proof
  show "s = cancel_start \<Longrightarrow> cancel_inv s" for s
    by (simp add: cancel_start_def cancel_inv_def)
  show "cancel_inv s \<Longrightarrow> cancel_step (printing_thread (quietly hs)) main4 s s' \<Longrightarrow> cancel_inv s'" for s s'
    by (rule cancel_inv_step[of "quietly hs"]) (auto simp: quietly_def quiet_handlers)
  show "cancel_inv s \<Longrightarrow> \<not> c_main s = Returns \<Longrightarrow> \<exists>s'. cancel_step (printing_thread (quietly hs)) main4 s s'" for s
    by (rule cancel_progress)
qed

text \<open>The program can always be finished: the cancellation takes effect at the next \<open>usleep\<close>.\<close>

lemma cancel_finishes:
  assumes "cancel_inv s"
  shows "\<exists>s'. (cancel_step (printing_thread handlers) main4)\<^sup>*\<^sup>* s s' \<and> c_main s' = Returns"
proof -
  let ?R = "cancel_step (printing_thread handlers) main4"
  have joins: "\<exists>s'. ?R\<^sup>*\<^sup>* s s' \<and> c_main s' = Returns" if "c_main s = Joins" "c_pending s" "c_child s \<noteq> Unborn" for s
  proof -
    have gone: "\<exists>s'. ?R\<^sup>*\<^sup>* s s' \<and> c_main s' = Returns" if "c_main s = Joins" "c_child s = Gone" for s
      using that by (intro exI[of _ "s\<lparr>c_main := Returns\<rparr>"]) (auto simp: main4_def intro!: canceller_moves)
    have cleans: "\<exists>s'. ?R\<^sup>*\<^sup>* s s' \<and> c_main s' = Returns" if "c_main s = Joins" "c_child s = Cleans" for s
    proof -
      let ?t = "s\<lparr>c_screen := run_calls handlers (c_screen s), c_child := Gone\<rparr>"
      have "?R s ?t" using that by (intro child_moves) (simp_all add: printing_thread_def)
      then show ?thesis using gone[of ?t] that by (auto intro: converse_rtranclp_into_rtranclp)
    qed
    have acts: "?R s (s\<lparr>c_child := Cleans\<rparr>)" if "c_main s = Joins" "c_pending s" "c_child s \<in> {ChildPrints, ChildPauses}" for s
      using that by (intro child_moves) (auto simp: printing_thread_def)
    show ?thesis
    proof (cases "c_child s \<in> {ChildPrints, ChildPauses}")
      case True
      then show ?thesis using acts[of s] cleans[of "s\<lparr>c_child := Cleans\<rparr>"] that
        by (auto intro: converse_rtranclp_into_rtranclp)
    next
      case False
      then show ?thesis using gone cleans that by (cases "c_child s") auto
    qed
  qed
  have cancels: "\<exists>s'. ?R\<^sup>*\<^sup>* s s' \<and> c_main s' = Returns" if "c_main s = Cancels" "c_child s \<noteq> Unborn" for s
  proof -
    let ?t = "s\<lparr>c_pending := True, c_main := Joins\<rparr>"
    have "?R s ?t" using that by (intro canceller_moves) (simp add: main4_def)
    then show ?thesis using joins[of ?t] that by (auto intro: converse_rtranclp_into_rtranclp)
  qed
  have sleeps: "\<exists>s'. ?R\<^sup>*\<^sup>* s s' \<and> c_main s' = Returns" if "c_main s = Sleeps" "c_child s \<noteq> Unborn" for s
  proof -
    let ?t = "s\<lparr>c_main := Cancels\<rparr>"
    have "?R s ?t" using that by (intro canceller_moves) (simp add: main4_def)
    then show ?thesis using cancels[of ?t] that by (auto intro: converse_rtranclp_into_rtranclp)
  qed
  have creates: "\<exists>s'. ?R\<^sup>*\<^sup>* s s' \<and> c_main s' = Returns" if "c_main s = Creates" for s
  proof -
    let ?t = "s\<lparr>c_child := ChildPrints, c_main := Sleeps\<rparr>"
    have "?R s ?t" using that by (intro canceller_moves) (simp add: main4_def)
    then show ?thesis using sleeps[of ?t] that by (auto intro: converse_rtranclp_into_rtranclp)
  qed
  show ?thesis
    using assms joins[of s] cancels[of s] sleeps[of s] creates[of s]
    by (cases "c_main s") (auto simp: cancel_inv_def)
qed

text \<open>The message of the handler of \<open>task5.c\<close> is never printed.\<close>

lemma handler_is_silent:
  assumes "reachable (\<lambda>s. s = cancel_start) (cancel_step subroutine5 main5) s"
  shows "cancel_message \<notin> set (c_screen s) \<and> (c_main s = Returns \<or> (\<exists>s'. cancel_step subroutine5 main5 s s')) \<and>
    (\<exists>s'. (cancel_step subroutine5 main5)\<^sup>*\<^sup>* s s' \<and> c_main s' = Returns)"
proof -
  have q: "cancel_step (printing_thread (quietly cancel_handler)) main4 = cancel_step subroutine5 main5"
    by (simp add: quietly_def quiet_handlers subroutine5_def main5_def)
  have inv: "cancel_inv s" using canc.reachable_inv[of cancel_handler s, unfolded q] assms by blast
  have "set (c_screen s) \<subseteq> {child_message}" using inv by (simp add: cancel_inv_def)
  moreover have "cancel_message \<noteq> child_message"
  proof
    assume "cancel_message = child_message"
    then have "length cancel_message = length child_message" by simp
    then show False by (simp add: cancel_message_def child_message_def)
  qed
  ultimately have "cancel_message \<notin> set (c_screen s)" by auto
  then show ?thesis using canc.no_deadlock[of cancel_handler s, unfolded q] assms cancel_finishes[OF inv, of cancel_handler]
    by (simp add: q subroutine5_def main5_def)
qed

end
