(* ===== verification/Dinner.thy ===== *)
theory Dinner
  imports Transition
begin

text \<open>
  How \<open>main\<close> of \<open>task10.c\<close> and of \<open>task22.c\<close> lets the philosophers in: for each rank in turn it
  initialises a fork and creates a philosopher, who may be moving before the forks of the next ones
  are there. What has been called is a number \<open>k\<close>: the even calls initialise, the odd ones create.
\<close>

definition forks_ready :: "nat \<Rightarrow> nat" where
  "forks_ready k = (k + 1) div 2"

definition seated :: "nat \<Rightarrow> nat" where
  "seated k = k div 2"

text \<open>
  \<open>moves p\<close> is a step of philosopher \<open>p\<close>, \<open>uses p\<close> the forks the step hands to the library. A fork
  that is not initialised has no defined behaviour: such a step is no step of \<open>evening\<close>, and
  \<open>too_early\<close> says that it may come next.
\<close>

inductive evening :: "nat \<Rightarrow> (nat \<Rightarrow> 's \<Rightarrow> 's \<Rightarrow> bool) \<Rightarrow> (nat \<Rightarrow> 's \<Rightarrow> nat set) \<Rightarrow> 's \<times> nat \<Rightarrow> 's \<times> nat \<Rightarrow> bool"
  for n moves uses where
  main_calls: "k < 2 * n \<Longrightarrow> evening n moves uses (s, k) (s, k + 1)"
| guest_moves: "p < seated k \<Longrightarrow> uses p s \<subseteq> {..<forks_ready k} \<Longrightarrow> moves p s s' \<Longrightarrow> evening n moves uses (s, k) (s', k)"

inductive_cases eveningE: "evening n moves uses (s, k) y"

definition too_early :: "(nat \<Rightarrow> 's \<Rightarrow> nat set) \<Rightarrow> nat \<Rightarrow> 's \<times> nat \<Rightarrow> bool" where
  "too_early uses p x = (p < seated (snd x) \<and> \<not> uses p (fst x) \<subseteq> {..<forks_ready (snd x)})"

lemma all_seated [simp]: "forks_ready (2 * n) = n" "seated (2 * n) = n"
  by (simp_all add: forks_ready_def seated_def)

lemma seated_le: "k \<le> 2 * n \<Longrightarrow> seated k \<le> n"
  by (simp add: seated_def)

lemma main_calls_star: "k \<le> 2 * n \<Longrightarrow> (evening n moves uses)\<^sup>*\<^sup>* (s, k) (s, 2 * n)"
proof (induction "2 * n - k" arbitrary: k)
  case (Suc d)
  then have k: "k < 2 * n" "d = 2 * n - (k + 1)" "k + 1 \<le> 2 * n" by simp_all
  have "evening n moves uses (s, k) (s, k + 1)" using k(1) by (rule main_calls)
  then show ?case using Suc.hyps(1)[OF k(2,3)] by (rule converse_rtranclp_into_rtranclp)
qed simp

lemma entrance_reachable: "k \<le> 2 * n \<Longrightarrow> reachable (\<lambda>x. x = (s, 0)) (evening n moves uses) (s, k)"
proof (induction k)
  case (Suc k)
  then have "evening n moves uses (s, k) (s, Suc k)" using main_calls[of k n moves uses s] by simp
  then show ?case using Suc by (auto intro: reach_step)
qed (simp add: reach_start)

section \<open>A dinner with everybody seated, and one with an entrance\<close>

locale dinner =
  fixes n :: nat
    and start :: 's
    and moves :: "nat \<Rightarrow> 's \<Rightarrow> 's \<Rightarrow> bool"
    and uses :: "nat \<Rightarrow> 's \<Rightarrow> nat set"
    and inv :: "'s \<Rightarrow> bool"
    and finished :: "'s \<Rightarrow> bool"
  assumes inv_start: "inv start"
    and inv_moves: "inv s \<Longrightarrow> p < n \<Longrightarrow> moves p s s' \<Longrightarrow> inv s'"
    and somebody_moves: "inv s \<Longrightarrow> \<not> finished s \<Longrightarrow> \<exists>p < n. \<exists>s'. moves p s s'"
    and forks_used: "p < n \<Longrightarrow> uses p s \<subseteq> {..<n}"
begin

lemma guest_at_table: "p < n \<Longrightarrow> moves p s s' \<Longrightarrow> evening n moves uses (s, 2 * n) (s', 2 * n)"
  by (rule guest_moves) (simp_all add: forks_used)

lemma never_too_early: "\<not> too_early uses p (s, 2 * n)"
  by (auto simp: too_early_def dest: forks_used[THEN subsetD])

lemma evening_inv: "inv s \<and> k \<le> 2 * n \<Longrightarrow> evening n moves uses (s, k) (s', k') \<Longrightarrow> inv s' \<and> k' \<le> 2 * n"
  by (erule eveningE) (auto intro: inv_moves dest: seated_le order_less_le_trans)

lemma evening_goes_on: "inv s \<Longrightarrow> k \<le> 2 * n \<Longrightarrow> \<not> (k = 2 * n \<and> finished s) \<Longrightarrow> \<exists>y. evening n moves uses (s, k) y"
proof (cases "k < 2 * n")
  case False
  assume "inv s" "k \<le> 2 * n" "\<not> (k = 2 * n \<and> finished s)"
  then show ?thesis using False somebody_moves[of s] guest_at_table[of _ s] by (metis le_neq_implies_less)
qed (blast intro: main_calls)

end

sublocale dinner \<subseteq> pt: progressing_system "\<lambda>x. x = (start, 0)" "evening n moves uses"
  "\<lambda>x. inv (fst x) \<and> snd x \<le> 2 * n" "\<lambda>x. snd x = 2 * n \<and> finished (fst x)"
proof
  show "x = (start, 0) \<Longrightarrow> inv (fst x) \<and> snd x \<le> 2 * n" for x by (simp add: inv_start)
  show "inv (fst y) \<and> snd y \<le> 2 * n" if "inv (fst x) \<and> snd x \<le> 2 * n" "evening n moves uses x y" for x y
    using evening_inv[of "fst x" "snd x" "fst y" "snd y"] that by simp
  show "\<exists>y. evening n moves uses x y" if "inv (fst x) \<and> snd x \<le> 2 * n" "\<not> (snd x = 2 * n \<and> finished (fst x))" for x
    using evening_goes_on[of "fst x" "snd x"] that by simp
qed

text \<open>With a rank that every step lowers, the evening ends.\<close>

locale ending_dinner = dinner n start moves uses inv finished
  for n :: nat and start :: 's and moves uses inv finished +
  fixes rank :: "'s \<Rightarrow> nat"
  assumes moves_down: "inv s \<Longrightarrow> p < n \<Longrightarrow> moves p s s' \<Longrightarrow> rank s' < rank s"

sublocale ending_dinner \<subseteq> pe: terminating_system "\<lambda>x. x = (start, 0)" "evening n moves uses"
  "\<lambda>x. inv (fst x) \<and> snd x \<le> 2 * n" "\<lambda>x. snd x = 2 * n \<and> finished (fst x)" "\<lambda>x. rank (fst x) + (2 * n - snd x)"
proof
  show "rank (fst y) + (2 * n - snd y) < rank (fst x) + (2 * n - snd x)"
    if "inv (fst x) \<and> snd x \<le> 2 * n" "evening n moves uses x y" for x y
    using that(2)
  proof cases
    case (guest_moves p k s s')
    then have "p < n" using that(1) seated_le[of k n] by simp
    then have "rank s' < rank s" using moves_down[of s p s'] guest_moves that(1) by simp
    then show ?thesis using guest_moves that(1) by (simp add: add_strict_right_mono del: add_diff_assoc)
  qed (use that(1) in simp)
qed

end
