(* ===== verification/Philosophers.thy ===== *)
theory Philosophers
  imports Dinner
begin

text \<open>
  \<open>task10.c\<close>: five dining philosophers. Each takes its two forks in
  ascending order. A step is one call that may block, or one that releases a fork.
\<close>

definition COUNT_OF_PHIL :: nat where
  "COUNT_OF_PHIL = 5"

text \<open>The bound of the loop in \<open>phil\<close>.\<close>

definition ROUNDS :: nat where
  "ROUNDS = 2000000000"

definition left_fork :: "nat \<Rightarrow> nat" where
  "left_fork rank = (if rank = COUNT_OF_PHIL - 1 then 0 else rank)"

definition right_fork :: "nat \<Rightarrow> nat" where
  "right_fork rank = (if rank = COUNT_OF_PHIL - 1 then COUNT_OF_PHIL - 1 else rank + 1)"

lemma forks_ordered: "rank < COUNT_OF_PHIL \<Longrightarrow> left_fork rank < right_fork rank \<and> right_fork rank < COUNT_OF_PHIL"
  by (auto simp: left_fork_def right_fork_def COUNT_OF_PHIL_def)

section \<open>Forks in order\<close>

text \<open>\<open>PutRight\<close>: the right fork is back, the left one not yet.\<close>

datatype phil_pc = Thinking | HasLeft | Eating | PutRight

record table_t =
  pcs :: "nat \<Rightarrow> phil_pc"
  rounds :: "nat \<Rightarrow> nat"
  forks :: "nat \<Rightarrow> nat option"

definition at_table :: "table_t" where
  "at_table = \<lparr>pcs = (\<lambda>_. Thinking), rounds = (\<lambda>_. 0), forks = (\<lambda>_. None)\<rparr>"

text \<open>\<open>None\<close>: the philosopher is blocked on a fork, or has left the loop.\<close>

definition phil :: "nat \<Rightarrow> table_t \<Rightarrow> table_t option" where
  "phil p s = (case pcs s p of
     Thinking \<Rightarrow>
       if rounds s p < ROUNDS \<and> forks s (left_fork p) = None
       then Some (s\<lparr>pcs := (pcs s)(p := HasLeft), forks := (forks s)(left_fork p := Some p)\<rparr>) else None
   | HasLeft \<Rightarrow>
       if forks s (right_fork p) = None
       then Some (s\<lparr>pcs := (pcs s)(p := Eating), forks := (forks s)(right_fork p := Some p)\<rparr>) else None
   | Eating \<Rightarrow> Some (s\<lparr>pcs := (pcs s)(p := PutRight), forks := (forks s)(right_fork p := None)\<rparr>)
   | PutRight \<Rightarrow> Some (s\<lparr>pcs := (pcs s)(p := Thinking), forks := (forks s)(left_fork p := None),
       rounds := (rounds s)(p := rounds s p + 1)\<rparr>))"

inductive dine :: "table_t \<Rightarrow> table_t \<Rightarrow> bool" where
  dine: "p < COUNT_OF_PHIL \<Longrightarrow> phil p s = Some s' \<Longrightarrow> dine s s'"

inductive_cases dineE: "dine s s'"

definition all_left :: "table_t \<Rightarrow> bool" where
  "all_left s = (\<forall>p < COUNT_OF_PHIL. pcs s p = Thinking \<and> rounds s p = ROUNDS)"

text \<open>The forks a philosopher holds at each point of the loop.\<close>

fun held :: "nat \<Rightarrow> phil_pc \<Rightarrow> nat set" where
  "held p Thinking = {}"
| "held p HasLeft = {left_fork p}"
| "held p Eating = {left_fork p, right_fork p}"
| "held p PutRight = {left_fork p}"

definition table_inv :: "table_t \<Rightarrow> bool" where
  "table_inv s =
     ((\<forall>f p. forks s f = Some p \<longleftrightarrow> p < COUNT_OF_PHIL \<and> f \<in> held p (pcs s p)) \<and>
      (\<forall>p < COUNT_OF_PHIL. rounds s p \<le> ROUNDS \<and> (pcs s p \<noteq> Thinking \<longrightarrow> rounds s p < ROUNDS)))"

text \<open>A philosopher's place in its loop, and what all together still have to do.\<close>

fun phil_place :: "phil_pc \<Rightarrow> nat" where
  "phil_place Thinking = 0"
| "phil_place HasLeft = 1"
| "phil_place Eating = 2"
| "phil_place PutRight = 3"

definition work_left :: "table_t \<Rightarrow> nat" where
  "work_left s = (\<Sum>p<COUNT_OF_PHIL. 4 * (ROUNDS - rounds s p) - phil_place (pcs s p))"

lemma table_start: "table_inv at_table"
  by (simp add: table_inv_def at_table_def)

lemma neq_forks: "p < COUNT_OF_PHIL \<Longrightarrow> left_fork p \<noteq> right_fork p"
  using forks_ordered by fastforce

lemma fork_free: "table_inv s \<Longrightarrow> forks s f = None \<Longrightarrow> q < COUNT_OF_PHIL \<Longrightarrow> f \<notin> held q (pcs s q)"
  by (auto simp: table_inv_def) (metis option.distinct(1))

lemma fork_mine: "table_inv s \<Longrightarrow> q < COUNT_OF_PHIL \<Longrightarrow> f \<in> held q (pcs s q) \<Longrightarrow> r < COUNT_OF_PHIL \<Longrightarrow>
    f \<in> held r (pcs s r) \<Longrightarrow> q = r"
  by (auto simp: table_inv_def) (metis option.inject)

lemma table_step: "table_inv s \<Longrightarrow> dine s s' \<Longrightarrow> table_inv s'"
proof (erule dineE)
  fix p
  assume i: "table_inv s" and p: "p < COUNT_OF_PHIL" and st: "phil p s = Some s'"
  note n = neq_forks[OF p]
  show "table_inv s'"
  proof (cases "pcs s p")
    case Thinking
    then have "forks s (left_fork p) = None" "rounds s p < ROUNDS"
        "s' = s\<lparr>pcs := (pcs s)(p := HasLeft), forks := (forks s)(left_fork p := Some p)\<rparr>"
      using st by (auto simp: phil_def split: if_splits)
    then show ?thesis using i p n Thinking fork_free[OF i] unfolding table_inv_def by (auto split: if_splits)
  next
    case HasLeft
    then have "forks s (right_fork p) = None"
        "s' = s\<lparr>pcs := (pcs s)(p := Eating), forks := (forks s)(right_fork p := Some p)\<rparr>"
      using st by (auto simp: phil_def split: if_splits)
    then show ?thesis using i p n HasLeft fork_free[OF i] unfolding table_inv_def by (auto split: if_splits)
  next
    case Eating
    then have "s' = s\<lparr>pcs := (pcs s)(p := PutRight), forks := (forks s)(right_fork p := None)\<rparr>"
      using st by (auto simp: phil_def)
    then show ?thesis using i p n Eating fork_mine[OF i p] unfolding table_inv_def by (auto split: if_splits)
  next
    case PutRight
    then have "s' = s\<lparr>pcs := (pcs s)(p := Thinking), forks := (forks s)(left_fork p := None),
        rounds := (rounds s)(p := rounds s p + 1)\<rparr>"
      using st by (auto simp: phil_def)
    then show ?thesis using i p n PutRight fork_mine[OF i p] unfolding table_inv_def by (auto split: if_splits)
  qed
qed

text \<open>Among those who hold only a left fork, the one with the greatest fork is not blocked.\<close>

lemma greatest_moves:
  assumes i: "table_inv s" and h: "p < COUNT_OF_PHIL" "pcs s p = HasLeft"
    and idle: "\<And>q. q < COUNT_OF_PHIL \<Longrightarrow> pcs s q = Thinking \<or> pcs s q = HasLeft"
  shows "\<exists>q < COUNT_OF_PHIL. pcs s q = HasLeft \<and> forks s (right_fork q) = None"
proof -
  let ?H = "{q. q < COUNT_OF_PHIL \<and> pcs s q = HasLeft}"
  have fin: "finite (left_fork ` ?H)" by simp
  have ne: "left_fork ` ?H \<noteq> {}" using h by auto
  obtain q where q: "q \<in> ?H" "left_fork q = Max (left_fork ` ?H)" using Max_in[OF fin ne] by auto
  have "forks s (right_fork q) = None"
  proof (rule ccontr)
    assume "forks s (right_fork q) \<noteq> None"
    then obtain r where r: "forks s (right_fork q) = Some r" by blast
    then have rp: "r < COUNT_OF_PHIL" "right_fork q \<in> held r (pcs s r)" using i by (auto simp: table_inv_def)
    then have "pcs s r = HasLeft" "right_fork q = left_fork r" using idle[OF rp(1)] by auto
    then have "right_fork q \<le> left_fork q" using q(2) rp(1) fin by (auto intro!: Max_ge)
    then show False using forks_ordered[of q] q(1) by auto
  qed
  then show ?thesis using q(1) by blast
qed

lemma table_progress:
  assumes i: "table_inv s" and n: "\<not> all_left s"
  shows "\<exists>s'. dine s s'"
proof -
  have "\<exists>p < COUNT_OF_PHIL. phil p s \<noteq> None"
  proof (cases "\<exists>p < COUNT_OF_PHIL. pcs s p = Eating \<or> pcs s p = PutRight")
    case True
    then show ?thesis by (auto simp: phil_def)
  next
    case False
    then have idle: "q < COUNT_OF_PHIL \<Longrightarrow> pcs s q = Thinking \<or> pcs s q = HasLeft" for q
      by (cases "pcs s q") auto
    show ?thesis
    proof (cases "\<exists>p < COUNT_OF_PHIL. pcs s p = HasLeft")
      case True
      then show ?thesis using greatest_moves[OF i _ _ idle] by (fastforce simp: phil_def)
    next
      case False
      then have th: "q < COUNT_OF_PHIL \<Longrightarrow> pcs s q = Thinking" for q using idle by blast
      then obtain p where p: "p < COUNT_OF_PHIL" "rounds s p \<noteq> ROUNDS" using n by (auto simp: all_left_def)
      have "rounds s p < ROUNDS" using i p by (auto simp: table_inv_def le_neq_implies_less)
      moreover have "forks s (left_fork p) = None"
      proof (cases "forks s (left_fork p)")
        case (Some q)
        then have "q < COUNT_OF_PHIL" "left_fork p \<in> held q (pcs s q)" using i by (auto simp: table_inv_def)
        then show ?thesis using th by auto
      qed
      ultimately show ?thesis using p(1) th by (auto simp: phil_def)
    qed
  qed
  then show ?thesis by (auto intro: dine.intros)
qed

lemma work_decreases: "table_inv s \<Longrightarrow> dine s s' \<Longrightarrow> work_left s' < work_left s"
proof (erule dineE)
  fix p
  assume i: "table_inv s" and p: "p < COUNT_OF_PHIL" and st: "phil p s = Some s'"
  let ?f = "\<lambda>s p. 4 * (ROUNDS - rounds s p) - phil_place (pcs s p)"
  have "pcs s p \<noteq> Thinking \<Longrightarrow> rounds s p < ROUNDS" using i p by (auto simp: table_inv_def)
  then have less: "?f s' p < ?f s p" using st
    by (auto simp: phil_def split: phil_pc.splits if_splits)
  have same: "?f s' q = ?f s q" if "q \<noteq> p" for q
    using st that by (auto simp: phil_def split: phil_pc.splits if_splits)
  have le: "\<forall>q \<in> {..<COUNT_OF_PHIL}. ?f s' q \<le> ?f s q"
    using less same by (metis less_imp_le order_refl)
  show "work_left s' < work_left s" unfolding work_left_def
    by (rule sum_strict_mono_ex1) (use p le less in auto)
qed

interpretation ph: terminating_system "\<lambda>s. s = at_table" dine table_inv all_left work_left
  using table_start table_step table_progress work_decreases by unfold_locales auto

text \<open>Neighbours share a fork, so they never eat at the same time.\<close>

lemma never_eat_together:
  assumes "table_inv s" "p < COUNT_OF_PHIL" "q < COUNT_OF_PHIL" "pcs s p = Eating" "pcs s q = Eating"
    and "{left_fork p, right_fork p} \<inter> {left_fork q, right_fork q} \<noteq> {}"
  shows "p = q"
proof -
  obtain f where f: "f \<in> {left_fork p, right_fork p}" "f \<in> {left_fork q, right_fork q}" using assms(6) by blast
  show ?thesis by (rule fork_mine[OF assms(1,2) _ assms(3)]) (use f assms(4,5) in simp_all)
qed

lemma work_at_start: "work_left at_table = COUNT_OF_PHIL * (4 * ROUNDS)"
  by (simp add: work_left_def at_table_def)

section \<open>The entrance\<close>

text \<open>The fork that the next call of a philosopher locks or unlocks.\<close>

definition uses10 :: "nat \<Rightarrow> table_t \<Rightarrow> nat set" where
  "uses10 p s = (case pcs s p of
     Thinking \<Rightarrow> if rounds s p < ROUNDS then {left_fork p} else {}
   | HasLeft \<Rightarrow> {right_fork p}
   | Eating \<Rightarrow> {right_fork p}
   | PutRight \<Rightarrow> {left_fork p})"

definition moves10 :: "nat \<Rightarrow> table_t \<Rightarrow> table_t \<Rightarrow> bool" where
  "moves10 p s s' = (phil p s = Some s')"

text \<open>The program, from the first call of \<open>main\<close>.\<close>

definition main10 :: "table_t \<times> nat \<Rightarrow> table_t \<times> nat \<Rightarrow> bool" where
  "main10 = evening COUNT_OF_PHIL moves10 uses10"

lemma uses10_forks: "p < COUNT_OF_PHIL \<Longrightarrow> uses10 p s \<subseteq> {..<COUNT_OF_PHIL}"
  using forks_ordered[of p] by (auto simp: uses10_def split: phil_pc.splits if_splits)

lemma dine_moves10: "dine s s' \<longleftrightarrow> (\<exists>p < COUNT_OF_PHIL. moves10 p s s')"
  by (auto simp: moves10_def intro: dine.intros elim: dineE)

interpretation dn: ending_dinner COUNT_OF_PHIL at_table moves10 uses10 table_inv all_left work_left
proof
  show "\<exists>p < COUNT_OF_PHIL. \<exists>s'. moves10 p s s'" if "table_inv s" "\<not> all_left s" for s
    using table_progress[OF that] by (auto simp: dine_moves10)
  show "table_inv s'" "work_left s' < work_left s" if "table_inv s" "p < COUNT_OF_PHIL" "moves10 p s s'" for s p s'
    using that table_step[of s s'] work_decreases[of s s'] by (auto simp: dine_moves10)
qed (simp_all add: table_start uses10_forks)

lemma dine_main10: "dine s s' \<Longrightarrow> main10 (s, 2 * COUNT_OF_PHIL) (s', 2 * COUNT_OF_PHIL)"
  unfolding dine_moves10 main10_def by (blast intro: dn.guest_at_table)

text \<open>
  The first philosopher may want its right fork before \<open>main\<close> has initialised it; only the time that
  it thinks first stands against it.
\<close>

lemma first_guest_too_early:
  "\<exists>s. reachable (\<lambda>x. x = (at_table, 0)) main10 (s, 2) \<and> too_early uses10 0 (s, 2)"
proof -
  define s where "s = at_table\<lparr>pcs := (pcs at_table)(0 := HasLeft), forks := (forks at_table)(left_fork 0 := Some 0)\<rparr>"
  let ?R = "reachable (\<lambda>x. x = (at_table, 0)) main10"
  have "?R (at_table, 2)" unfolding main10_def by (rule entrance_reachable) (simp add: COUNT_OF_PHIL_def)
  then have "?R (s, 2)"
  proof (rule reach_step)
    show "main10 (at_table, 2) (s, 2)" unfolding main10_def
      by (rule guest_moves[of 0])
        (simp_all add: seated_def forks_ready_def uses10_def moves10_def phil_def s_def at_table_def left_fork_def
          COUNT_OF_PHIL_def ROUNDS_def)
  qed
  moreover have "too_early uses10 0 (s, 2)"
    by (simp add: too_early_def seated_def forks_ready_def uses10_def s_def right_fork_def COUNT_OF_PHIL_def)
  ultimately show ?thesis by blast
qed

end
