(* ===== verification/Lab_Samples.thy ===== *)
theory Lab_Samples
  imports List18 Blocking_Queue Philosophers Ping_Pong Pager
begin

text \<open>Concrete lists, queues and buffers, and the predicates they satisfy: inputs for evaluating the models.\<close>

definition three_nodes18 :: "char list \<Rightarrow> char list \<Rightarrow> char list \<Rightarrow> list18_t" where
  "three_nodes18 s1 s2 s3 = \<lparr>term_next18 = Some 0, term_mutex = Unlocked, count18 = 3, mutex18 = Unlocked,
     sorting_count = 0, status = FREE,
     heap18 = (\<lambda>_. None)(0 \<mapsto> \<lparr>nxt18 = Some 1, nmutex = Unlocked, str18 = s1\<rparr>,
       1 \<mapsto> \<lparr>nxt18 = Some 2, nmutex = Unlocked, str18 = s2\<rparr>,
       2 \<mapsto> \<lparr>nxt18 = None, nmutex = Unlocked, str18 = s3\<rparr>)\<rparr>"

lemma three_nodes18_holds: "list18_holds (three_nodes18 s1 s2 s3) [s1, s2, s3]"
  by (auto simp: list18_holds_def three_nodes18_def intro!: exI[of _ "[0, 1, 2]"])

definition empty18 :: list18_t where
  "empty18 = list_init18 (three_nodes18 [] [] [])"

lemma empty18_holds: "list18_holds empty18 []"
  by (auto simp: list18_holds_def empty18_def list_init18_def intro!: exI[of _ "[]"])

definition queue_of_1 :: "'a \<Rightarrow> 'a bq_t" where
  "queue_of_1 x = \<lparr>items = Some \<lparr>blk_len = 2, blk_cell = (\<lambda>i. if i = 1 then Some x else None)\<rparr>,
     is_dropped = False, is_destroyed = False, bq_count = 1, bq_capacity = 2, take_index = 1, put_index = 0,
     bq_mutex = Unlocked\<rparr>"

lemma queue_of_1_ring: "ring (queue_of_1 x) [x]"
  by (simp add: ring_def queue_of_1_def SIZE_MOD_def)

definition buffer_at_0 :: "char list \<Rightarrow> nat \<Rightarrow> char block" where
  "buffer_at_0 t n = \<lparr>blk_len = n, blk_cell = (\<lambda>i. if i < length t then Some (t ! i) else None)\<rparr>"

lemma buffer_at_0_text: "length t \<le> n \<Longrightarrow> text_at (buffer_at_0 t n) 0 t"
  by (simp add: text_at_def buffer_at_0_def)

lemma buffer_at_0_end: "load (buffer_at_0 t n) (length t) = Inl Undefined"
  by (simp add: load_def buffer_at_0_def)

definition pager_input :: "char list \<Rightarrow> pager_env" where
  "pager_input bs = \<lparr>pe_sock = True, pe_keys = False, pe_read = Some bs, pe_read_keys = 0, pe_write = (\<lambda>_ r. int r)\<rparr>"

lemma pager_input_ok: "length bs \<le> IN_BUFFER_SIZE \<Longrightarrow> pager_env_ok (pager_input bs) (pager_start True)"
  by (simp add: pager_env_ok_def pager_input_def pager_start_def writes_all_def)

end
