(* ===== verification/Handler_Progress.thy ===== *)
theory Handler_Progress
  imports Handler_Relay
begin

text \<open>
  The handler gets on: a peer that keeps accepting bytes receives all of them after at most as many
  readiness events as there are bytes, and the step machine goes on to its next state.
\<close>

lemma drop_read:
  assumes "holds v bs" and "k \<le> length bs"
  shows "read_bytes (ptr v) k (sz_sub (cnt v) k) = Inr (drop k bs)"
proof -
  note h = holdsD[OF assms(1)]
  have "sz_sub (cnt v) k = length bs - k" using h assms(2) by simp
  then show ?thesis using read_bytes_represents[OF h(1), of k "length bs - k"] assms(2) by simp
qed

definition seen :: "handler_context_t \<Rightarrow> world \<Rightarrow> world" where
  "seen ctx w = (if client_fd ctx \<noteq> last_fd w then w\<lparr>last_fd := client_fd ctx\<rparr> else w)"

lemma seen_io [simp]: "w_io (seen ctx w) = w_io w"
  by (simp add: seen_def)

section \<open>The response\<close>

lemma send_resp_progress:
  assumes c: "conn L ctx c s" and st: "handling_step ctx = SENDING_RESP" and wr: "0 < e_write e"
    and ev: "fd = client_fd ctx" "has_event events POLLOUT"
  shows "\<exists>ctx' w' es. handle al e fd events (ctx, w) = Inr (ctx', w') \<and> w_io w' = w_io w @ es \<and>
    client_fd ctx' = client_fd ctx \<and> server_fd ctx' = server_fd ctx \<and>
    (if length s \<le> sended ctx + nat (e_write e)
     then handling_step ctx' = HANDLED \<and> sent (client_fd ctx) (L @ es) = s
     else handling_step ctx' = SENDING_RESP \<and> conn (L @ es) ctx' c s \<and> sended ctx' = sended ctx + nat (e_write e))"
proof -
  note h = holdsD[OF connD(3)[OF c]]
  have le: "sended ctx \<le> length s" using connD(7)[OF c] st by (simp add: parsed_def Let_def)
  have sc: "sent (client_fd ctx) L = take (sended ctx) s" "server_fd ctx \<noteq> client_fd ctx"
    using connD(8)[OF c] st by (simp_all add: traffic_def)
  let ?d = "drop (sended ctx) s" and ?w = "seen ctx w"
  have n: "cnt (sbuff ctx) = length s" "sz_sub (length s) (sended ctx) = length s - sended ctx"
    using h le by simp_all
  have rd: "read_bytes (ptr (sbuff ctx)) (sended ctx) (length s - sended ctx) = Inr ?d"
    using drop_read[OF connD(3)[OF c] le] n by simp
  let ?k = "min (nat (e_write e)) (length s - sended ctx)"
  have k: "sys_write e ?d = int ?k" using wr by (auto simp: sys_write_def min_def nat_le_iff)
  let ?es = "if sended ctx < length s then [Write (client_fd ctx) (take ?k ?d)] else []"
  let ?ctx = "ctx\<lparr>sended := sended ctx + ?k\<rparr>"
  have add: "sz_add (sended ctx) ?k = sended ctx + ?k" using h(4) le by simp
  have recv: "send_resp_in_receiving e fd events (ctx, ?w) = Inr (?ctx, log_io ?es ?w)"
    using st ev rd k n add wr le by (auto simp: send_resp_in_receiving_def Let_def)
  have sent: "sent (client_fd ctx) (L @ ?es) = take (sended ctx + ?k) s"
    using sc(1) le by (auto simp: take_add)
  have step: "handle al e fd events (ctx, w) = send_resp_step e fd events (ctx, ?w)"
    using st by (simp add: handle_def handle_resp_def handle_body_def seen_def Let_def)
  show ?thesis
  proof (cases "length s \<le> sended ctx + nat (e_write e)")
    case True
    then have all: "sended ctx + ?k = length s" using le by simp
    obtain ctx2 cs where d: "destroy_context (?ctx, log_io ?es ?w) = Inr (ctx2, log_io cs (log_io ?es ?w))" "closes cs"
        "client_fd ctx2 = client_fd ctx" "server_fd ctx2 = server_fd ctx"
      using destroy_context_live[of ?ctx "log_io ?es ?w"] connD(6)[OF c] by (auto simp: live_def)
    have fin: "handle al e fd events (ctx, w) = Inr (ctx2\<lparr>handling_step := HANDLED\<rparr>, log_io cs (log_io ?es ?w))"
      using step recv d(1) all n by (simp add: send_resp_step_def)
    have "sent (client_fd ctx) (L @ ?es @ cs) = s"
      using sent all closes_no_data[OF d(2)] by (simp only: append_assoc[symmetric] sent_append[of _ "L @ ?es" cs]) simp
    then show ?thesis using fin d(3,4) True
      by (intro exI[of _ "ctx2\<lparr>handling_step := HANDLED\<rparr>"] exI[of _ "log_io cs (log_io ?es ?w)"] exI[of _ "?es @ cs"])
        (simp add: log_io_def)
  next
    case False
    then have k': "?k = nat (e_write e)" "sended ctx + ?k < length s" "sended ctx + nat (e_write e) \<noteq> length s" by simp_all
    have "handle al e fd events (ctx, w) = Inr (?ctx, log_io ?es ?w)"
      using step recv k'(2,3) n by (simp add: send_resp_step_def)
    moreover have "conn (L @ ?es) ?ctx c s"
      using c st sent sc(2) k'(2) by (simp add: conn_defs)
    ultimately show ?thesis using False k' st
      by (intro exI[of _ ?ctx] exI[of _ "log_io ?es ?w"] exI[of _ ?es]) (simp add: log_io_def)
  qed
qed

lemma response_delivered:
  assumes "conn L ctx c s" and "handling_step ctx = SENDING_RESP"
    and "list_all (\<lambda>(e, fd, events). 0 < e_write e \<and> fd = client_fd ctx \<and> has_event events POLLOUT) evs"
    and "length s - sended ctx < length evs"
  shows "\<exists>ctx' w' es. run al evs (ctx, w) = Inr (ctx', w') \<and> w_io w' = w_io w @ es \<and>
    handling_step ctx' = HANDLED \<and> sent (client_fd ctx) (L @ es) = s"
  using assms
proof (induction evs arbitrary: L ctx w)
  case (Cons ev evs)
  obtain e fd events where ev: "ev = (e, fd, events)" "0 < e_write e" "fd = client_fd ctx" "has_event events POLLOUT"
    using Cons.prems(3) by (cases ev) auto
  obtain ctx1 w1 es where h: "handle al e fd events (ctx, w) = Inr (ctx1, w1)" "w_io w1 = w_io w @ es"
      "client_fd ctx1 = client_fd ctx"
      "if length s \<le> sended ctx + nat (e_write e)
       then handling_step ctx1 = HANDLED \<and> sent (client_fd ctx) (L @ es) = s
       else handling_step ctx1 = SENDING_RESP \<and> conn (L @ es) ctx1 c s \<and> sended ctx1 = sended ctx + nat (e_write e)"
    using send_resp_progress[OF Cons.prems(1,2) ev(2-4), of al w] by blast
  have nf: "\<not> finished ctx" by (rule connD(1)[OF Cons.prems(1)])
  show ?case
  proof (cases "length s \<le> sended ctx + nat (e_write e)")
    case True
    then have "handling_step ctx1 = HANDLED" "sent (client_fd ctx) (L @ es) = s" using h(4) by auto
    moreover have "run al evs (ctx1, w1) = Inr (ctx1, w1)"
      using calculation(1) by (cases evs) (auto simp: finished_def)
    ultimately show ?thesis using h nf by (auto simp: ev(1))
  next
    case False
    then have o: "handling_step ctx1 = SENDING_RESP" "conn (L @ es) ctx1 c s" "sended ctx1 = sended ctx + nat (e_write e)"
      using h(4) by auto
    have "length s - sended ctx1 < length evs" using Cons.prems(4) o(3) ev(2) False by simp
    then obtain ctx' w' es' where "run al evs (ctx1, w1) = Inr (ctx', w')" "w_io w' = w_io w1 @ es'"
        "handling_step ctx' = HANDLED" "sent (client_fd ctx1) ((L @ es) @ es') = s"
      using Cons.IH[OF o(2,1), of w1] Cons.prems(3) h(3) by (auto simp: ev(1))
    then show ?thesis using h nf by (auto simp: ev(1) intro!: exI[of _ "es @ es'"])
  qed
qed simp

section \<open>The request\<close>

lemma send_req_progress:
  assumes c: "conn L ctx c s" and st: "handling_step ctx = SENDING_REQ" and wr: "0 < e_write e"
    and ev: "fd = server_fd ctx" "has_event events POLLOUT"
  shows "\<exists>ctx' w' es. handle al e fd events (ctx, w) = Inr (ctx', w') \<and> w_io w' = w_io w @ es \<and>
    client_fd ctx' = client_fd ctx \<and> server_fd ctx' = server_fd ctx \<and> conn (L @ es) ctx' c s \<and>
    (if length c \<le> sended ctx + nat (e_write e)
     then handling_step ctx' = PARSING_RESP_CODE \<and> server_events ctx' = POLLIN
     else handling_step ctx' = SENDING_REQ \<and> sended ctx' = sended ctx + nat (e_write e))"
proof -
  note h = holdsD[OF connD(2)[OF c]]
  have lt: "sended ctx < length c" using connD(7)[OF c] st by (simp add: parsed_def Let_def)
  have sc: "sent (server_fd ctx) L = take (sended ctx) c" "server_fd ctx \<noteq> client_fd ctx"
    using connD(8)[OF c] st by (simp_all add: traffic_def)
  let ?d = "drop (sended ctx) c" and ?w = "seen ctx w"
  have n: "cnt (cbuff ctx) = length c" using h by simp
  have rd: "read_bytes (ptr (cbuff ctx)) (sended ctx) (sz_sub (length c) (sended ctx)) = Inr ?d"
    using drop_read[OF connD(2)[OF c], of "sended ctx"] lt n by simp
  let ?k = "min (nat (e_write e)) (length c - sended ctx)"
  have k: "sys_write e ?d = int ?k" "0 < ?k"
    using wr lt by (auto simp: sys_write_def min_def nat_le_iff)
  let ?es = "[Write (server_fd ctx) (take ?k ?d)]"
  have add: "sz_add (sended ctx) ?k = sended ctx + ?k" using h(4) lt by simp
  have sent: "sent (server_fd ctx) (L @ ?es) = take (sended ctx + ?k) c"
    using sc(1) lt by (simp add: take_add)
  have step: "handle al e fd events (ctx, w) = sending_req_step e fd events (ctx, ?w)"
    using st by (simp add: handle_def seen_def Let_def)
  have run: "sending_req_step e fd events (ctx, ?w) =
      (if sended ctx + ?k = length c
       then Inr (ctx\<lparr>sended := sended ctx + ?k, client_events := 0, server_events := POLLIN, handling_step := PARSING_RESP_CODE\<rparr>, log_io ?es ?w)
       else Inr (ctx\<lparr>sended := sended ctx + ?k\<rparr>, log_io ?es ?w))"
    using st ev k by (simp add: sending_req_step_def Let_def n rd add del: of_nat_min)
  show ?thesis
  proof (cases "length c \<le> sended ctx + nat (e_write e)")
    case True
    then have all: "sended ctx + ?k = length c" using lt by simp
    let ?ctx = "ctx\<lparr>sended := sended ctx + ?k, client_events := 0, server_events := POLLIN, handling_step := PARSING_RESP_CODE\<rparr>"
    have "conn (L @ ?es) ?ctx c s"
      using c st sent sc(2) all by (simp add: conn_defs)
    then show ?thesis using step run all True
      by (intro exI[of _ ?ctx] exI[of _ "log_io ?es ?w"] exI[of _ ?es]) (simp add: log_io_def)
  next
    case False
    then have k': "?k = nat (e_write e)" "sended ctx + ?k < length c" "sended ctx + ?k \<noteq> length c" by simp_all
    have "conn (L @ ?es) (ctx\<lparr>sended := sended ctx + ?k\<rparr>) c s"
      using c st sent sc(2) k'(2) by (simp add: conn_defs)
    then show ?thesis using step run k' False st
      by (intro exI[of _ "ctx\<lparr>sended := sended ctx + ?k\<rparr>"] exI[of _ "log_io ?es ?w"] exI[of _ ?es]) (simp add: log_io_def)
  qed
qed

text \<open>After some of the events the whole request is out and the response is waited for.\<close>

lemma request_delivered:
  assumes "conn L ctx c s" and "handling_step ctx = SENDING_REQ"
    and "list_all (\<lambda>(e, fd, events). 0 < e_write e \<and> fd = server_fd ctx \<and> has_event events POLLOUT) evs"
    and "length c - sended ctx \<le> length evs"
  shows "\<exists>n ctx' w' es. run al (take n evs) (ctx, w) = Inr (ctx', w') \<and> w_io w' = w_io w @ es \<and>
    handling_step ctx' = PARSING_RESP_CODE \<and> conn (L @ es) ctx' c s \<and> sent (server_fd ctx) (L @ es) = c \<and>
    client_fd ctx' = client_fd ctx \<and> server_fd ctx' = server_fd ctx"
  using assms
proof (induction evs arbitrary: L ctx w)
  case Nil
  then show ?case using connD(7)[OF Nil(1)] by (simp add: parsed_def Let_def)
next
  case (Cons ev evs)
  obtain e fd events where ev: "ev = (e, fd, events)" "0 < e_write e" "fd = server_fd ctx" "has_event events POLLOUT"
    using Cons.prems(3) by (cases ev) auto
  obtain ctx1 w1 es where h: "handle al e fd events (ctx, w) = Inr (ctx1, w1)" "w_io w1 = w_io w @ es"
      "client_fd ctx1 = client_fd ctx" "server_fd ctx1 = server_fd ctx" "conn (L @ es) ctx1 c s"
      "if length c \<le> sended ctx + nat (e_write e)
       then handling_step ctx1 = PARSING_RESP_CODE \<and> server_events ctx1 = POLLIN
       else handling_step ctx1 = SENDING_REQ \<and> sended ctx1 = sended ctx + nat (e_write e)"
    using send_req_progress[OF Cons.prems(1,2) ev(2-4), of al w] by blast
  have nf: "\<not> finished ctx" by (rule connD(1)[OF Cons.prems(1)])
  show ?case
  proof (cases "length c \<le> sended ctx + nat (e_write e)")
    case True
    then have st: "handling_step ctx1 = PARSING_RESP_CODE" using h(6) by auto
    have "sent (server_fd ctx) (L @ es) = c" using connD(8)[OF h(5)] st h(4) by (simp add: traffic_def)
    then show ?thesis using h nf st
      by (intro exI[of _ 1] exI[of _ ctx1] exI[of _ w1] exI[of _ es]) (simp add: ev(1))
  next
    case False
    then have o: "handling_step ctx1 = SENDING_REQ" "sended ctx1 = sended ctx + nat (e_write e)" using h(6) by auto
    have "length c - sended ctx1 \<le> length evs" using Cons.prems(4) o(2) ev(2) False by simp
    then obtain n ctx' w' es' where r: "run al (take n evs) (ctx1, w1) = Inr (ctx', w')" "w_io w' = w_io w1 @ es'"
        "handling_step ctx' = PARSING_RESP_CODE" "conn ((L @ es) @ es') ctx' c s"
        "sent (server_fd ctx1) ((L @ es) @ es') = c" "client_fd ctx' = client_fd ctx1" "server_fd ctx' = server_fd ctx1"
      using Cons.IH[OF h(5) o(1), of w1] Cons.prems(3) h(4) by (auto simp: ev(1))
    then show ?thesis using h nf
      by (intro exI[of _ "Suc n"] exI[of _ ctx'] exI[of _ w'] exI[of _ "es @ es'"]) (simp add: ev(1))
  qed
qed

end
