(* ===== verification/Monitor.thy ===== *)
theory Monitor
  imports Transition
begin

text \<open>
  \<open>task12_.c\<close>: two threads that print in turn, with one mutex, one condition and the value that says
  who is next; \<open>main\<close> starts them one after the other. All code of the threads runs under the
  mutex, so a step is what a thread does from getting the mutex to the next wait or to its release.
  \<open>pthread_cond_signal\<close> wakes one sleeping thread, which one is not determined; a wait may also end
  without a signal.
\<close>

datatype who = Main | Plus | Minus

text \<open>\<open>Fresh\<close> threads are created but have not locked the mutex yet; the others are in their loop or have ended.\<close>

datatype life = Unborn | Fresh | InLoop | Ended

record monitor_t =
  mvalue :: int
  stage :: nat
  life_of :: "who \<Rightarrow> life"
  asleep :: "who \<Rightarrow> bool"
  mloops :: "who \<Rightarrow> nat"
  printed :: "who list"

definition COUNT_OF_LOOPS :: nat where
  "COUNT_OF_LOOPS = 10"

text \<open>\<open>my_val\<close> and \<open>other_val\<close> of the contexts; \<open>main\<close> waits for 0.\<close>

fun my_val :: "who \<Rightarrow> int" where
  "my_val Main = 0"
| "my_val Plus = 1"
| "my_val Minus = 2"

fun other_val :: "who \<Rightarrow> int" where
  "other_val Main = 1"
| "other_val Plus = 2"
| "other_val Minus = 1"

text \<open>\<open>main\<close> has initialised the monitor, created the first thread and waits.\<close>

definition monitor_start :: monitor_t where
  "monitor_start = \<lparr>mvalue = -1, stage = 0,
     life_of = (\<lambda>w. case w of Main \<Rightarrow> InLoop | Plus \<Rightarrow> Fresh | Minus \<Rightarrow> Unborn),
     asleep = (\<lambda>w. w = Main), mloops = (\<lambda>_. 0), printed = []\<rparr>"

text \<open>\<open>pthread_cond_signal\<close>: \<open>u\<close> is the thread it wakes, \<open>None\<close> when nobody sleeps.\<close>

definition cond_signal :: "who option \<Rightarrow> monitor_t \<Rightarrow> monitor_t option" where
  "cond_signal u s = (case u of
     None \<Rightarrow> if asleep s Main \<or> asleep s Plus \<or> asleep s Minus then None else Some s
   | Some x \<Rightarrow> if asleep s x then Some (s\<lparr>asleep := (asleep s)(x := False)\<rparr>) else None)"

definition monitor_signal :: "int \<Rightarrow> who option \<Rightarrow> monitor_t \<Rightarrow> monitor_t option" where
  "monitor_signal expect u s = cond_signal u (s\<lparr>mvalue := expect\<rparr>)"

definition go_to_sleep :: "who \<Rightarrow> monitor_t \<Rightarrow> monitor_t" where
  "go_to_sleep w s = s\<lparr>asleep := (asleep s)(w := True)\<rparr>"

text \<open>The part of \<open>main\<close> behind a successful wait.\<close>

definition main_goes_on :: "who option \<Rightarrow> monitor_t \<Rightarrow> monitor_t option" where
  "main_goes_on u s =
     (if stage s = 0
      then (if u = None then Some (go_to_sleep Main (s\<lparr>stage := 1, life_of := (life_of s)(Minus := Fresh)\<rparr>)) else None)
      else map_option (\<lambda>s. s\<lparr>stage := 2, life_of := (life_of s)(Main := Ended)\<rparr>) (monitor_signal (other_val Main) u s))"

text \<open>The part of the loop of \<open>subroutine\<close> behind a successful wait, up to the next wait or the end.\<close>

definition thread_goes_on :: "nat \<Rightarrow> who \<Rightarrow> who option \<Rightarrow> monitor_t \<Rightarrow> monitor_t option" where
  "thread_goes_on n w u s =
     map_option (\<lambda>s. let s = s\<lparr>mloops := (mloops s)(w := mloops s w + 1)\<rparr> in
         if mloops s w < n then go_to_sleep w s else s\<lparr>life_of := (life_of s)(w := Ended)\<rparr>)
       (monitor_signal (other_val w) u (s\<lparr>printed := printed s @ [w]\<rparr>))"

text \<open>A new thread gets the mutex, signals and waits.\<close>

definition thread_begins :: "who \<Rightarrow> who option \<Rightarrow> monitor_t \<Rightarrow> monitor_t option" where
  "thread_begins w u s = map_option (\<lambda>s. go_to_sleep w (s\<lparr>life_of := (life_of s)(w := InLoop)\<rparr>)) (monitor_signal 0 u s)"

text \<open>A thread that starts, or that comes back from \<open>pthread_cond_wait\<close> in \<open>monitor_wait\<close>.\<close>

definition monitor_turn :: "nat \<Rightarrow> who \<Rightarrow> who option \<Rightarrow> monitor_t \<Rightarrow> monitor_t option" where
  "monitor_turn n w u s = (case life_of s w of
     Fresh \<Rightarrow> thread_begins w u s
   | InLoop \<Rightarrow>
       if asleep s w then None
       else if mvalue s \<noteq> my_val w then map_option (go_to_sleep w) (cond_signal u s)
       else let s = s\<lparr>mvalue := -1\<rparr> in
         if w = Main then main_goes_on u s else thread_goes_on n w u s
   | _ \<Rightarrow> None)"

inductive monitor_step :: "nat \<Rightarrow> monitor_t \<Rightarrow> monitor_t \<Rightarrow> bool" for n where
  turn: "monitor_turn n w u s = Some s' \<Longrightarrow> monitor_step n s s'"
| spurious: "asleep s w \<Longrightarrow> monitor_step n s (s\<lparr>asleep := (asleep s)(w := False)\<rparr>)"

inductive_cases monitor_stepE: "monitor_step n s s'"

definition all_ended :: "monitor_t \<Rightarrow> bool" where
  "all_ended s = (life_of s Main = Ended \<and> life_of s Plus = Ended \<and> life_of s Minus = Ended)"

section \<open>Invariant\<close>

fun in_turn :: "nat \<Rightarrow> who list" where
  "in_turn 0 = []"
| "in_turn (Suc k) = in_turn k @ [if even k then Plus else Minus]"

text \<open>The three stages of \<open>main\<close>: one thread, two threads that do not print yet, taking turns.\<close>

definition stage_inv :: "nat \<Rightarrow> monitor_t \<Rightarrow> bool" where
  "stage_inv n s =
     (let l1 = mloops s Plus; l2 = mloops s Minus; v = mvalue s in
      printed s = in_turn (l1 + l2) \<and>
      (if stage s = 0 then
         life_of s Main = InLoop \<and> life_of s Minus = Unborn \<and> l1 = 0 \<and> l2 = 0 \<and>
         (life_of s Plus = Fresh \<and> v = -1 \<or> life_of s Plus = InLoop \<and> v = 0)
       else if stage s = 1 then
         life_of s Main = InLoop \<and> life_of s Plus = InLoop \<and> l1 = 0 \<and> l2 = 0 \<and>
         (life_of s Minus = Fresh \<and> v = -1 \<or> life_of s Minus = InLoop \<and> v = 0)
       else
         life_of s Main = Ended \<and> l1 \<le> n \<and> (v = 1 \<and> l1 = l2 \<or> v = 2 \<and> l1 = l2 + 1) \<and>
         life_of s Plus = (if l1 < n then InLoop else Ended) \<and> life_of s Minus = (if l2 < n then InLoop else Ended)))"

definition awake :: "monitor_t \<Rightarrow> who \<Rightarrow> bool" where
  "awake s w = (life_of s w = Fresh \<or> life_of s w = InLoop \<and> \<not> asleep s w)"

definition alive :: "monitor_t \<Rightarrow> who \<Rightarrow> bool" where
  "alive s w = (life_of s w \<in> {Fresh, InLoop})"

definition sleep_inv :: "monitor_t \<Rightarrow> bool" where
  "sleep_inv s = ((\<forall>w. asleep s w \<longrightarrow> life_of s w = InLoop) \<and> ((\<exists>w. awake s w) \<or> (\<forall>w. \<not> alive s w)))"

definition monitor_inv :: "nat \<Rightarrow> monitor_t \<Rightarrow> bool" where
  "monitor_inv n s = (stage_inv n s \<and> sleep_inv s)"

lemma stage_inv_asleep [simp]: "stage_inv n (s\<lparr>asleep := a\<rparr>) = stage_inv n s"
  by (simp add: stage_inv_def)

lemma monitor_start_inv: "monitor_inv n monitor_start"
  by (auto simp: monitor_inv_def stage_inv_def sleep_inv_def awake_def monitor_start_def Let_def split: who.splits)

text \<open>A signal only changes who sleeps, and wakes somebody unless nobody sleeps.\<close>

lemma cond_signalE:
  assumes "cond_signal u s = Some s'"
  obtains asl where "s' = s\<lparr>asleep := asl\<rparr>" "\<And>x. asl x \<Longrightarrow> asleep s x"
    "(\<exists>x. asleep s x \<and> \<not> asl x) \<or> (\<forall>x. \<not> asleep s x)"
proof (cases u)
  case None
  have "\<not> asleep s x" for x using assms None by (cases x) (auto simp: cond_signal_def split: if_splits)
  then show ?thesis using assms None that[of "asleep s"] by (auto simp: cond_signal_def split: if_splits)
next
  case (Some x)
  then show ?thesis using assms that[of "(asleep s)(x := False)"]
    by (auto simp: cond_signal_def split: if_splits)
qed

text \<open>
  Going to sleep after a signal is safe when somebody else is alive: either the signal woke
  somebody, or nobody slept.
\<close>

lemma sleep_after_signal:
  assumes i: "\<And>x. asleep s x \<Longrightarrow> life_of s x = InLoop" and w: "\<not> asleep s w"
    and asl: "\<And>x. asl x \<Longrightarrow> asleep s x" "(\<exists>x. asleep s x \<and> \<not> asl x) \<or> (\<forall>x. \<not> asleep s x)"
    and t: "asleep t = asl(w := True)" "life_of t w = InLoop" "\<And>x. x \<noteq> w \<Longrightarrow> life_of t x = life_of s x"
    and other: "x \<noteq> w" "alive s x"
  shows "sleep_inv t"
proof -
  have "\<exists>y. awake t y"
    using asl(2)
  proof
    assume "\<exists>x. asleep s x \<and> \<not> asl x"
    then obtain y where y: "asleep s y" "\<not> asl y" by blast
    then have "y \<noteq> w" using w by auto
    then show ?thesis using y i t by (auto simp: awake_def intro!: exI[of _ y])
  next
    assume "\<forall>x. \<not> asleep s x"
    then have "awake t x" using asl(1) t other by (auto simp: awake_def alive_def)
    then show ?thesis ..
  qed
  moreover have "life_of t y = InLoop" if "asleep t y" for y
    using that t i asl(1) by (cases "y = w") auto
  ultimately show ?thesis by (simp add: sleep_inv_def)
qed

lemma who_cases: "(\<forall>w. P w) \<longleftrightarrow> P Main \<and> P Plus \<and> P Minus"
  by (metis who.exhaust)

lemma someone_else_alive:
  assumes "stage_inv n s" and "life_of s w = InLoop" and "mvalue s \<noteq> my_val w"
  shows "\<exists>x. x \<noteq> w \<and> alive s x"
proof -
  have "alive s Main \<and> Main \<noteq> w \<or> alive s Plus \<and> Plus \<noteq> w \<or> alive s Minus \<and> Minus \<noteq> w"
    using assms by (cases w) (auto simp: stage_inv_def alive_def Let_def split: if_splits)
  then show ?thesis by blast
qed

lemma fresh_step:
  assumes i: "monitor_inv n s" and f: "life_of s w = Fresh"
    and st: "monitor_turn n w u s = Some s'"
  shows "monitor_inv n s'"
proof -
  obtain s1 where s1: "cond_signal u (s\<lparr>mvalue := 0\<rparr>) = Some s1"
      "s' = go_to_sleep w (s1\<lparr>life_of := (life_of s1)(w := InLoop)\<rparr>)"
    using st f by (auto simp: monitor_turn_def thread_begins_def monitor_signal_def)
  obtain asl where a: "s1 = s\<lparr>mvalue := 0, asleep := asl\<rparr>" "\<And>x. asl x \<Longrightarrow> asleep s x"
      "(\<exists>x. asleep s x \<and> \<not> asl x) \<or> (\<forall>x. \<not> asleep s x)"
    using s1(1) by (rule cond_signalE) simp
  have s': "s' = s\<lparr>mvalue := 0, asleep := asl(w := True), life_of := (life_of s)(w := InLoop)\<rparr>"
    using s1(2) a(1) by (simp add: go_to_sleep_def)
  have j: "stage_inv n s" "\<And>x. asleep s x \<Longrightarrow> life_of s x = InLoop"
    using i by (auto simp: monitor_inv_def sleep_inv_def)
  have w: "w = Plus \<and> stage s = 0 \<or> w = Minus \<and> stage s = 1"
    using j(1) f by (cases w) (auto simp: stage_inv_def Let_def split: if_splits)
  have "stage_inv n s'" using j(1) w by (auto simp: stage_inv_def s' Let_def)
  moreover have "sleep_inv s'"
    by (rule sleep_after_signal[OF j(2) _ a(2,3), where w = w and x = Main])
      (use w f j in \<open>auto simp: s' alive_def stage_inv_def Let_def\<close>)
  ultimately show ?thesis by (simp add: monitor_inv_def)
qed

lemma again_step:
  assumes i: "monitor_inv n s" and f: "life_of s w = InLoop" "mvalue s \<noteq> my_val w"
    and st: "monitor_turn n w u s = Some s'"
  shows "monitor_inv n s'"
proof -
  have aw: "\<not> asleep s w" using st f by (auto simp: monitor_turn_def split: if_splits)
  obtain s1 where s1: "cond_signal u s = Some s1" "s' = go_to_sleep w s1"
    using st f by (auto simp: monitor_turn_def split: if_splits)
  obtain asl where a: "s1 = s\<lparr>asleep := asl\<rparr>" "\<And>x. asl x \<Longrightarrow> asleep s x"
      "(\<exists>x. asleep s x \<and> \<not> asl x) \<or> (\<forall>x. \<not> asleep s x)"
    using cond_signalE[OF s1(1)] by blast
  have s': "s' = s\<lparr>asleep := asl(w := True)\<rparr>" using s1(2) a(1) by (simp add: go_to_sleep_def)
  have j: "stage_inv n s" "\<And>x. asleep s x \<Longrightarrow> life_of s x = InLoop"
    using i by (auto simp: monitor_inv_def sleep_inv_def)
  obtain x where x: "x \<noteq> w" "alive s x" using someone_else_alive[OF j(1) f] by blast
  have "stage_inv n s'" using j(1) by (simp add: s')
  moreover have "sleep_inv s'"
    by (rule sleep_after_signal[OF j(2) aw a(2,3), where x = x]) (use x f in \<open>simp_all add: s'\<close>)
  ultimately show ?thesis by (simp add: monitor_inv_def)
qed

lemma main_step:
  assumes i: "monitor_inv n s" and n: "0 < n" and f: "life_of s Main = InLoop" "mvalue s = my_val Main"
    and st: "monitor_turn n Main u s = Some s'"
  shows "monitor_inv n s'"
proof -
  have j: "stage_inv n s" "\<And>x. asleep s x \<Longrightarrow> life_of s x = InLoop"
    using i by (auto simp: monitor_inv_def sleep_inv_def)
  have g: "main_goes_on u (s\<lparr>mvalue := -1\<rparr>) = Some s'"
    using st f by (simp add: monitor_turn_def Let_def split: if_splits)
  show ?thesis
  proof (cases "stage s = 0")
    case True
    then have "s' = s\<lparr>mvalue := -1, stage := 1, life_of := (life_of s)(Minus := Fresh), asleep := (asleep s)(Main := True)\<rparr>"
      using g by (simp add: main_goes_on_def go_to_sleep_def split: if_splits)
    moreover have "\<not> asleep s Minus" using j True by (auto simp: stage_inv_def Let_def)
    ultimately show ?thesis using j f True
      by (auto simp: monitor_inv_def stage_inv_def sleep_inv_def awake_def Let_def intro!: exI[of _ Minus])
  next
    case False
    then obtain s1 where s1: "cond_signal u (s\<lparr>mvalue := 1\<rparr>) = Some s1"
        "s' = s1\<lparr>stage := 2, life_of := (life_of s1)(Main := Ended)\<rparr>"
      using g by (auto simp: main_goes_on_def monitor_signal_def)
    have aw: "\<not> asleep s Main" using st f by (auto simp: monitor_turn_def split: if_splits)
    obtain asl where a: "s1 = s\<lparr>mvalue := 1, asleep := asl\<rparr>" "\<And>x. asl x \<Longrightarrow> asleep s x"
        "(\<exists>x. asleep s x \<and> \<not> asl x) \<or> (\<forall>x. \<not> asleep s x)"
      using s1(1) by (rule cond_signalE) simp
    have s': "s' = s\<lparr>mvalue := 1, asleep := asl, stage := 2, life_of := (life_of s)(Main := Ended)\<rparr>"
      using s1(2) a(1) by simp
    have l: "stage s = 1" "life_of s Plus = InLoop" "life_of s Minus = InLoop"
      using j(1) f False by (auto simp: stage_inv_def Let_def split: if_splits)
    have "stage_inv n s'" using j(1) l n by (auto simp: stage_inv_def s' Let_def)
    moreover have "\<exists>y. awake s' y"
      using a(3)
    proof
      assume "\<exists>x. asleep s x \<and> \<not> asl x"
      then obtain y where y: "asleep s y" "\<not> asl y" by blast
      then have "y \<noteq> Main" using aw by auto
      then show ?thesis using y j(2) by (auto simp: awake_def s' intro!: exI[of _ y])
    next
      assume "\<forall>x. \<not> asleep s x"
      then show ?thesis using a(2) l by (auto simp: awake_def s' intro!: exI[of _ Plus])
    qed
    moreover have "life_of s' y = InLoop" if "asleep s' y" for y
      using that a(2)[of y] j(2)[of y] aw by (auto simp: s')
    ultimately show ?thesis by (simp add: monitor_inv_def sleep_inv_def)
  qed
qed

lemma print_step:
  assumes i: "monitor_inv n s" and f: "life_of s w = InLoop" "mvalue s = my_val w" "w \<noteq> Main"
    and st: "monitor_turn n w u s = Some s'"
  shows "monitor_inv n s'"
proof -
  have j: "stage_inv n s" "\<And>x. asleep s x \<Longrightarrow> life_of s x = InLoop"
    using i by (auto simp: monitor_inv_def sleep_inv_def)
  have aw: "\<not> asleep s w" using st f by (auto simp: monitor_turn_def split: if_splits)
  define s0 where "s0 = s\<lparr>printed := printed s @ [w], mvalue := other_val w\<rparr>"
  obtain s1 where s1: "cond_signal u s0 = Some s1"
      "s' = (let s = s1\<lparr>mloops := (mloops s1)(w := mloops s1 w + 1)\<rparr> in
         if mloops s w < n then go_to_sleep w s else s\<lparr>life_of := (life_of s)(w := Ended)\<rparr>)"
    using st f by (auto simp: monitor_turn_def thread_goes_on_def monitor_signal_def s0_def split: if_splits)
  obtain asl where a: "s1 = s0\<lparr>asleep := asl\<rparr>" "\<And>x. asl x \<Longrightarrow> asleep s x"
      "(\<exists>x. asleep s x \<and> \<not> asl x) \<or> (\<forall>x. \<not> asleep s x)"
    using s1(1) by (rule cond_signalE) (simp add: s0_def)
  have three: "stage s \<noteq> 0 \<and> stage s \<noteq> 1" using j(1) f by (cases w) (auto simp: stage_inv_def Let_def split: if_splits)
  have lt: "mloops s w < n" using j(1) f three by (cases w) (auto simp: stage_inv_def Let_def split: if_splits)
  show ?thesis
  proof (cases "mloops s w + 1 < n")
    case True
    then have s': "s' = s\<lparr>mvalue := other_val w, printed := printed s @ [w], asleep := asl(w := True),
        mloops := (mloops s)(w := mloops s w + 1)\<rparr>"
      using s1(2) a(1) by (simp add: go_to_sleep_def s0_def Let_def)
    have "stage_inv n s'" using j(1) f three True by (cases w) (auto simp: stage_inv_def s' Let_def split: if_splits)
    moreover have "\<exists>x. x \<noteq> w \<and> alive s x"
      using j(1) f three True
      by (cases w) (auto simp: stage_inv_def alive_def Let_def split: if_splits intro: exI[of _ Plus] exI[of _ Minus])
    then obtain x where x: "x \<noteq> w" "alive s x" by blast
    have "sleep_inv s'"
      by (rule sleep_after_signal[OF j(2) aw a(2,3), where x = x]) (use x f in \<open>simp_all add: s'\<close>)
    ultimately show ?thesis by (simp add: monitor_inv_def)
  next
    case False
    then have s': "s' = s\<lparr>mvalue := other_val w, printed := printed s @ [w], asleep := asl,
        mloops := (mloops s)(w := mloops s w + 1), life_of := (life_of s)(w := Ended)\<rparr>"
      using s1(2) a(1) by (simp add: s0_def Let_def)
    have "stage_inv n s'" using j(1) f three False lt by (cases w) (auto simp: stage_inv_def s' Let_def split: if_splits)
    moreover have "(\<exists>y. awake s' y) \<or> (\<forall>y. \<not> alive s' y)"
      using a(3)
    proof
      assume "\<exists>x. asleep s x \<and> \<not> asl x"
      then obtain y where y: "asleep s y" "\<not> asl y" by blast
      then have "y \<noteq> w" using aw by auto
      then show ?thesis using y j(2) by (auto simp: awake_def s' intro!: exI[of _ y])
    next
      assume "\<forall>x. \<not> asleep s x"
      then show ?thesis using a(2) by (auto simp: awake_def alive_def s')
    qed
    moreover have "life_of s' y = InLoop" if "asleep s' y" for y
      using that a(2)[of y] j(2)[of y] aw by (auto simp: s')
    ultimately show ?thesis by (simp add: monitor_inv_def sleep_inv_def)
  qed
qed

lemma monitor_step_inv:
  assumes "monitor_inv n s" and "0 < n" and "monitor_step n s s'"
  shows "monitor_inv n s'"
  using assms(3)
proof (rule monitor_stepE)
  fix w u
  assume st: "monitor_turn n w u s = Some s'"
  show "monitor_inv n s'"
  proof (cases "life_of s w")
    case Fresh
    from fresh_step[OF assms(1) this st] show ?thesis .
  next
    case InLoop
    then show ?thesis
      using again_step[OF assms(1) _ _ st] main_step[OF assms(1,2)] print_step[OF assms(1) _ _ _ st] st
      by (cases "mvalue s = my_val w"; cases "w = Main") auto
  qed (use st in \<open>simp_all add: monitor_turn_def\<close>)
next
  fix w
  assume "s' = s\<lparr>asleep := (asleep s)(w := False)\<rparr>" "asleep s w"
  then show "monitor_inv n s'" using assms(1)
    by (auto simp: monitor_inv_def sleep_inv_def awake_def intro!: exI[of _ w])
qed

text \<open>Whoever is awake can move: there is a signal to give to somebody or to nobody.\<close>

lemma can_signal: "\<exists>u s'. cond_signal u s = Some s'"
  by (cases "asleep s Main"; cases "asleep s Plus"; cases "asleep s Minus")
    (auto simp: cond_signal_def split: option.splits if_splits intro: exI[of _ "Some Main"] exI[of _ "Some Plus"] exI[of _ "Some Minus"] exI[of _ None])

lemma awake_turns:
  assumes "awake s w"
  shows "\<exists>u s'. monitor_turn n w u s = Some s'"
proof -
  have sig: "\<exists>u s'. cond_signal u (s\<lparr>printed := pr, mvalue := v\<rparr>) = Some s'" "\<exists>u s'. cond_signal u (s\<lparr>mvalue := v\<rparr>) = Some s'" for v pr
    by (rule can_signal)+
  show ?thesis
  proof (cases "life_of s w = Fresh")
    case True
    then show ?thesis using sig(2)[where v = 0] by (auto simp: monitor_turn_def thread_begins_def monitor_signal_def)
  next
    case False
    then have l: "life_of s w = InLoop" "\<not> asleep s w" using assms by (auto simp: awake_def)
    show ?thesis
    proof (cases "mvalue s = my_val w")
      case False
      then show ?thesis using l can_signal[of s] by (auto simp: monitor_turn_def)
    next
      case True
      then show ?thesis using l sig(1)[where v = "other_val w" and pr = "printed s @ [w]"] sig(2)[where v = 1]
        by (cases "w = Main"; cases "stage s = 0")
          (auto simp: monitor_turn_def main_goes_on_def thread_goes_on_def monitor_signal_def Let_def)
    qed
  qed
qed

lemma somebody_awake: "monitor_inv n s \<Longrightarrow> \<not> all_ended s \<Longrightarrow> \<exists>w. awake s w"
  by (auto simp: monitor_inv_def sleep_inv_def stage_inv_def alive_def all_ended_def Let_def split: if_splits)

lemma monitor_progress: "monitor_inv n s \<Longrightarrow> \<not> all_ended s \<Longrightarrow> \<exists>s'. monitor_step n s s'"
  using somebody_awake awake_turns by (blast intro: monitor_step.turn)

interpretation mon: progressing_system "\<lambda>s. s = monitor_start" "monitor_step COUNT_OF_LOOPS" "monitor_inv COUNT_OF_LOOPS" all_ended
  using monitor_start_inv monitor_step_inv monitor_progress
  by unfold_locales (auto simp: COUNT_OF_LOOPS_def)

lemma monitor_output:
  assumes "monitor_inv n s"
  shows "\<exists>k \<le> 2 * n. printed s = in_turn k" and "all_ended s \<Longrightarrow> printed s = in_turn (2 * n)"
  using assms by (auto simp: monitor_inv_def stage_inv_def all_ended_def Let_def mult_2 split: if_splits
      intro!: exI[of _ "mloops s Plus + mloops s Minus"])

section \<open>To the end of the program\<close>

text \<open>The thread whose turn it is: a new one, or the one the value is meant for.\<close>

definition next_up :: "monitor_t \<Rightarrow> who \<Rightarrow> bool" where
  "next_up s w = (life_of s w = Fresh \<or> life_of s w = InLoop \<and> mvalue s = my_val w)"

definition monitor_rank :: "nat \<Rightarrow> monitor_t \<Rightarrow> nat" where
  "monitor_rank n s = (2 * n - (mloops s Plus + mloops s Minus)) +
     (if stage s = 0 then (if life_of s Plus = Fresh then 4 else 3)
      else if stage s = 1 then (if life_of s Minus = Fresh then 2 else 1) else 0)"

definition turns_to :: "nat \<Rightarrow> monitor_t \<Rightarrow> monitor_t \<Rightarrow> bool" where
  "turns_to n s s' = (\<exists>w u. monitor_turn n w u s = Some s')"

lemma turns_step: "turns_to n s s' \<Longrightarrow> monitor_step n s s'"
  by (auto simp: turns_to_def intro: monitor_step.turn)

lemma some_next_up: "monitor_inv n s \<Longrightarrow> \<not> all_ended s \<Longrightarrow> \<exists>w. next_up s w"
  by (auto simp: monitor_inv_def stage_inv_def next_up_def all_ended_def Let_def split: if_splits
      intro: exI[of _ Main] exI[of _ Plus] exI[of _ Minus])

text \<open>The turn of the thread that is next lowers the rank.\<close>

lemma cond_signal_fields:
  assumes "cond_signal u s = Some s'"
  shows "mvalue s' = mvalue s \<and> stage s' = stage s \<and> life_of s' = life_of s \<and> mloops s' = mloops s"
  using assms by (auto elim!: cond_signalE)

lemma next_up_ranks:
  assumes i: "monitor_inv n s" and w: "next_up s w" and st: "monitor_turn n w u s = Some s'"
  shows "monitor_rank n s' < monitor_rank n s"
proof -
  have j: "stage_inv n s" using i by (simp add: monitor_inv_def)
  show ?thesis
  proof (cases "life_of s w = Fresh")
    case True
    then show ?thesis using j st
      by (cases w) (auto simp: monitor_turn_def thread_begins_def monitor_signal_def go_to_sleep_def monitor_rank_def
          stage_inv_def Let_def dest!: cond_signal_fields split: if_splits)
  next
    case False
    then have l: "life_of s w = InLoop" "mvalue s = my_val w" using w by (auto simp: next_up_def)
    show ?thesis
    proof (cases "w = Main")
      case True
      then show ?thesis using j st l
        by (auto simp: monitor_turn_def main_goes_on_def monitor_signal_def go_to_sleep_def monitor_rank_def
            stage_inv_def Let_def dest!: cond_signal_fields split: if_splits)
    next
      case no: False
      then obtain s1 where s1: "mloops s1 = mloops s" "stage s1 = stage s" and s': "s' = (let s = s1\<lparr>mloops := (mloops s1)(w := mloops s1 w + 1)\<rparr> in
          if mloops s w < n then go_to_sleep w s else s\<lparr>life_of := (life_of s)(w := Ended)\<rparr>)"
        using st l by (auto simp: monitor_turn_def thread_goes_on_def monitor_signal_def dest!: cond_signal_fields split: if_splits)
      have "stage s \<noteq> 0 \<and> stage s \<noteq> 1 \<and> mloops s Plus + mloops s Minus < 2 * n" using j l no
        by (cases w) (auto simp: stage_inv_def Let_def split: if_splits)
      then show ?thesis using s1 s' no by (cases w) (auto simp: monitor_rank_def go_to_sleep_def Let_def)
    qed
  qed
qed

text \<open>A thread that is awake for nothing can give the signal to the one that is next.\<close>

lemma wakes_next_up:
  assumes i: "monitor_inv n s" and w: "next_up s w" "\<not> awake s w" and y: "awake s y" "\<not> next_up s y"
  shows "\<exists>s'. turns_to n s s' \<and> next_up s' w \<and> awake s' w \<and> monitor_rank n s' = monitor_rank n s"
proof -
  have aw: "asleep s w" "life_of s w = InLoop" using w by (auto simp: next_up_def awake_def)
  have ay: "life_of s y = InLoop" "\<not> asleep s y" "mvalue s \<noteq> my_val y" using y by (auto simp: next_up_def awake_def)
  let ?s = "go_to_sleep y (s\<lparr>asleep := (asleep s)(w := False)\<rparr>)"
  have "monitor_turn n y (Some w) s = Some ?s" using aw ay by (simp add: monitor_turn_def cond_signal_def)
  moreover have "next_up ?s w" "awake ?s w" "monitor_rank n ?s = monitor_rank n s"
    using w aw ay by (auto simp: next_up_def awake_def go_to_sleep_def monitor_rank_def)
  ultimately show ?thesis unfolding turns_to_def by blast
qed

lemma monitor_finishes:
  assumes "monitor_inv n s" and "0 < n"
  shows "\<exists>s'. (turns_to n)\<^sup>*\<^sup>* s s' \<and> monitor_inv n s' \<and> all_ended s'"
  using assms(1)
proof (induction "monitor_rank n s" arbitrary: s rule: less_induct)
  case less
  have inv: "monitor_inv n t'" if "monitor_inv n t" "turns_to n t t'" for t t'
    using monitor_step_inv[OF that(1) assms(2) turns_step[OF that(2)]] .
  show ?case
  proof (cases "all_ended s")
    case True
    then show ?thesis using less.prems by blast
  next
    case False
    obtain w where w: "next_up s w" using some_next_up[OF less.prems False] by blast
    obtain s1 v where s1: "(turns_to n)\<^sup>*\<^sup>* s s1" "monitor_inv n s1" "next_up s1 v" "awake s1 v" "monitor_rank n s1 = monitor_rank n s"
    proof (cases "\<exists>v. next_up s v \<and> awake s v")
      case True
      then show ?thesis using that[of s] less.prems by blast
    next
      case no: False
      obtain y where "awake s y" using somebody_awake[OF less.prems False] by blast
      then obtain s1 where "turns_to n s s1" "next_up s1 w" "awake s1 w" "monitor_rank n s1 = monitor_rank n s"
        using wakes_next_up[OF less.prems w] no w by blast
      then show ?thesis using that[of s1 w] inv[OF less.prems] by blast
    qed
    obtain u s2 where s2: "monitor_turn n v u s1 = Some s2" using awake_turns[OF s1(4)] by blast
    have t: "turns_to n s1 s2" using s2 by (auto simp: turns_to_def)
    have "monitor_rank n s2 < monitor_rank n s" using next_up_ranks[OF s1(2,3) s2] s1(5) by simp
    then obtain s' where "(turns_to n)\<^sup>*\<^sup>* s2 s'" "monitor_inv n s'" "all_ended s'"
      using less.hyps[OF _ inv[OF s1(2) t]] by blast
    then show ?thesis using s1(1) t by (meson converse_rtranclp_into_rtranclp rtranclp_trans)
  qed
qed

end
