(* ===== verification/Monitor_Pair.thy ===== *)
theory Monitor_Pair
  imports Transition
begin

text \<open>
  \<open>task12.c\<close>: two threads that print in turn, each with a monitor of its own (mutex, condition,
  flag), started by \<open>main\<close>, which waits for both. Threads hold one monitor while they use the other,
  so the owners of the mutexes are part of the state. Whether a wait may end without a signal is a
  parameter: \<open>pthread_cond_wait\<close> allows it, and then the program can block for ever.
\<close>

datatype party = Starter | First | Second

text \<open>\<open>MonA\<close> is \<open>monitor1\<close>, the own monitor of the first thread, \<open>MonB\<close> is \<open>monitor2\<close>.\<close>

datatype mon_id = MonA | MonB

text \<open>
  Where a party is. \<open>Begins\<close>: before its first lock. \<open>InWait\<close>: inside \<open>pthread_cond_wait\<close> in
  \<open>monitor_wait\<close>, asleep or about to take the mutex again. \<open>Tells\<close>: before it locks the neighbour's
  monitor. \<open>Told\<close>: behind that, before it waits again or ends.
\<close>

datatype place = Begins | InWait mon_id | Tells | Told | Ends

record pair_state =
  mon_flag :: "mon_id \<Rightarrow> bool"
  owner :: "mon_id \<Rightarrow> party option"
  place_of :: "party \<Rightarrow> place"
  sleeping :: "party \<Rightarrow> bool"
  prints :: "party \<Rightarrow> nat"
  lines_out :: "party list"

definition PAIR_LOOPS :: nat where
  "PAIR_LOOPS = 10"

fun mine :: "party \<Rightarrow> mon_id" where
  "mine Second = MonB"
| "mine _ = MonA"

fun neighbour :: "party \<Rightarrow> mon_id" where
  "neighbour Second = MonA"
| "neighbour _ = MonB"

text \<open>\<open>main\<close> has locked both monitors and started the threads; it waits for the first one.\<close>

definition pair_start :: pair_state where
  "pair_start = \<lparr>mon_flag = (\<lambda>_. False), owner = (\<lambda>m. case m of MonA \<Rightarrow> None | MonB \<Rightarrow> Some Starter),
     place_of = (\<lambda>p. case p of Starter \<Rightarrow> InWait MonA | _ \<Rightarrow> Begins), sleeping = (\<lambda>p. p = Starter),
     prints = (\<lambda>_. 0), lines_out = []\<rparr>"

definition sleeps_on :: "pair_state \<Rightarrow> mon_id \<Rightarrow> party \<Rightarrow> bool" where
  "sleeps_on s m p = (sleeping s p \<and> place_of s p = InWait m)"

text \<open>\<open>monitor_signal\<close>: the flag is set and \<open>u\<close>, one of those that sleep on the monitor, is woken.\<close>

definition mon_signal :: "mon_id \<Rightarrow> party option \<Rightarrow> pair_state \<Rightarrow> pair_state option" where
  "mon_signal m u s =
     (let s = s\<lparr>mon_flag := (mon_flag s)(m := True)\<rparr> in
      case u of
        None \<Rightarrow> if sleeps_on s m Starter \<or> sleeps_on s m First \<or> sleeps_on s m Second then None else Some s
      | Some p \<Rightarrow> if sleeps_on s m p then Some (s\<lparr>sleeping := (sleeping s)(p := False)\<rparr>) else None)"

text \<open>\<open>pthread_cond_wait\<close>: the mutex is released and the caller sleeps.\<close>

definition mon_sleep :: "mon_id \<Rightarrow> party \<Rightarrow> pair_state \<Rightarrow> pair_state" where
  "mon_sleep m p s = s\<lparr>owner := (owner s)(m := None), place_of := (place_of s)(p := InWait m),
     sleeping := (sleeping s)(p := True)\<rparr>"

text \<open>What \<open>main\<close> does behind its first and its second wait.\<close>

definition starter_goes_on :: "mon_id \<Rightarrow> party option \<Rightarrow> pair_state \<Rightarrow> pair_state option" where
  "starter_goes_on m u s = (case m of
     MonA \<Rightarrow> if u = None then Some (mon_sleep MonB Starter s) else None
   | MonB \<Rightarrow> map_option (\<lambda>s. s\<lparr>owner := (owner s)(MonB := None, MonA := None), place_of := (place_of s)(Starter := Ends)\<rparr>)
       (mon_signal MonA u s))"

text \<open>A thread begins: lock and signal the own monitor, then wait.\<close>

definition pair_begins :: "party \<Rightarrow> party option \<Rightarrow> pair_state \<Rightarrow> pair_state option" where
  "pair_begins p u s =
     (if owner s (mine p) = None then map_option (mon_sleep (mine p) p) (mon_signal (mine p) u s) else None)"

text \<open>\<open>monitor_wait\<close> on \<open>m\<close>, and what its caller does behind it up to the next call that may block.\<close>

definition pair_wakes :: "mon_id \<Rightarrow> party \<Rightarrow> party option \<Rightarrow> pair_state \<Rightarrow> pair_state option" where
  "pair_wakes m p u s =
     (if sleeping s p \<or> owner s m \<noteq> None then None
      else let s = s\<lparr>owner := (owner s)(m := Some p)\<rparr> in
        if \<not> mon_flag s m then (if u = None then Some (mon_sleep m p s) else None)
        else let s = s\<lparr>mon_flag := (mon_flag s)(m := False)\<rparr> in
          if p = Starter then starter_goes_on m u s
          else if u = None
            then Some (s\<lparr>prints := (prints s)(p := prints s p + 1), lines_out := lines_out s @ [p],
                   place_of := (place_of s)(p := Tells)\<rparr>)
            else None)"

text \<open>One turn of a party; a thread runs \<open>n\<close> rounds, and the text of the loop is right for \<open>0 < n\<close>.\<close>

definition pair_turn :: "nat \<Rightarrow> party \<Rightarrow> party option \<Rightarrow> pair_state \<Rightarrow> pair_state option" where
  "pair_turn n p u s = (case place_of s p of
     Begins \<Rightarrow> pair_begins p u s
   | InWait m \<Rightarrow> pair_wakes m p u s
   | Tells \<Rightarrow>
       if owner s (neighbour p) = None
       then map_option (\<lambda>s. s\<lparr>place_of := (place_of s)(p := Told)\<rparr>) (mon_signal (neighbour p) u s) else None
   | Told \<Rightarrow>
       if u \<noteq> None then None
       else if prints s p < n then Some (mon_sleep (mine p) p s)
       else Some (s\<lparr>owner := (owner s)(mine p := None), place_of := (place_of s)(p := Ends)\<rparr>)
   | Ends \<Rightarrow> None)"

inductive pair_step :: "bool \<Rightarrow> nat \<Rightarrow> pair_state \<Rightarrow> pair_state \<Rightarrow> bool" for b n where
  pair_moves: "pair_turn n p u s = Some s' \<Longrightarrow> pair_step b n s s'"
| pair_spurious: "b \<Longrightarrow> sleeping s p \<Longrightarrow> pair_step b n s (s\<lparr>sleeping := (sleeping s)(p := False)\<rparr>)"

inductive_cases pair_stepE: "pair_step b n s s'"

definition pair_ended :: "pair_state \<Rightarrow> bool" where
  "pair_ended s = (place_of s Starter = Ends \<and> place_of s First = Ends \<and> place_of s Second = Ends)"

section \<open>A wait that ends by itself\<close>

text \<open>
  The first thread signals and waits; when its wait ends before \<open>main\<close> has taken the mutex again, it
  consumes its own signal, and it and \<open>main\<close> each hold what the other needs.
\<close>

definition stuck_state :: pair_state where
  "stuck_state = pair_start\<lparr>owner := (\<lambda>m. case m of MonA \<Rightarrow> Some First | MonB \<Rightarrow> Some Starter),
     place_of := (\<lambda>p. case p of Starter \<Rightarrow> InWait MonA | First \<Rightarrow> Tells | Second \<Rightarrow> Begins),
     sleeping := (\<lambda>_. False), prints := (\<lambda>p. if p = First then 1 else 0), lines_out := [First]\<rparr>"

lemma stuck_fields:
  "owner stuck_state MonA = Some First" "owner stuck_state MonB = Some Starter"
  "place_of stuck_state Starter = InWait MonA" "place_of stuck_state First = Tells" "place_of stuck_state Second = Begins"
  "\<not> sleeping stuck_state p"
  by (simp_all add: stuck_state_def)

lemma stuck: "\<not> pair_step b n stuck_state s"
proof
  assume "pair_step b n stuck_state s"
  then show False
  proof (rule pair_stepE)
    fix p u assume "pair_turn n p u stuck_state = Some s"
    then show False by (cases p) (simp_all add: pair_turn_def pair_begins_def pair_wakes_def stuck_fields)
  next
    fix p assume "sleeping stuck_state p"
    then show False by (simp add: stuck_fields)
  qed
qed

definition signalled_state :: pair_state where
  "signalled_state = pair_start\<lparr>mon_flag := (\<lambda>m. m = MonA),
     place_of := (\<lambda>p. case p of Starter \<Rightarrow> InWait MonA | First \<Rightarrow> InWait MonA | Second \<Rightarrow> Begins),
     sleeping := (\<lambda>p. p = First)\<rparr>"

lemma mon_id_eq: "f = g \<longleftrightarrow> f MonA = g MonA \<and> f MonB = g MonB"
proof
  assume fg: "f MonA = g MonA \<and> f MonB = g MonB"
  show "f = g"
  proof
    fix m show "f m = g m" using fg by (cases m) auto
  qed
qed simp

lemma party_eq: "f = g \<longleftrightarrow> f Starter = g Starter \<and> f First = g First \<and> f Second = g Second"
proof
  assume fg: "f Starter = g Starter \<and> f First = g First \<and> f Second = g Second"
  show "f = g"
  proof
    fix p show "f p = g p" using fg by (cases p) auto
  qed
qed simp

lemma stuck_reachable: "reachable (\<lambda>s. s = pair_start) (pair_step True n) stuck_state"
proof -
  have "pair_turn n First (Some Starter) pair_start = Some signalled_state"
    by (simp add: pair_turn_def pair_begins_def pair_wakes_def pair_start_def signalled_state_def mon_signal_def mon_sleep_def sleeps_on_def mon_id_eq party_eq)
  then have 1: "reachable (\<lambda>s. s = pair_start) (pair_step True n) signalled_state"
    by (blast intro: reachable.intros pair_step.intros)
  have 2: "reachable (\<lambda>s. s = pair_start) (pair_step True n) (signalled_state\<lparr>sleeping := (sleeping signalled_state)(First := False)\<rparr>)"
    by (rule reach_step[OF 1]) (rule pair_spurious; simp add: signalled_state_def)
  have "pair_turn n First None (signalled_state\<lparr>sleeping := (sleeping signalled_state)(First := False)\<rparr>) = Some stuck_state"
    by (simp add: pair_turn_def pair_begins_def pair_wakes_def pair_start_def signalled_state_def stuck_state_def mon_id_eq party_eq)
  then show ?thesis by (blast intro: reach_step[OF 2] pair_step.intros)
qed

section \<open>Waits that end only by a signal\<close>

fun alternating :: "nat \<Rightarrow> party list" where
  "alternating 0 = []"
| "alternating (Suc k) = alternating k @ [if even k then First else Second]"

text \<open>While \<open>main\<close> waits for the first, and then for the second thread.\<close>

definition setup_inv :: "pair_state \<Rightarrow> bool" where
  "setup_inv s =
     (prints s First = 0 \<and> prints s Second = 0 \<and> lines_out s = [] \<and>
      (place_of s Starter = InWait MonA \<and> owner s MonA = None \<and> owner s MonB = Some Starter \<and>
         place_of s Second = Begins \<and> \<not> sleeping s Second \<and> \<not> mon_flag s MonB \<and>
         sleeping s Starter = (place_of s First = Begins) \<and> mon_flag s MonA = (place_of s First \<noteq> Begins) \<and>
         sleeping s First = (place_of s First \<noteq> Begins) \<and> place_of s First \<in> {Begins, InWait MonA}
       \<or> place_of s Starter = InWait MonB \<and> owner s MonA = Some Starter \<and> owner s MonB = None \<and>
         place_of s First = InWait MonA \<and> sleeping s First \<and> \<not> mon_flag s MonA \<and>
         sleeping s Starter = (place_of s Second = Begins) \<and> mon_flag s MonB = (place_of s Second \<noteq> Begins) \<and>
         sleeping s Second = (place_of s Second \<noteq> Begins) \<and> place_of s Second \<in> {Begins, InWait MonB}))"

text \<open>\<open>p\<close> has been told that it is its turn and has not told \<open>q\<close> yet.\<close>

definition turn_inv :: "nat \<Rightarrow> party \<Rightarrow> party \<Rightarrow> pair_state \<Rightarrow> bool" where
  "turn_inv n p q s =
     (place_of s Starter = Ends \<and> \<not> sleeping s Starter \<and> \<not> sleeping s p \<and> prints s p \<le> n \<and> prints s q \<le> n \<and>
      lines_out s = alternating (prints s p + prints s q) \<and>
      (place_of s p = InWait (mine p) \<and> mon_flag s (mine p) \<and> owner s (mine p) = None \<and> prints s p < n \<and>
         prints s q = (if p = First then prints s p else prints s p + 1)
       \<or> place_of s p = Tells \<and> \<not> mon_flag s (mine p) \<and> owner s (mine p) = Some p \<and>
         prints s p = (if p = First then prints s q + 1 else prints s q)) \<and>
      \<not> mon_flag s (mine q) \<and> sleeping s q = (place_of s q = InWait (mine q)) \<and>
      (place_of s q = Told \<and> owner s (mine q) = Some q
       \<or> place_of s q = InWait (mine q) \<and> owner s (mine q) = None \<and> prints s q < n
       \<or> place_of s q = Ends \<and> owner s (mine q) = None \<and> prints s q = n))"

text \<open>The second thread has told the first one, which is at its end.\<close>

definition last_told :: "nat \<Rightarrow> pair_state \<Rightarrow> bool" where
  "last_told n s =
     (place_of s Starter = Ends \<and> place_of s First = Ends \<and> place_of s Second \<in> {Told, Ends} \<and>
      (\<forall>p \<in> {Starter, First, Second}. \<not> sleeping s p) \<and>
      prints s First = n \<and> prints s Second = n \<and> lines_out s = alternating (2 * n))"

definition pair_inv :: "nat \<Rightarrow> pair_state \<Rightarrow> bool" where
  "pair_inv n s = (setup_inv s \<or> turn_inv n First Second s \<or> turn_inv n Second First s \<or> last_told n s)"

lemma pair_start_inv: "pair_inv n pair_start"
  by (simp add: pair_inv_def setup_inv_def pair_start_def)

lemma signal_one:
  assumes "mon_signal m u s = Some s'" and "sleeps_on s m q" and "\<And>x. sleeps_on s m x \<Longrightarrow> x = q"
  shows "s' = s\<lparr>mon_flag := (mon_flag s)(m := True), sleeping := (sleeping s)(q := False)\<rparr>"
proof (cases u)
  case None
  then show ?thesis using assms(1,2) by (cases q) (simp_all add: mon_signal_def sleeps_on_def Let_def)
next
  case (Some x)
  moreover from this have "sleeps_on s m x"
    using assms(1) by (simp add: mon_signal_def sleeps_on_def Let_def split: if_splits)
  ultimately show ?thesis using assms by (simp add: mon_signal_def sleeps_on_def Let_def)
qed

lemma signal_none:
  assumes "mon_signal m u s = Some s'" and "\<And>x. \<not> sleeps_on s m x"
  shows "s' = s\<lparr>mon_flag := (mon_flag s)(m := True)\<rparr>"
  using assms by (cases u) (simp_all add: mon_signal_def sleeps_on_def Let_def split: if_splits)

lemma setup_cases:
  assumes "setup_inv s"
  obtains (fresh) "prints s First = 0" "prints s Second = 0" "lines_out s = []"
      "place_of s Starter = InWait MonA" "owner s MonA = None" "owner s MonB = Some Starter"
      "place_of s Second = Begins" "\<not> sleeping s Second" "\<not> mon_flag s MonB"
      "sleeping s Starter" "\<not> mon_flag s MonA" "\<not> sleeping s First" "place_of s First = Begins"
  | (one) "prints s First = 0" "prints s Second = 0" "lines_out s = []"
      "place_of s Starter = InWait MonA" "owner s MonA = None" "owner s MonB = Some Starter"
      "place_of s Second = Begins" "\<not> sleeping s Second" "\<not> mon_flag s MonB"
      "\<not> sleeping s Starter" "mon_flag s MonA" "sleeping s First" "place_of s First = InWait MonA"
  | (both) "prints s First = 0" "prints s Second = 0" "lines_out s = []"
      "place_of s Starter = InWait MonB" "owner s MonA = Some Starter" "owner s MonB = None"
      "place_of s First = InWait MonA" "sleeping s First" "\<not> mon_flag s MonA"
      "sleeping s Starter" "\<not> mon_flag s MonB" "\<not> sleeping s Second" "place_of s Second = Begins"
  | (up) "prints s First = 0" "prints s Second = 0" "lines_out s = []"
      "place_of s Starter = InWait MonB" "owner s MonA = Some Starter" "owner s MonB = None"
      "place_of s First = InWait MonA" "sleeping s First" "\<not> mon_flag s MonA"
      "\<not> sleeping s Starter" "mon_flag s MonB" "sleeping s Second" "place_of s Second = InWait MonB"
proof (cases "place_of s Starter = InWait MonA")
  case True
  then show ?thesis
    by (cases "place_of s First = Begins"; intro fresh one) (use assms in \<open>simp_all add: setup_inv_def\<close>)
next
  case False
  then show ?thesis
    by (cases "place_of s Second = Begins"; intro both up) (use assms in \<open>simp_all add: setup_inv_def\<close>)
qed

lemma setup_step:
  assumes i: "setup_inv s" and n: "0 < n" and t: "pair_turn n p u s = Some s'"
  shows "setup_inv s' \<or> turn_inv n First Second s'"
  using i
proof (cases rule: setup_cases)
  case fresh
  have p: "p = First" using t fresh by (cases p) (simp_all add: pair_turn_def pair_begins_def pair_wakes_def)
  then obtain s1 where s1: "mon_signal MonA u s = Some s1" "s' = mon_sleep MonA First s1"
    using t fresh by (auto simp: pair_turn_def pair_begins_def pair_wakes_def)
  have "s1 = s\<lparr>mon_flag := (mon_flag s)(MonA := True), sleeping := (sleeping s)(Starter := False)\<rparr>"
  proof (rule signal_one[OF s1(1)])
    fix x assume "sleeps_on s MonA x"
    then show "x = Starter" using fresh by (cases x) (simp_all add: sleeps_on_def)
  qed (use fresh in \<open>simp add: sleeps_on_def\<close>)
  then have "s' = mon_sleep MonA First (s\<lparr>mon_flag := (mon_flag s)(MonA := True), sleeping := (sleeping s)(Starter := False)\<rparr>)"
    using s1(2) by simp
  then show ?thesis using fresh by (simp add: setup_inv_def mon_sleep_def)
next
  case one
  have p: "p = Starter" using t one by (cases p) (simp_all add: pair_turn_def pair_begins_def pair_wakes_def)
  then have "s' = mon_sleep MonB Starter (s\<lparr>owner := (owner s)(MonA := Some Starter), mon_flag := (mon_flag s)(MonA := False)\<rparr>)"
    using t one by (simp add: pair_turn_def pair_begins_def pair_wakes_def starter_goes_on_def split: if_splits)
  then show ?thesis using one by (simp add: setup_inv_def mon_sleep_def)
next
  case both
  have p: "p = Second" using t both by (cases p) (simp_all add: pair_turn_def pair_begins_def pair_wakes_def)
  then obtain s1 where s1: "mon_signal MonB u s = Some s1" "s' = mon_sleep MonB Second s1"
    using t both by (auto simp: pair_turn_def pair_begins_def pair_wakes_def)
  have "s1 = s\<lparr>mon_flag := (mon_flag s)(MonB := True), sleeping := (sleeping s)(Starter := False)\<rparr>"
  proof (rule signal_one[OF s1(1)])
    fix x assume "sleeps_on s MonB x"
    then show "x = Starter" using both by (cases x) (simp_all add: sleeps_on_def)
  qed (use both in \<open>simp add: sleeps_on_def\<close>)
  then have "s' = mon_sleep MonB Second (s\<lparr>mon_flag := (mon_flag s)(MonB := True), sleeping := (sleeping s)(Starter := False)\<rparr>)"
    using s1(2) by simp
  then show ?thesis using both by (simp add: setup_inv_def mon_sleep_def)
next
  case up
  have p: "p = Starter" using t up by (cases p) (simp_all add: pair_turn_def pair_begins_def pair_wakes_def)
  let ?s = "s\<lparr>owner := (owner s)(MonB := Some Starter), mon_flag := (mon_flag s)(MonB := False)\<rparr>"
  obtain s1 where s1: "mon_signal MonA u ?s = Some s1"
      "s' = s1\<lparr>owner := (owner s1)(MonB := None, MonA := None), place_of := (place_of s1)(Starter := Ends)\<rparr>"
    using t up p by (auto simp: pair_turn_def pair_begins_def pair_wakes_def starter_goes_on_def)
  have "s1 = ?s\<lparr>mon_flag := (mon_flag ?s)(MonA := True), sleeping := (sleeping ?s)(First := False)\<rparr>"
  proof (rule signal_one[OF s1(1)])
    fix x assume "sleeps_on ?s MonA x"
    then show "x = First" using up by (cases x) (simp_all add: sleeps_on_def)
  qed (use up in \<open>simp add: sleeps_on_def\<close>)
  then have "s' = s\<lparr>owner := (owner s)(MonB := None, MonA := None), mon_flag := (mon_flag s)(MonB := False, MonA := True),
      sleeping := (sleeping s)(First := False), place_of := (place_of s)(Starter := Ends)\<rparr>"
    using s1(2) by simp
  then show ?thesis using up n by (simp add: turn_inv_def)
qed

lemma waiter_step:
  assumes i: "turn_inv n p q s" and pq: "p = First \<and> q = Second \<or> p = Second \<and> q = First"
    and t: "pair_turn n q u s = Some s'"
  shows "turn_inv n p q s'"
proof -
  have told: "place_of s q = Told" "owner s (mine q) = Some q"
    using i t by (auto simp: turn_inv_def pair_turn_def pair_begins_def pair_wakes_def)
  show ?thesis
  proof (cases "prints s q < n")
    case True
    then have "s' = mon_sleep (mine q) q s" using told t by (simp add: pair_turn_def pair_begins_def pair_wakes_def split: if_splits)
    then show ?thesis using i pq told True by (elim disjE conjE) (simp_all add: turn_inv_def mon_sleep_def)
  next
    case False
    then have "s' = s\<lparr>owner := (owner s)(mine q := None), place_of := (place_of s)(q := Ends)\<rparr>"
      using told t by (simp add: pair_turn_def pair_begins_def pair_wakes_def split: if_splits)
    moreover have "prints s q = n" using i False by (simp add: turn_inv_def)
    ultimately show ?thesis using i pq told by (elim disjE conjE) (auto simp: turn_inv_def)
  qed
qed

lemma printer_step:
  assumes i: "turn_inv n p q s" and pq: "p = First \<and> q = Second \<or> p = Second \<and> q = First"
    and w: "place_of s p = InWait (mine p)" and t: "pair_turn n p u s = Some s'"
  shows "turn_inv n p q s'"
proof -
  have h: "mon_flag s (mine p)" "owner s (mine p) = None" "prints s p < n" "p \<noteq> Starter" "\<not> sleeping s p"
    using i w pq by (auto simp: turn_inv_def)
  then have s': "s' = s\<lparr>owner := (owner s)(mine p := Some p), mon_flag := (mon_flag s)(mine p := False),
      prints := (prints s)(p := prints s p + 1), lines_out := lines_out s @ [p], place_of := (place_of s)(p := Tells)\<rparr>"
    using t w by (simp add: pair_turn_def pair_begins_def pair_wakes_def Let_def split: if_splits)
  have "lines_out s = alternating (prints s p + prints s q)" "prints s q = (if p = First then prints s p else prints s p + 1)"
    using i w by (simp_all add: turn_inv_def)
  then have "lines_out s @ [p] = alternating (prints s p + 1 + prints s q)"
    using pq by (elim disjE conjE) simp_all
  then show ?thesis using i w pq h by (elim disjE conjE) (auto simp: turn_inv_def s')
qed

lemma teller_step:
  assumes i: "turn_inv n p q s" and pq: "p = First \<and> q = Second \<or> p = Second \<and> q = First"
    and w: "place_of s p = Tells" and t: "pair_turn n p u s = Some s'"
  shows "turn_inv n q p s' \<or> last_told n s'"
proof -
  have m: "neighbour p = mine q" "p \<noteq> q" "mine p \<noteq> mine q" using pq by auto
  have free: "owner s (mine q) = None" using t w m by (simp add: pair_turn_def pair_begins_def pair_wakes_def split: if_splits)
  then obtain s1 where s1: "mon_signal (mine q) u s = Some s1" "s' = s1\<lparr>place_of := (place_of s1)(p := Told)\<rparr>"
    using t w m by (auto simp: pair_turn_def pair_begins_def pair_wakes_def)
  have u: "sleeps_on s (mine q) x \<Longrightarrow> x = q" for x
    using i w pq by (cases x) (auto simp: sleeps_on_def turn_inv_def)
  show ?thesis
  proof (cases "place_of s q = Ends")
    case True
    then have "\<not> sleeps_on s (mine q) x" for x using u[of x] by (auto simp: sleeps_on_def)
    then have s': "s' = s\<lparr>mon_flag := (mon_flag s)(mine q := True), place_of := (place_of s)(p := Told)\<rparr>"
      using signal_none[OF s1(1)] s1(2) by simp
    have "p = Second" "q = First" "prints s First = n" "prints s Second = n" "lines_out s = alternating (n + n)"
      using i w pq True by (auto simp: turn_inv_def)
    then have "last_told n s'" using i True by (auto simp: turn_inv_def last_told_def s' mult_2)
    then show ?thesis ..
  next
    case False
    then have q: "place_of s q = InWait (mine q)" "sleeping s q" "prints s q < n"
      using i free by (auto simp: turn_inv_def)
    then have s': "s' = s\<lparr>mon_flag := (mon_flag s)(mine q := True), sleeping := (sleeping s)(q := False),
        place_of := (place_of s)(p := Told)\<rparr>"
      using signal_one[OF s1(1) _ u] s1(2) by (simp add: sleeps_on_def)
    have "turn_inv n q p s'" using i w pq q free
      by (elim disjE conjE) (simp_all add: turn_inv_def s' add.commute)
    then show ?thesis ..
  qed
qed

lemma last_step:
  assumes i: "last_told n s" and t: "pair_turn n p u s = Some s'"
  shows "last_told n s'"
proof -
  have p: "p = Second" "place_of s p = Told" using i t by (cases p; auto simp: last_told_def pair_turn_def pair_begins_def pair_wakes_def)+
  then have "s' = s\<lparr>owner := (owner s)(mine p := None), place_of := (place_of s)(p := Ends)\<rparr>"
    using i t by (simp add: pair_turn_def pair_begins_def pair_wakes_def last_told_def split: if_splits)
  then show ?thesis using i p by (simp add: last_told_def)
qed

lemma turn_step:
  assumes i: "turn_inv n p q s" and pq: "p = First \<and> q = Second \<or> p = Second \<and> q = First"
    and t: "pair_turn n r u s = Some s'"
  shows "turn_inv n p q s' \<or> turn_inv n q p s' \<or> last_told n s'"
proof -
  have "r \<noteq> Starter" using i t by (auto simp: turn_inv_def pair_turn_def pair_begins_def pair_wakes_def)
  then consider "r = q" | "r = p" "place_of s p = InWait (mine p)" | "r = p" "place_of s p = Tells"
    using i pq by (cases r) (auto simp: turn_inv_def)
  then show ?thesis
    using waiter_step[OF i pq] printer_step[OF i pq] teller_step[OF i pq] t by cases blast+
qed

lemma pair_step_inv:
  assumes "pair_inv n s" and "0 < n" and "pair_step False n s s'"
  shows "pair_inv n s'"
proof -
  obtain p u where t: "pair_turn n p u s = Some s'" using assms(3) by (auto elim: pair_stepE)
  show ?thesis using assms(1) setup_step[OF _ assms(2) t] turn_step[OF _ _ t] last_step[OF _ t]
    unfolding pair_inv_def by blast
qed

text \<open>Somebody can move: a signal always finds a thread to wake, or nobody sleeps there.\<close>

lemma can_tell: "\<exists>u s'. mon_signal m u s = Some s'"
proof (cases "\<exists>p. sleeps_on s m p")
  case True
  then obtain p where "sleeps_on s m p" ..
  then show ?thesis by (intro exI[of _ "Some p"]) (simp add: mon_signal_def sleeps_on_def Let_def)
next
  case False
  then show ?thesis by (intro exI[of _ None]) (simp add: mon_signal_def sleeps_on_def Let_def)
qed

lemma holder_moves:
  assumes i: "turn_inv n p q s" and pq: "p = First \<and> q = Second \<or> p = Second \<and> q = First"
  shows "\<exists>r u s'. pair_turn n r u s = Some s'"
proof (cases "place_of s q = Told")
  case True
  then show ?thesis by (intro exI[of _ q] exI[of _ None]) (simp add: pair_turn_def pair_begins_def pair_wakes_def)
next
  case False
  have m: "neighbour p = mine q" "p \<noteq> Starter" using pq by auto
  have "\<exists>u s'. pair_turn n p u s = Some s'"
  proof (cases "place_of s p = Tells")
    case True
    moreover have "owner s (mine q) = None" using i False by (auto simp: turn_inv_def)
    ultimately show ?thesis using can_tell[of "mine q" s] m by (auto simp: pair_turn_def pair_begins_def pair_wakes_def)
  next
    case False
    then have "place_of s p = InWait (mine p)" "mon_flag s (mine p)" "owner s (mine p) = None" "\<not> sleeping s p"
      using i by (auto simp: turn_inv_def)
    then show ?thesis using m by (intro exI[of _ None]) (simp add: pair_turn_def pair_begins_def pair_wakes_def Let_def)
  qed
  then show ?thesis by blast
qed

lemma setup_moves:
  assumes "setup_inv s"
  shows "\<exists>r u s'. pair_turn n r u s = Some s'"
  using assms
proof (cases rule: setup_cases)
  case fresh
  then have "\<exists>u s'. pair_turn n First u s = Some s'" using can_tell[of MonA s] by (auto simp: pair_turn_def pair_begins_def pair_wakes_def)
  then show ?thesis by blast
next
  case one
  then have "\<exists>s'. pair_turn n Starter None s = Some s'" by (simp add: pair_turn_def pair_begins_def pair_wakes_def starter_goes_on_def)
  then show ?thesis by blast
next
  case both
  then have "\<exists>u s'. pair_turn n Second u s = Some s'" using can_tell[of MonB s] by (auto simp: pair_turn_def pair_begins_def pair_wakes_def)
  then show ?thesis by blast
next
  case up
  then have "\<exists>u s'. pair_turn n Starter u s = Some s'"
    using can_tell[of MonA "s\<lparr>owner := (owner s)(MonB := Some Starter), mon_flag := (mon_flag s)(MonB := False)\<rparr>"]
    by (auto simp: pair_turn_def pair_begins_def pair_wakes_def starter_goes_on_def)
  then show ?thesis by blast
qed

lemma pair_progress:
  assumes i: "pair_inv n s" and nf: "\<not> pair_ended s"
  shows "\<exists>s'. pair_step False n s s'"
proof -
  have "\<exists>r u s'. pair_turn n r u s = Some s'"
  proof (cases "last_told n s")
    case True
    then have "place_of s Second = Told" using nf by (auto simp: last_told_def pair_ended_def)
    then show ?thesis by (intro exI[of _ Second] exI[of _ None]) (simp add: pair_turn_def pair_begins_def pair_wakes_def)
  next
    case False
    then show ?thesis using i setup_moves holder_moves unfolding pair_inv_def by metis
  qed
  then show ?thesis by (blast intro: pair_moves)
qed

text \<open>How many steps a party has left.\<close>

definition steps_left :: "nat \<Rightarrow> pair_state \<Rightarrow> party \<Rightarrow> nat" where
  "steps_left n s p =
     (if p = Starter then (case place_of s p of InWait MonA \<Rightarrow> 2 | InWait MonB \<Rightarrow> 1 | _ \<Rightarrow> 0)
      else 3 * (n - prints s p) + (case place_of s p of Begins \<Rightarrow> 1 | Tells \<Rightarrow> 2 | Told \<Rightarrow> 1 | _ \<Rightarrow> 0))"

definition pair_rank :: "nat \<Rightarrow> pair_state \<Rightarrow> nat" where
  "pair_rank n s = steps_left n s Starter + steps_left n s First + steps_left n s Second"

lemma mon_signal_places:
  assumes "mon_signal m u s = Some s'"
  shows "place_of s' = place_of s" "prints s' = prints s"
  using assms by (auto simp: mon_signal_def Let_def split: option.splits if_splits)

lemma starter_goes_on_places:
  assumes "starter_goes_on m u s = Some s'"
  shows "place_of s' = (place_of s)(Starter := if m = MonA then InWait MonB else Ends)" "prints s' = prints s"
  using assms by (auto simp: starter_goes_on_def mon_sleep_def split: mon_id.splits if_splits dest: mon_signal_places)

lemma turn_places:
  assumes "pair_turn n p u s = Some s'"
  shows "\<exists>pl k. place_of s' = (place_of s)(p := pl) \<and> prints s' = (prints s)(p := k) \<and>
    (case place_of s p of
       Begins \<Rightarrow> pl = InWait (mine p) \<and> k = prints s p
     | InWait m \<Rightarrow> if \<not> mon_flag s m then pl = InWait m \<and> k = prints s p
         else if p = Starter then pl = (if m = MonA then InWait MonB else Ends) \<and> k = prints s p
         else pl = Tells \<and> k = prints s p + 1
     | Tells \<Rightarrow> pl = Told \<and> k = prints s p
     | Told \<Rightarrow> (pl = InWait (mine p) \<or> pl = Ends) \<and> k = prints s p
     | Ends \<Rightarrow> False)"
proof (cases "place_of s p")
  case Begins
  then obtain s1 where "mon_signal (mine p) u s = Some s1" "s' = mon_sleep (mine p) p s1"
    using assms by (auto simp: pair_turn_def pair_begins_def pair_wakes_def split: if_splits)
  then show ?thesis using Begins mon_signal_places by (auto simp: mon_sleep_def)
next
  case (InWait m)
  let ?s = "s\<lparr>owner := (owner s)(m := Some p), mon_flag := (mon_flag s)(m := False)\<rparr>"
  have h: "\<not> sleeping s p" "owner s m = None" using assms InWait by (auto simp: pair_turn_def pair_begins_def pair_wakes_def split: if_splits)
  show ?thesis
  proof (cases "mon_flag s m")
    case False
    then have "place_of s' = (place_of s)(p := InWait m)" "prints s' = prints s"
      using assms InWait h by (auto simp: pair_turn_def pair_begins_def pair_wakes_def mon_sleep_def Let_def split: if_splits)
    then show ?thesis using InWait False by auto
  next
    case True
    show ?thesis
    proof (cases "p = Starter")
      case p: True
      then have "starter_goes_on m u ?s = Some s'" using assms InWait h True by (simp add: pair_turn_def pair_begins_def pair_wakes_def Let_def)
      then show ?thesis using InWait True p starter_goes_on_places[of m u ?s s'] by auto
    next
      case p: False
      then have "place_of s' = (place_of s)(p := Tells)" "prints s' = (prints s)(p := prints s p + 1)"
        using assms InWait h True by (auto simp: pair_turn_def pair_begins_def pair_wakes_def Let_def split: if_splits)
      then show ?thesis using InWait True p by auto
    qed
  qed
next
  case Tells
  then obtain s1 where "mon_signal (neighbour p) u s = Some s1" "s' = s1\<lparr>place_of := (place_of s1)(p := Told)\<rparr>"
    using assms by (auto simp: pair_turn_def pair_begins_def pair_wakes_def split: if_splits)
  then show ?thesis using Tells mon_signal_places by auto
next
  case Told
  then show ?thesis using assms
    by (cases "prints s p < n") (auto simp: pair_turn_def pair_begins_def pair_wakes_def mon_sleep_def split: if_splits)
qed (use assms in \<open>simp add: pair_turn_def pair_begins_def pair_wakes_def\<close>)

lemma moving_party:
  assumes "pair_inv n s" and "pair_turn n p u s = Some s'" and "0 < n"
  shows "place_of s p = InWait m \<Longrightarrow> mon_flag s m \<and> (p \<noteq> Starter \<longrightarrow> prints s p < n)"
    and "p = Starter \<Longrightarrow> \<exists>m. place_of s p = InWait m"
proof -
  have "\<not> sleeping s p \<or> (\<forall>m. place_of s p \<noteq> InWait m)" "place_of s p \<noteq> Ends"
    using assms(2) by (auto simp: pair_turn_def pair_begins_def pair_wakes_def split: if_splits)
  then show "place_of s p = InWait m \<Longrightarrow> mon_flag s m \<and> (p \<noteq> Starter \<longrightarrow> prints s p < n)"
    and "p = Starter \<Longrightarrow> \<exists>m. place_of s p = InWait m"
    using assms(1,3) unfolding pair_inv_def
    by (cases p; auto simp: setup_inv_def turn_inv_def last_told_def)+
qed

lemma pair_rank_decreases:
  assumes i: "pair_inv n s" and n: "0 < n" and st: "pair_step False n s s'"
  shows "pair_rank n s' < pair_rank n s"
proof -
  obtain p u where t: "pair_turn n p u s = Some s'" using st by (auto elim: pair_stepE)
  have other: "steps_left n s' q = steps_left n s q" if "q \<noteq> p" for q
    using turn_places[OF t] that by (auto simp: steps_left_def)
  have "steps_left n s' p < steps_left n s p"
  proof (cases "place_of s p")
    case (InWait m)
    then show ?thesis using turn_places[OF t] moving_party(1)[OF i t n InWait]
      by (cases m) (auto simp: steps_left_def)
  next
    case Told
    then show ?thesis using turn_places[OF t] moving_party(2)[OF i t n] by (auto simp: steps_left_def)
  qed (use turn_places[OF t] moving_party(2)[OF i t n] in \<open>auto simp: steps_left_def\<close>)
  then show ?thesis using other by (cases p) (auto simp: pair_rank_def)
qed

lemma pair_output:
  assumes "pair_inv n s"
  shows "\<exists>k \<le> 2 * n. lines_out s = alternating k" and "pair_ended s \<Longrightarrow> lines_out s = alternating (2 * n)"
proof -
  show "\<exists>k \<le> 2 * n. lines_out s = alternating k"
    using assms unfolding pair_inv_def
  proof (elim disjE)
    assume "setup_inv s"
    then show ?thesis by (auto simp: setup_inv_def intro: exI[of _ 0])
  next
    assume "turn_inv n First Second s"
    then show ?thesis by (intro exI[of _ "prints s First + prints s Second"]) (auto simp: turn_inv_def)
  next
    assume "turn_inv n Second First s"
    then show ?thesis by (intro exI[of _ "prints s Second + prints s First"]) (auto simp: turn_inv_def)
  next
    assume "last_told n s"
    then show ?thesis by (auto simp: last_told_def)
  qed
  show "pair_ended s \<Longrightarrow> lines_out s = alternating (2 * n)"
    using assms by (auto simp: pair_inv_def setup_inv_def turn_inv_def last_told_def pair_ended_def)
qed

interpretation pair: terminating_system "\<lambda>s. s = pair_start" "pair_step False PAIR_LOOPS" "pair_inv PAIR_LOOPS" pair_ended
  "pair_rank PAIR_LOOPS"
  using pair_start_inv pair_step_inv pair_progress pair_rank_decreases
  by unfold_locales (auto simp: PAIR_LOOPS_def)

end
