(* ===== verification/Monitor_Mains.thy ===== *)
theory Monitor_Mains
  imports Monitor Monitor_Pair Pthread
begin

text \<open>
  \<open>main\<close> of \<open>task12_.c\<close> and of \<open>task12.c\<close> up to its first wait, over the results of its calls. The
  functions of the threads library return 0 or a positive error number: \<open>task12_.c\<close> compares with 0
  and ends the process, \<open>task12.c\<close> compares most of them with -1 and so goes on when they fail.
\<close>

text \<open>Results of the calls of \<open>monitor_init\<close>.\<close>

record init_rcs =
  rc_cond_init :: int
  rc_mutexattr_init :: int
  rc_settype :: int
  rc_mutex_init12 :: int

record main_rcs =
  rc_attr_init :: int
  rc_setstacksize :: int
  rc_create1 :: int
  rc_create2 :: int

section \<open>One monitor\<close>

text \<open>The result is the value of the new monitor.\<close>

definition monitor_init1 :: "init_rcs \<Rightarrow> int res" where
  "monitor_init1 e =
     bind_r (cem (rc_cond_init e)) (\<lambda>_. bind_r (cem (rc_mutexattr_init e)) (\<lambda>_.
     bind_r (cem (rc_settype e)) (\<lambda>_. bind_r (cem (rc_mutex_init12 e)) (\<lambda>_. Inr (-1)))))"

text \<open>The second thread is created behind the first wait, in \<open>main_goes_on\<close>.\<close>

definition main_one :: "init_rcs \<Rightarrow> main_rcs \<Rightarrow> monitor_t res" where
  "main_one i e =
     bind_r (monitor_init1 i) (\<lambda>v.
     bind_r (cem (rc_attr_init e)) (\<lambda>_. bind_r (cem (rc_setstacksize e)) (\<lambda>_.
     bind_r (mutex_lock Unlocked) (\<lambda>_. bind_r (cem (rc_create1 e)) (\<lambda>_.
     Inr (monitor_start\<lparr>mvalue := v\<rparr>))))))"

lemma main_one_starts: "main_one i e = Inr s \<Longrightarrow> s = monitor_start"
  by (auto simp: main_one_def monitor_init1_def monitor_start_def bind_r_Inr_iff)

lemma main_one_exits:
  "main_one i e = (if rc_cond_init i = 0 \<and> rc_mutexattr_init i = 0 \<and> rc_settype i = 0 \<and> rc_mutex_init12 i = 0 \<and>
     rc_attr_init e = 0 \<and> rc_setstacksize e = 0 \<and> rc_create1 e = 0 then Inr monitor_start else Inl Exit)"
  by (simp add: main_one_def monitor_init1_def monitor_start_def cem_def assert_r_def)

section \<open>Two monitors\<close>

definition not_minus1 :: "int \<Rightarrow> unit res" where
  "not_minus1 rc = assert_r (rc \<noteq> -1)"

text \<open>
  Whether the condition and the mutex of the monitor are there. The attribute object is static: the
  second call initialises it again, which is taken to do no harm.
\<close>

definition monitor_init2 :: "init_rcs \<Rightarrow> (bool \<times> bool) res" where
  "monitor_init2 e =
     bind_r (not_minus1 (rc_cond_init e)) (\<lambda>_. bind_r (not_minus1 (rc_mutexattr_init e)) (\<lambda>_.
     bind_r (defined_r (rc_mutexattr_init e = 0)) (\<lambda>_. bind_r (not_minus1 (rc_settype e)) (\<lambda>_.
     bind_r (not_minus1 (rc_mutex_init12 e)) (\<lambda>_. Inr (rc_cond_init e = 0, rc_mutex_init12 e = 0))))))"

text \<open>No failure is seen: errors are positive.\<close>

lemma monitor_init2_unnoticed:
  assumes "0 \<le> rc_cond_init i" and "rc_mutexattr_init i = 0" and "0 \<le> rc_settype i" and "0 \<le> rc_mutex_init12 i"
  shows "monitor_init2 i = Inr (rc_cond_init i = 0, rc_mutex_init12 i = 0)"
  using assms by (simp add: monitor_init2_def not_minus1_def)

text \<open>\<open>Ends\<close> is also where a thread is that was not created.\<close>

definition pair_started :: "bool \<Rightarrow> bool \<Rightarrow> pair_state" where
  "pair_started c1 c2 = pair_start\<lparr>place_of := (\<lambda>p. case p of Starter \<Rightarrow> InWait MonA
     | First \<Rightarrow> (if c1 then Begins else Ends) | Second \<Rightarrow> (if c2 then Begins else Ends))\<rparr>"

datatype main_outcome = ReturnsAtOnce int | AtFirstWait pair_state

text \<open>Both monitors are locked, the threads are created, and the first wait begins.\<close>

definition main_two :: "init_rcs \<Rightarrow> init_rcs \<Rightarrow> main_rcs \<Rightarrow> main_outcome res" where
  "main_two i1 i2 e =
     bind_r (monitor_init2 i1) (\<lambda>(cond1, mutex1).
     bind_r (monitor_init2 i2) (\<lambda>(cond2, mutex2).
     bind_r (cem (rc_attr_init e)) (\<lambda>_. bind_r (cem (rc_setstacksize e)) (\<lambda>_.
     bind_r (defined_r (mutex1 \<and> mutex2)) (\<lambda>_.
     if rc_create1 e = -1 \<or> rc_create2 e = -1 then Inr (ReturnsAtOnce 0)
     else bind_r (defined_r cond1) (\<lambda>_. Inr (AtFirstWait (pair_started (rc_create1 e = 0) (rc_create2 e = 0)))))))))"

lemma pair_started_both [simp]: "pair_started True True = pair_start"
proof -
  have "(\<lambda>p. case p of Starter \<Rightarrow> InWait MonA | First \<Rightarrow> Begins | Second \<Rightarrow> Begins) =
      (\<lambda>p. case p of Starter \<Rightarrow> InWait MonA | _ \<Rightarrow> Begins)"
    by (auto simp: fun_eq_iff split: party.split)
  then show ?thesis by (simp add: pair_started_def pair_start_def)
qed

lemma main_two_waits:
  "main_two i1 i2 e = Inr (AtFirstWait s) \<Longrightarrow> s = pair_started (rc_create1 e = 0) (rc_create2 e = 0)"
  by (auto simp: main_two_def bind_r_Inr_iff split: if_splits prod.splits)

section \<open>A thread that was not created\<close>

text \<open>Without the first thread nobody gives \<open>main\<close> its first signal; without the second one, the second signal.\<close>

definition without_first :: "pair_state \<Rightarrow> bool" where
  "without_first s =
     (place_of s Starter = InWait MonA \<and> place_of s First = Ends \<and> \<not> mon_flag s MonA \<and> owner s MonB = Some Starter \<and>
      (place_of s Second = Begins \<or> place_of s Second = Ends))"

definition without_second :: "pair_state \<Rightarrow> bool" where
  "without_second s =
     (place_of s Second = Ends \<and> \<not> mon_flag s MonB \<and>
      (if place_of s Starter = InWait MonA
       then owner s MonB = Some Starter \<and>
         (place_of s First = Begins \<and> \<not> mon_flag s MonA \<or> place_of s First = InWait MonA \<or>
          place_of s First = Tells \<and> owner s MonA = Some First)
       else place_of s Starter = InWait MonB \<and> place_of s First = InWait MonA \<and> \<not> mon_flag s MonA))"

lemma without_first_start: "without_first (pair_started False c2)"
  by (simp add: without_first_def pair_started_def pair_start_def)

lemma without_second_start: "without_second (pair_started True False)"
  by (simp add: without_second_def pair_started_def pair_start_def)

lemmas pair_turn_defs = pair_turn_def pair_begins_def pair_wakes_def starter_goes_on_def mon_sleep_def Let_def

lemma without_first_turn:
  assumes "without_first s" and "pair_turn n p u s = Some s'"
  shows "without_first s'"
  using assms by (cases p) (auto simp: without_first_def pair_turn_defs split: if_splits)

lemma mon_signal_fields:
  assumes "mon_signal m u s = Some s'"
  shows "mon_flag s' = (mon_flag s)(m := True) \<and> owner s' = owner s \<and> place_of s' = place_of s"
  using assms by (auto simp: mon_signal_def Let_def split: option.splits if_splits)

lemma without_second_turn:
  assumes "without_second s" and "pair_turn n p u s = Some s'"
  shows "without_second s'"
  using assms
  by (cases p) (auto simp: without_second_def pair_turn_defs dest!: mon_signal_fields split: if_splits)

lemma without_spurious:
  "without_first s \<Longrightarrow> without_first (s\<lparr>sleeping := f\<rparr>)" "without_second s \<Longrightarrow> without_second (s\<lparr>sleeping := f\<rparr>)"
  by (simp_all add: without_first_def without_second_def)

interpretation no_first: safe_system "\<lambda>s. s = pair_started False c" "pair_step b n" without_first
  by unfold_locales (auto intro: without_first_start without_first_turn without_spurious elim: pair_stepE)

interpretation no_second: safe_system "\<lambda>s. s = pair_started True False" "pair_step b n" without_second
  by unfold_locales (auto intro: without_second_start without_second_turn without_spurious elim: pair_stepE)

lemma not_created_hangs:
  assumes "reachable (\<lambda>s. s = pair_started c1 c2) (pair_step b n) s" and "\<not> (c1 \<and> c2)"
  shows "\<not> pair_ended s"
proof (cases c1)
  case True
  then have "without_second s" using no_second.reachable_inv[of b n s] assms by simp
  then show ?thesis by (auto simp: without_second_def pair_ended_def split: if_splits)
next
  case False
  then have "without_first s" using no_first.reachable_inv[of c2 b n s] assms by simp
  then show ?thesis by (simp add: without_first_def pair_ended_def)
qed

end
