(* ===== verification/Philosophers22.thy ===== *)
theory Philosophers22
  imports Philosophers
begin

text \<open>
  \<open>task22.c\<close>: under the mutex \<open>m\<close> a philosopher tries both forks; when the right one is taken it
  puts the left one back, so the attempt as a whole takes both or none. Then it sleeps on the
  condition until a broadcast or, when that is allowed, for no reason. Forks are put back outside
  \<open>m\<close>, the broadcast comes after both. The choice of forks and the number of rounds are those of
  \<open>task10.c\<close>.
\<close>

section \<open>State and steps\<close>

datatype phil22_pc = Hungry | Asleep | Eats | RightBack | BothBack | Sated

record table22_t =
  pcs22 :: "nat \<Rightarrow> phil22_pc"
  rounds22 :: "nat \<Rightarrow> nat"
  forks22 :: "nat \<Rightarrow> nat option"

definition at_table22 :: "table22_t" where
  "at_table22 = \<lparr>pcs22 = (\<lambda>_. Hungry), rounds22 = (\<lambda>_. 0), forks22 = (\<lambda>_. None)\<rparr>"

text \<open>The body of \<open>while(1)\<close>: the two calls of \<open>pthread_mutex_trylock\<close>.\<close>

definition try_forks :: "nat \<Rightarrow> table22_t \<Rightarrow> table22_t" where
  "try_forks p s =
     (if forks22 s (left_fork p) \<noteq> None then s\<lparr>pcs22 := (pcs22 s)(p := Asleep)\<rparr>
      else let s1 = s\<lparr>forks22 := (forks22 s)(left_fork p := Some p)\<rparr> in
        if forks22 s1 (right_fork p) \<noteq> None
        then s1\<lparr>forks22 := (forks22 s1)(left_fork p := None), pcs22 := (pcs22 s1)(p := Asleep)\<rparr>
        else s1\<lparr>forks22 := (forks22 s1)(right_fork p := Some p), pcs22 := (pcs22 s1)(p := Eats)\<rparr>)"

definition wake22 :: "(nat \<Rightarrow> phil22_pc) \<Rightarrow> nat \<Rightarrow> phil22_pc" where
  "wake22 pc = (\<lambda>q. if pc q = Asleep then Hungry else pc q)"

text \<open>\<open>None\<close>: the philosopher sleeps, or has left the loop.\<close>

definition phil22 :: "nat \<Rightarrow> table22_t \<Rightarrow> table22_t option" where
  "phil22 p s = (case pcs22 s p of
     Hungry \<Rightarrow> Some (try_forks p s)
   | Eats \<Rightarrow> Some (s\<lparr>forks22 := (forks22 s)(right_fork p := None), pcs22 := (pcs22 s)(p := RightBack)\<rparr>)
   | RightBack \<Rightarrow> Some (s\<lparr>forks22 := (forks22 s)(left_fork p := None), pcs22 := (pcs22 s)(p := BothBack)\<rparr>)
   | BothBack \<Rightarrow> Some (s\<lparr>rounds22 := (rounds22 s)(p := rounds22 s p + 1),
       pcs22 := wake22 ((pcs22 s)(p := if rounds22 s p + 1 < ROUNDS then Hungry else Sated))\<rparr>)
   | _ \<Rightarrow> None)"

text \<open>With \<open>b\<close> a wait may end by itself.\<close>

inductive dine22 :: "bool \<Rightarrow> table22_t \<Rightarrow> table22_t \<Rightarrow> bool" for b where
  stirs22: "p < COUNT_OF_PHIL \<Longrightarrow> phil22 p s = Some s' \<Longrightarrow> dine22 b s s'"
| wakes22: "b \<Longrightarrow> p < COUNT_OF_PHIL \<Longrightarrow> pcs22 s p = Asleep \<Longrightarrow> dine22 b s (s\<lparr>pcs22 := (pcs22 s)(p := Hungry)\<rparr>)"

inductive_cases dine22E: "dine22 b s s'"

text \<open>All threads are joined; the forks that are free can be destroyed.\<close>

definition all_sated :: "table22_t \<Rightarrow> bool" where
  "all_sated s = (\<forall>p < COUNT_OF_PHIL. pcs22 s p = Sated)"

section \<open>Invariant\<close>

fun held22 :: "nat \<Rightarrow> phil22_pc \<Rightarrow> nat set" where
  "held22 p Eats = {left_fork p, right_fork p}"
| "held22 p RightBack = {left_fork p}"
| "held22 p _ = {}"

definition busy22 :: "table22_t \<Rightarrow> nat \<Rightarrow> bool" where
  "busy22 s p = (p < COUNT_OF_PHIL \<and> pcs22 s p \<in> {Eats, RightBack, BothBack})"

definition forks22_inv :: "table22_t \<Rightarrow> bool" where
  "forks22_inv s =
     ((\<forall>f p. forks22 s f = Some p \<longleftrightarrow> p < COUNT_OF_PHIL \<and> f \<in> held22 p (pcs22 s p)) \<and>
      (\<forall>p < COUNT_OF_PHIL. pcs22 s p = Asleep \<longrightarrow> (\<exists>q. busy22 s q)))"

definition rounds22_inv :: "table22_t \<Rightarrow> bool" where
  "rounds22_inv s =
     (\<forall>p < COUNT_OF_PHIL. if pcs22 s p = Sated then rounds22 s p = ROUNDS else rounds22 s p < ROUNDS)"

definition table22_inv :: "table22_t \<Rightarrow> bool" where
  "table22_inv s = (forks22_inv s \<and> rounds22_inv s)"

lemma table22_start: "table22_inv at_table22"
  by (simp add: table22_inv_def forks22_inv_def rounds22_inv_def at_table22_def ROUNDS_def)

lemma fork22_free: "forks22_inv s \<Longrightarrow> forks22 s f = None \<Longrightarrow> q < COUNT_OF_PHIL \<Longrightarrow> f \<notin> held22 q (pcs22 s q)"
  by (auto simp: forks22_inv_def) (metis option.distinct(1))

lemma fork22_mine: "forks22_inv s \<Longrightarrow> q < COUNT_OF_PHIL \<Longrightarrow> f \<in> held22 q (pcs22 s q) \<Longrightarrow> r < COUNT_OF_PHIL \<Longrightarrow>
    f \<in> held22 r (pcs22 s r) \<Longrightarrow> q = r"
  by (auto simp: forks22_inv_def) (metis option.inject)

lemma fork22_busy: "forks22_inv s \<Longrightarrow> forks22 s f \<noteq> None \<Longrightarrow> \<exists>q. busy22 s q"
proof -
  assume i: "forks22_inv s" and "forks22 s f \<noteq> None"
  then obtain q where "q < COUNT_OF_PHIL" "f \<in> held22 q (pcs22 s q)" by (auto simp: forks22_inv_def)
  then show ?thesis by (cases "pcs22 s q") (auto simp: busy22_def intro!: exI[of _ q])
qed

text \<open>The attempt as one: both forks are taken when both are free, and otherwise nothing changes hands.\<close>

lemma try_forks_simp:
  assumes "p < COUNT_OF_PHIL"
  shows "try_forks p s =
    (if forks22 s (left_fork p) = None \<and> forks22 s (right_fork p) = None
     then s\<lparr>forks22 := (forks22 s)(left_fork p := Some p, right_fork p := Some p), pcs22 := (pcs22 s)(p := Eats)\<rparr>
     else s\<lparr>pcs22 := (pcs22 s)(p := Asleep)\<rparr>)"
  using neq_forks[OF assms] by (auto simp: try_forks_def Let_def fun_upd_idem)

lemma forks22_move:
  assumes i: "forks22_inv s" and p: "p < COUNT_OF_PHIL" and st: "phil22 p s = Some s'"
  shows "forks22_inv s'"
proof (cases "pcs22 s p")
  case Hungry
  show ?thesis
  proof (cases "forks22 s (left_fork p) = None \<and> forks22 s (right_fork p) = None")
    case True
    then show ?thesis using i p neq_forks[OF p] st Hungry fork22_free[OF i] unfolding forks22_inv_def
      by (auto simp: phil22_def try_forks_simp busy22_def split: if_splits)
  next
    case False
    then obtain q where q: "busy22 s q" using fork22_busy[OF i] by blast
    then have "q \<noteq> p" using Hungry by (auto simp: busy22_def)
    then have "busy22 s' q" using q False st Hungry p by (auto simp: phil22_def try_forks_simp busy22_def)
    then show ?thesis using i p st Hungry False unfolding forks22_inv_def
      by (auto simp: phil22_def try_forks_simp split: if_splits)
  qed
next
  case Eats
  have s': "s' = s\<lparr>forks22 := (forks22 s)(right_fork p := None), pcs22 := (pcs22 s)(p := RightBack)\<rparr>"
    using st Eats by (simp add: phil22_def)
  have "right_fork p \<notin> held22 q (pcs22 s q)" if "q < COUNT_OF_PHIL" "q \<noteq> p" for q
    using fork22_mine[OF i p _ that(1), of "right_fork p"] Eats that(2) by auto
  moreover have "busy22 s' p" using p by (simp add: s' busy22_def)
  ultimately show ?thesis using i p neq_forks[OF p] Eats unfolding forks22_inv_def by (auto simp: s' split: if_splits)
next
  case RightBack
  have s': "s' = s\<lparr>forks22 := (forks22 s)(left_fork p := None), pcs22 := (pcs22 s)(p := BothBack)\<rparr>"
    using st RightBack by (simp add: phil22_def)
  have "left_fork p \<notin> held22 q (pcs22 s q)" if "q < COUNT_OF_PHIL" "q \<noteq> p" for q
    using fork22_mine[OF i p _ that(1), of "left_fork p"] RightBack that(2) by auto
  moreover have "busy22 s' p" using p by (simp add: s' busy22_def)
  ultimately show ?thesis using i p neq_forks[OF p] RightBack unfolding forks22_inv_def by (auto simp: s' split: if_splits)
next
  case BothBack
  have "pcs22 s' q = (if q = p then if rounds22 s p + 1 < ROUNDS then Hungry else Sated
      else if pcs22 s q = Asleep then Hungry else pcs22 s q)" for q
    using BothBack st by (auto simp: phil22_def wake22_def)
  then have "held22 q (pcs22 s' q) = held22 q (pcs22 s q)" for q
    using BothBack by (cases "q = p"; cases "pcs22 s q") simp_all
  moreover have "pcs22 s' q \<noteq> Asleep" for q
    using BothBack st by (auto simp: phil22_def wake22_def split: if_splits)
  moreover have "forks22 s' = forks22 s" using BothBack st by (auto simp: phil22_def)
  ultimately show ?thesis using i unfolding forks22_inv_def by simp
qed (use st in \<open>simp_all add: phil22_def\<close>)

lemma rounds22_move: "rounds22_inv s \<Longrightarrow> p < COUNT_OF_PHIL \<Longrightarrow> phil22 p s = Some s' \<Longrightarrow> rounds22_inv s'"
  by (auto simp: rounds22_inv_def phil22_def try_forks_def wake22_def Let_def split: phil22_pc.splits if_splits)

lemma table22_wake:
  assumes "table22_inv s" and "pcs22 s p = Asleep"
  shows "table22_inv (s\<lparr>pcs22 := (pcs22 s)(p := Hungry)\<rparr>)"
proof -
  let ?s = "s\<lparr>pcs22 := (pcs22 s)(p := Hungry)\<rparr>"
  have "busy22 ?s q = busy22 s q" "held22 q (pcs22 ?s q) = held22 q (pcs22 s q)" for q
    using assms(2) by (simp_all add: busy22_def)
  then show ?thesis using assms by (simp add: table22_inv_def forks22_inv_def rounds22_inv_def)
qed

lemma table22_step: "table22_inv s \<Longrightarrow> dine22 b s s' \<Longrightarrow> table22_inv s'"
  by (erule dine22E) (auto simp: table22_wake, auto simp: table22_inv_def intro: forks22_move rounds22_move)

section \<open>Progress\<close>

text \<open>Nobody is forgotten: somebody is at work, or every attempt to eat succeeds.\<close>

lemma someone_eats:
  assumes i: "table22_inv s" and none: "\<nexists>q. busy22 s q" and p: "p < COUNT_OF_PHIL" "pcs22 s p \<noteq> Sated"
  shows "pcs22 s p = Hungry \<and> (\<exists>s'. phil22 p s = Some s' \<and> pcs22 s' p = Eats)"
proof -
  have f: "forks22_inv s" using i by (simp add: table22_inv_def)
  have h: "pcs22 s p = Hungry"
    using f none p by (cases "pcs22 s p") (auto simp: forks22_inv_def busy22_def)
  have "forks22 s f = None" for f using fork22_busy[OF f] none by blast
  then show ?thesis using p h by (simp add: phil22_def try_forks_simp)
qed

lemma never_eat_together22:
  assumes "table22_inv s" "p < COUNT_OF_PHIL" "q < COUNT_OF_PHIL" "pcs22 s p = Eats" "pcs22 s q = Eats"
    and "{left_fork p, right_fork p} \<inter> {left_fork q, right_fork q} \<noteq> {}"
  shows "p = q"
proof -
  have i: "forks22_inv s" using assms(1) by (simp add: table22_inv_def)
  obtain f where f: "f \<in> {left_fork p, right_fork p}" "f \<in> {left_fork q, right_fork q}" using assms(6) by blast
  show ?thesis by (rule fork22_mine[OF i assms(2) _ assms(3)]) (use f assms(4,5) in simp_all)
qed

lemma table22_progress:
  assumes i: "table22_inv s" and n: "\<not> all_sated s"
  shows "\<exists>s'. dine22 b s s'"
proof (cases "\<exists>q. busy22 s q")
  case True
  then obtain q where "q < COUNT_OF_PHIL" "phil22 q s \<noteq> None" by (auto simp: busy22_def phil22_def)
  then show ?thesis by (auto intro: stirs22)
next
  case False
  obtain p where p: "p < COUNT_OF_PHIL" "pcs22 s p \<noteq> Sated" using n by (auto simp: all_sated_def)
  show ?thesis using someone_eats[OF i False p] p(1) by (auto intro: stirs22)
qed

lemma sated_forks_free:
  assumes "table22_inv s" and "all_sated s"
  shows "forks22 s f = None" and "p < COUNT_OF_PHIL \<Longrightarrow> rounds22 s p = ROUNDS"
proof -
  have "\<nexists>q. busy22 s q" using assms(2) by (auto simp: busy22_def all_sated_def)
  then show "forks22 s f = None" using fork22_busy[of s f] assms(1) unfolding table22_inv_def by blast
  show "rounds22 s p = ROUNDS" if "p < COUNT_OF_PHIL"
    using that assms by (auto simp: table22_inv_def rounds22_inv_def all_sated_def split: if_splits)
qed

section \<open>Every run without such wakeups ends\<close>

text \<open>
  What a philosopher still has to do; a failed attempt changes nothing of it, but there is at most one
  for each hungry philosopher before the next broadcast.
\<close>

fun place22 :: "phil22_pc \<Rightarrow> nat" where
  "place22 Hungry = 3"
| "place22 Asleep = 3"
| "place22 Eats = 2"
| "place22 RightBack = 1"
| "place22 BothBack = 0"
| "place22 Sated = 0"

definition work22 :: "table22_t \<Rightarrow> nat \<Rightarrow> nat" where
  "work22 s p = 24 * (ROUNDS - rounds22 s p) + 6 * place22 (pcs22 s p) + (if pcs22 s p = Hungry then 1 else 0)"

definition table22_rank :: "table22_t \<Rightarrow> nat" where
  "table22_rank s = (\<Sum>p<COUNT_OF_PHIL. work22 s p)"

lemma sum_one_less:
  assumes "p < (n::nat)" and "f p + d < (g p :: nat)" and "\<And>q. q < n \<Longrightarrow> q \<noteq> p \<Longrightarrow> f q \<le> g q + e" and "n * e \<le> d + e"
  shows "(\<Sum>q<n. f q) < (\<Sum>q<n. g q)"
proof -
  have split: "(\<Sum>q<n. h q) = h p + (\<Sum>q\<in>{..<n} - {p}. h q)" for h :: "nat \<Rightarrow> nat"
    using assms(1) by (simp add: sum.remove)
  have "(\<Sum>q\<in>{..<n} - {p}. f q) \<le> (\<Sum>q\<in>{..<n} - {p}. g q + e)"
    by (rule sum_mono) (use assms(3) in auto)
  also have "\<dots> = (\<Sum>q\<in>{..<n} - {p}. g q) + (n - 1) * e"
    using assms(1) by (simp add: sum.distrib)
  finally have "(\<Sum>q\<in>{..<n} - {p}. f q) \<le> (\<Sum>q\<in>{..<n} - {p}. g q) + d"
    using assms(4) by (simp add: diff_mult_distrib)
  then show ?thesis using assms(2) split[of f] split[of g] by linarith
qed

lemma rank22_decreases:
  assumes i: "table22_inv s" and st: "dine22 False s s'"
  shows "table22_rank s' < table22_rank s"
  using st
proof (rule dine22E)
  fix p
  assume p: "p < COUNT_OF_PHIL" and m: "phil22 p s = Some s'"
  have r: "pcs22 s p \<noteq> Sated \<Longrightarrow> rounds22 s p < ROUNDS" using i p by (auto simp: table22_inv_def rounds22_inv_def split: if_splits)
  show ?thesis
  proof (cases "pcs22 s p = BothBack")
    case True
    then have s': "s' = s\<lparr>rounds22 := (rounds22 s)(p := rounds22 s p + 1),
       pcs22 := wake22 ((pcs22 s)(p := if rounds22 s p + 1 < ROUNDS then Hungry else Sated))\<rparr>"
      using m by (simp add: phil22_def)
    have "work22 s' p + 4 < work22 s p" using r True by (auto simp: s' work22_def wake22_def)
    moreover have "work22 s' q \<le> work22 s q + 1" if "q \<noteq> p" for q
      using that by (simp add: s' work22_def wake22_def)
    ultimately show ?thesis unfolding table22_rank_def
      by (intro sum_one_less[where p = p and d = 4 and e = 1]) (use p in \<open>auto simp: COUNT_OF_PHIL_def\<close>)
  next
    case False
    then have "work22 s' p < work22 s p" using m p r
      by (auto simp: phil22_def try_forks_simp work22_def split: phil22_pc.splits if_splits)
    moreover have "work22 s' q = work22 s q" if "q \<noteq> p" for q
      using that m False p by (auto simp: phil22_def try_forks_simp work22_def split: phil22_pc.splits if_splits)
    ultimately show ?thesis unfolding table22_rank_def
      by (intro sum_one_less[where p = p and d = 0 and e = 0]) (use p in auto)
  qed
qed simp

interpretation ph22: terminating_system "\<lambda>s. s = at_table22" "dine22 False" table22_inv all_sated table22_rank
  using table22_start table22_step table22_progress rank22_decreases by unfold_locales auto

interpretation ph22_spurious: progressing_system "\<lambda>s. s = at_table22" "dine22 b" table22_inv all_sated for b
  using table22_start table22_step table22_progress by unfold_locales auto

lemma rank22_at_start: "table22_rank at_table22 = COUNT_OF_PHIL * (24 * ROUNDS + 19)"
  by (simp add: table22_rank_def work22_def at_table22_def)

text \<open>Steps without such wakeups are steps.\<close>

lemma dine22_mono: "dine22 False s s' \<Longrightarrow> dine22 b s s'"
  by (erule dine22E) (auto intro: stirs22)

section \<open>The entrance\<close>

text \<open>
  The forks of the next step: an attempt tries the right one when it gets the left one. A sleeper
  uses the condition and the mutex only, which are there before everything else.
\<close>

definition uses22 :: "nat \<Rightarrow> table22_t \<Rightarrow> nat set" where
  "uses22 p s = (case pcs22 s p of
     Hungry \<Rightarrow> insert (left_fork p) (if forks22 s (left_fork p) = None then {right_fork p} else {})
   | Eats \<Rightarrow> {right_fork p}
   | RightBack \<Rightarrow> {left_fork p}
   | _ \<Rightarrow> {})"

definition moves22 :: "bool \<Rightarrow> nat \<Rightarrow> table22_t \<Rightarrow> table22_t \<Rightarrow> bool" where
  "moves22 b p s s' =
     (phil22 p s = Some s' \<or> b \<and> pcs22 s p = Asleep \<and> s' = s\<lparr>pcs22 := (pcs22 s)(p := Hungry)\<rparr>)"

definition main22 :: "bool \<Rightarrow> table22_t \<times> nat \<Rightarrow> table22_t \<times> nat \<Rightarrow> bool" where
  "main22 b = evening COUNT_OF_PHIL (moves22 b) uses22"

lemma uses22_forks: "p < COUNT_OF_PHIL \<Longrightarrow> uses22 p s \<subseteq> {..<COUNT_OF_PHIL}"
  using forks_ordered[of p] by (auto simp: uses22_def split: phil22_pc.splits if_splits)

lemma dine22_moves: "dine22 b s s' \<longleftrightarrow> (\<exists>p < COUNT_OF_PHIL. moves22 b p s s')"
  by (auto simp: moves22_def intro: dine22.intros elim!: dine22E)

interpretation dn22_spurious: dinner COUNT_OF_PHIL at_table22 "moves22 b" uses22 table22_inv all_sated for b
proof
  show "\<exists>p < COUNT_OF_PHIL. \<exists>s'. moves22 b p s s'" if "table22_inv s" "\<not> all_sated s" for s
    using table22_progress[OF that, of b] by (auto simp: dine22_moves)
  show "table22_inv s'" if "table22_inv s" "p < COUNT_OF_PHIL" "moves22 b p s s'" for s p s'
    using that table22_step[of s b s'] by (auto simp: dine22_moves)
qed (simp_all add: table22_start uses22_forks)

interpretation dn22: ending_dinner COUNT_OF_PHIL at_table22 "moves22 False" uses22 table22_inv all_sated table22_rank
  using rank22_decreases by unfold_locales (auto simp: dine22_moves)

lemma dine22_main22: "dine22 b s s' \<Longrightarrow> main22 b (s, 2 * COUNT_OF_PHIL) (s', 2 * COUNT_OF_PHIL)"
  unfolding dine22_moves main22_def by (blast intro: dn22_spurious.guest_at_table)

text \<open>Here the first attempt of the first philosopher may already come too early.\<close>

lemma first_attempt_too_early:
  "reachable (\<lambda>x. x = (at_table22, 0)) (main22 b) (at_table22, 2) \<and> too_early uses22 0 (at_table22, 2)"
proof
  show "reachable (\<lambda>x. x = (at_table22, 0)) (main22 b) (at_table22, 2)"
    unfolding main22_def by (rule entrance_reachable) (simp add: COUNT_OF_PHIL_def)
  show "too_early uses22 0 (at_table22, 2)"
    by (simp add: too_early_def seated_def forks_ready_def uses22_def at_table22_def left_fork_def right_fork_def COUNT_OF_PHIL_def)
qed

end
