(* ===== verification/List_Program.thy ===== *)
theory List_Program
  imports List17
begin

text \<open>
  \<open>tasks17_20/task17.c\<close>: the whole program. \<open>main\<close> reads up to 10000 lines, an empty one prints the
  list, another one is pushed; the sorting thread calls \<open>sort_list\<close> whenever it wakes up; SIGINT
  ends the process. Every operation runs under the mutex of the list, so a run is the sequence of
  these events in the order in which they get the mutex.
\<close>

section \<open>Events\<close>

text \<open>
  \<open>Input\<close>: what \<open>getline\<close> stores, its newline included, and what \<open>malloc\<close> returns if it is asked;
  \<open>NoLine\<close>: \<open>getline\<close> returns -1. \<open>Wake\<close>: the sorting thread comes back from \<open>sleep\<close>.
\<close>

datatype event_t = Input "char list" "nat option" | NoLine | Wake | Interrupt

text \<open>How a run stands: events may still come, the process has ended with a status, or a fault.\<close>

datatype standing = Running | Left_With int | Faulted fault

definition LINES17 :: nat where
  "LINES17 = 10000"

text \<open>One line in the loop of \<open>main\<close>: the new list and what is printed.\<close>

definition on_line17 :: "nat \<Rightarrow> char list \<Rightarrow> nat option \<Rightarrow> list_t \<Rightarrow> (list_t \<times> char list list) res" where
  "on_line17 fuel buff new l =
     (if length buff = 1 then list_print fuel l
      else bind_r (list_push_front new buff l) (\<lambda>l. Inr (l, [])))"

text \<open>The body of the endless loop of \<open>subroutine\<close>.\<close>

definition subroutine17 :: "nat \<Rightarrow> list_t \<Rightarrow> (list_t \<times> char list list) res" where
  "subroutine17 fuel l = bind_r (sort_list fuel l) (\<lambda>l. Inr (l, []))"

definition sigint_handler17 :: standing where
  "sigint_handler17 = Left_With 0"

text \<open>\<open>i\<close> counts the lines; behind the last one \<open>main\<close> returns 0, which ends the sorting thread as well.\<close>

fun main17 :: "nat \<Rightarrow> event_t list \<Rightarrow> nat \<Rightarrow> list_t \<Rightarrow> char list list \<times> standing" where
  "main17 fuel [] i l = ([], if i < LINES17 then Running else Left_With 0)"
| "main17 fuel (e # es) i l =
     (if LINES17 \<le> i then ([], Left_With 0)
      else if e = Interrupt then ([], sigint_handler17)
      else case (case e of Input buff new \<Rightarrow> on_line17 fuel buff new l
                   | Wake \<Rightarrow> subroutine17 fuel l
                   | _ \<Rightarrow> Inl Exit) of
             Inl f \<Rightarrow> ([], Faulted f)
           | Inr (l, out) \<Rightarrow> (case main17 fuel es (if e = Wake then i else i + 1) l of (rest, st) \<Rightarrow> (out @ rest, st)))"

text \<open>
  \<open>main\<close> from the start, with the results of the calls in front of the loop. The thread may sort
  before the handler is set: the list is still empty.
\<close>

record start17 =
  rc_mutex_init :: int
  rc_create :: int
  rc_sigemptyset :: int
  rc_sigaction :: int

definition program17 :: "nat \<Rightarrow> start17 \<Rightarrow> event_t list \<Rightarrow> list_t \<Rightarrow> char list list \<times> standing" where
  "program17 fuel e es l =
     (case bind_r (ce (rc_mutex_init e)) (\<lambda>_. bind_r (ce (rc_create e)) (\<lambda>_.
           bind_r (ce (rc_sigemptyset e)) (\<lambda>_. bind_r (ce (rc_sigaction e)) (\<lambda>_. Inr (list_init l))))) of
        Inl f \<Rightarrow> ([], Faulted f)
      | Inr l \<Rightarrow> main17 fuel es 0 l)"

definition start_fails :: "start17 \<Rightarrow> bool" where
  "start_fails e = (rc_mutex_init e \<noteq> 0 \<or> rc_create e \<noteq> 0 \<or> rc_sigemptyset e \<noteq> 0 \<or> rc_sigaction e \<noteq> 0)"

section \<open>What the program does\<close>

text \<open>
  The abstract program keeps the lines only, the latest first. Sorting never changes them: it is a
  no-operation, the end of the process or an endless loop under the mutex.
\<close>

fun lines17 :: "event_t list \<Rightarrow> nat \<Rightarrow> char list list \<Rightarrow> char list list \<times> standing" where
  "lines17 [] i ss = ([], if i < LINES17 then Running else Left_With 0)"
| "lines17 (Interrupt # es) i ss = ([], Left_With 0)"
| "lines17 (NoLine # es) i ss = ([], if i < LINES17 then Faulted Exit else Left_With 0)"
| "lines17 (Wake # es) i ss =
     (if LINES17 \<le> i then ([], Left_With 0)
      else case sort_outcome ss of None \<Rightarrow> lines17 es i ss | Some f \<Rightarrow> ([], Faulted f))"
| "lines17 (Input s new # es) i ss =
     (if LINES17 \<le> i then ([], Left_With 0)
      else if length s = 1 then (case lines17 es (i + 1) ss of (out, st) \<Rightarrow> (separator # ss @ separator # out, st))
      else if new = None then ([], Faulted Exit) else lines17 es (i + 1) (s # ss))"

fun new_nodes :: "event_t list \<Rightarrow> nat list" where
  "new_nodes [] = []"
| "new_nodes (Input s (Some a) # es) = a # new_nodes es"
| "new_nodes (e # es) = new_nodes es"

fun line_ok :: "event_t \<Rightarrow> bool" where
  "line_ok (Input s new) = cstring_ok s"
| "line_ok e = True"

lemma push_front_heap: "list_push_front (Some a) s l = Inr l' \<Longrightarrow> dom (lheap l') = insert a (dom (lheap l))"
  by (auto simp: list_push_front_def list_lock_def list_unlock_def bind_r_Inr_iff split: if_splits)

lemma push_front_null: "list_holds l ss \<Longrightarrow> list_push_front None s l = Inl Exit"
  by (simp add: list_push_front_def list_lock_def list_holds_def)

lemma main17_lines:
  assumes "list_holds l ss" and "length ss \<le> i" and "list_all cstring_ok ss" and "list_all line_ok es"
    and "distinct (new_nodes es)" and "set (new_nodes es) \<inter> dom (lheap l) = {}" and "LINES17 < fuel"
  shows "main17 fuel es i l = lines17 es i ss"
  using assms
proof (induction es arbitrary: i l ss)
  case Nil
  then show ?case by simp
next
  case (Cons e es)
  show ?case
  proof (cases "LINES17 \<le> i")
    case True
    then show ?thesis by (cases e) (simp_all add: sigint_handler17_def)
  next
    case False
    then have few: "length ss < fuel" "length ss + 1 < SIZE_MOD"
      using Cons.prems(2,7) by (simp_all add: LINES17_def SIZE_MOD_def)
    have same: "main17 fuel es j l = lines17 es j ss" if "i \<le> j" "set (new_nodes es) \<subseteq> set (new_nodes (e # es))"
        "distinct (new_nodes es)" for j
      using Cons.IH[OF Cons.prems(1) _ Cons.prems(3) _ that(3) _ Cons.prems(7), of j] Cons.prems that(1,2) by auto
    show ?thesis
    proof (cases e)
      case (Input s new)
      have nodes: "set (new_nodes es) \<subseteq> set (new_nodes (e # es))" "distinct (new_nodes es)"
        using Cons.prems(5) Input by (cases new; auto)+
      show ?thesis
      proof (cases "length s = 1")
        case True
        then show ?thesis using False Input list_print_holds[OF Cons.prems(1) few(1)] same[OF _ nodes, of "i + 1"]
          by (simp add: on_line17_def split: prod.split)
      next
        case long: False
        show ?thesis
        proof (cases new)
          case None
          then show ?thesis using False Input long push_front_null[OF Cons.prems(1)] by (simp add: on_line17_def)
        next
          case (Some a)
          have a: "lheap l a = None" using Cons.prems(6) Input Some by (simp add: disjoint_iff domIff)
          obtain l' where l': "list_push_front (Some a) s l = Inr l'" "list_holds l' (s # ss)"
            using push_front_holds[OF Cons.prems(1) a few(2)] by blast
          have "main17 fuel es (i + 1) l' = lines17 es (i + 1) (s # ss)"
            using Cons.IH[OF l'(2), of "i + 1"] Cons.prems Input Some push_front_heap[OF l'(1)] by auto
          then show ?thesis using False Input Some long l'(1) by (simp add: on_line17_def split: prod.split)
        qed
      qed
    next
      case Wake
      have "main17 fuel es i l = lines17 es i ss" using same[of i] Cons.prems(5) Wake by simp
      then show ?thesis using False Wake Cons.prems(3) sort_list_outcome[OF Cons.prems(1) _ few(1)]
        by (simp add: subroutine17_def list_all_iff split: option.splits prod.split)
    qed (use False in \<open>simp_all add: sigint_handler17_def\<close>)
  qed
qed

lemma program17_start:
  "program17 fuel e es l = (if start_fails e then ([], Faulted Exit) else main17 fuel es 0 (list_init l))"
  by (simp add: program17_def start_fails_def ce_def assert_r_def)

text \<open>A list of which some pair is out of order is never sorted: the first wake-up is the last event.\<close>

lemma unsorted_is_fatal:
  "sort_outcome ss = Some f \<Longrightarrow> i < LINES17 \<Longrightarrow> lines17 (Wake # es) i ss = ([], Faulted f)"
  by simp

end
