(* ===== verification/Pi_Terms.thy ===== *)
theory Pi_Terms
  imports Complex_Main Prelude Transition
begin

text \<open>
  \<open>task8.c\<close> and \<open>task9.c\<close>: four threads sum every fourth term of the series of pi. The arithmetic on
  \<open>double\<close> and \<open>long double\<close> is a parameter; read as exact arithmetic it gives the distance from pi.
\<close>

section \<open>Arithmetic\<close>

record 'f arith =
  fadd :: "'f \<Rightarrow> 'f \<Rightarrow> 'f"
  fmul :: "'f \<Rightarrow> 'f \<Rightarrow> 'f"
  fdiv :: "'f \<Rightarrow> 'f \<Rightarrow> 'f"
  fint :: "int \<Rightarrow> 'f"

definition exact :: "real arith" where
  "exact = \<lparr>fadd = (+), fmul = (*), fdiv = (/), fint = of_int\<rparr>"

lemma exact_simps [simp]: "fadd exact = (+)" "fmul exact = (*)" "fdiv exact = (/)" "fint exact = of_int"
  by (simp_all add: exact_def)

text \<open>The macro \<open>get\<close>.\<close>

definition get_term :: "'f arith \<Rightarrow> int \<Rightarrow> 'f" where
  "get_term A i =
     fmul A (fdiv A (fint A 1) (fadd A (fint A 1) (fmul A (fint A i) (fint A 2))))
       (fint A (if i mod 2 = 1 then -1 else 1))"

definition COUNT_OF_THREADS :: nat where
  "COUNT_OF_THREADS = 4"

section \<open>A fixed number of terms\<close>

definition COUNT_OF_LOOPS8 :: nat where
  "COUNT_OF_LOOPS8 = 1000000"

record 'f context8 =
  res8 :: 'f
  rank8 :: int
  size8 :: int

text \<open>The loop: \<open>i * sz + rank\<close> is computed in \<open>int\<close> and must not overflow.\<close>

fun sum_loop :: "'f arith \<Rightarrow> int \<Rightarrow> int \<Rightarrow> nat \<Rightarrow> nat \<Rightarrow> 'f \<Rightarrow> 'f res" where
  "sum_loop A sz rank i 0 acc = Inr acc"
| "sum_loop A sz rank i (Suc n) acc =
     (if int i * sz + rank > INT_MAX then Inl Undefined
      else sum_loop A sz rank (Suc i) n (fadd A acc (get_term A (int i * sz + rank))))"

definition subroutine8 :: "'f arith \<Rightarrow> 'f context8 \<Rightarrow> 'f context8 res" where
  "subroutine8 A c =
     bind_r (sum_loop A (size8 c) (rank8 c) 0 COUNT_OF_LOOPS8 (fint A 0)) (\<lambda>r. Inr (c\<lparr>res8 := r\<rparr>))"

text \<open>\<open>main\<close> joins the threads in the order of their ranks; each writes its own context only.\<close>

fun join8 :: "'f arith \<Rightarrow> (nat \<Rightarrow> 'f context8) \<Rightarrow> nat list \<Rightarrow> 'f \<Rightarrow> 'f res" where
  "join8 A ctx [] acc = Inr acc"
| "join8 A ctx (i # is) acc = bind_r (subroutine8 A (ctx i)) (\<lambda>c. join8 A ctx is (fadd A acc (res8 c)))"

definition main8 :: "'f arith \<Rightarrow> 'f \<Rightarrow> 'f res" where
  "main8 A junk =
     bind_r (join8 A (\<lambda>i. \<lparr>res8 = junk, rank8 = int i, size8 = int COUNT_OF_THREADS\<rparr>) [0..<COUNT_OF_THREADS] (fint A 0))
       (\<lambda>r. Inr (fmul A r (fint A 4)))"

lemma sum_loop_eq:
  assumes "int (i + n) * sz + rank \<le> INT_MAX" and "0 \<le> sz"
  shows "sum_loop A sz rank i n acc = Inr (foldl (\<lambda>a j. fadd A a (get_term A (int j * sz + rank))) acc [i..<i + n])"
  using assms(1)
proof (induction n arbitrary: i acc)
  case (Suc n)
  have "int i * sz \<le> int (i + Suc n) * sz" by (rule mult_right_mono) (use assms(2) in simp_all)
  then have "\<not> int i * sz + rank > INT_MAX" using Suc.prems by simp
  moreover have "[i..<i + Suc n] = i # [Suc i..<Suc i + n]" by (simp add: upt_conv_Cons del: upt_Suc)
  ultimately show ?case using Suc.IH[of "Suc i"] Suc.prems by (simp del: upt_Suc)
qed simp

lemma foldl_sum: "foldl (\<lambda>a j. a + f j) c xs = c + (\<Sum>j\<leftarrow>xs. f j)" for c :: real
  by (induction xs arbitrary: c) simp_all

lemma sum_strided:
  fixes f :: "nat \<Rightarrow> real"
  shows "(\<Sum>r<k. \<Sum>i<n. f (i * k + r)) = (\<Sum>j<n * k. f j)"
proof (induction n)
  case (Suc n)
  have "(\<Sum>r<k. f (n * k + r)) = (\<Sum>j\<in>{n * k..<n * k + k}. f j)"
    by (rule sum.reindex_bij_witness[of _ "\<lambda>j. j - n * k" "\<lambda>r. n * k + r"]) auto
  moreover have "{..<Suc n * k} = {..<n * k} \<union> {n * k..<n * k + k}" by auto
  moreover have "{..<n * k} \<inter> {n * k..<n * k + k} = {}" by auto
  ultimately show ?case using Suc by (simp add: sum.distrib sum.union_disjoint)
qed simp

text \<open>The partial sums of the series that alternates.\<close>

definition leibniz :: "nat \<Rightarrow> real" where
  "leibniz j = (-1) ^ j * 1 / real (j * 2 + 1)"

lemma get_term_exact: "get_term exact (int j) = leibniz j"
proof (cases "even j")
  case True
  then have "int j mod 2 = 0" by (metis even_iff_mod_2_eq_zero even_of_nat)
  then show ?thesis using True by (simp add: get_term_def leibniz_def mult.commute add.commute)
next
  case False
  then have "int j mod 2 = 1" by (metis odd_iff_mod_2_eq_one even_of_nat)
  then show ?thesis using False by (simp add: get_term_def leibniz_def mult.commute add.commute)
qed

lemma leibniz_bound:
  assumes "even m"
  shows "\<bar>4 * (\<Sum>j<m. leibniz j) - pi\<bar> \<le> 4 / real (m * 2 + 1)"
proof -
  define a where "a = (\<lambda>k. 1 / real (k * 2 + 1))"
  have lim: "a \<longlonglongrightarrow> 0" 
  proof -
    have "((\<lambda>n. inverse (real (Suc n))) \<circ> (\<lambda>k. 2 * k)) \<longlonglongrightarrow> 0"
      by (rule LIMSEQ_subseq_LIMSEQ[OF LIMSEQ_inverse_real_of_nat]) (simp add: strict_mono_def)
    then show ?thesis by (simp add: a_def o_def inverse_eq_divide mult.commute add.commute)
  qed
  have mono: "monoseq a"
    by (rule monoI2) (auto simp: a_def frac_le)
  have pos: "0 \<le> a k" for k by (simp add: a_def)
  have l: "leibniz j = (-1) ^ j * a j" for j by (simp add: leibniz_def a_def)
  have pi: "pi / 4 = (\<Sum>k. (-1) ^ k * a k)" using pi_series by (simp add: a_def)
  obtain k where k: "m = 2 * k" using assms by (elim evenE)
  have p0: "0 < a 0" by (simp add: a_def)
  have "(\<Sum>j<2 * k. (-1) ^ j * a j) \<le> pi / 4" "pi / 4 \<le> (\<Sum>j<2 * k + 1. (-1) ^ j * a j)"
    using summable_Leibniz(2)[OF lim mono, THEN mp, OF p0] unfolding pi by simp_all
  moreover have "(\<Sum>j<2 * k + 1. (-1) ^ j * a j) = (\<Sum>j<2 * k. (-1) ^ j * a j) + a (2 * k)" by simp
  ultimately have "\<bar>(\<Sum>j<m. leibniz j) - pi / 4\<bar> \<le> a m" by (simp add: l k)
  then show ?thesis by (simp add: a_def abs_le_iff field_simps)
qed

lemma join8_eq:
  assumes "\<And>i. i \<in> set is \<Longrightarrow> subroutine8 A (ctx i) = Inr ((ctx i)\<lparr>res8 := f i\<rparr>)"
  shows "join8 A ctx is acc = Inr (foldl (\<lambda>a i. fadd A a (f i)) acc is)"
  using assms by (induction "is" arbitrary: acc) simp_all

definition local_sum8 :: "'f arith \<Rightarrow> nat \<Rightarrow> 'f" where
  "local_sum8 A r = foldl (\<lambda>a j. fadd A a (get_term A (int (j * COUNT_OF_THREADS + r)))) (fint A 0) [0..<COUNT_OF_LOOPS8]"

lemma subroutine8_eq:
  assumes "r < COUNT_OF_THREADS"
  shows "subroutine8 A \<lparr>res8 = junk, rank8 = int r, size8 = int COUNT_OF_THREADS\<rparr> =
    Inr \<lparr>res8 = local_sum8 A r, rank8 = int r, size8 = int COUNT_OF_THREADS\<rparr>"
proof -
  have "int (0 + COUNT_OF_LOOPS8) * int COUNT_OF_THREADS + int r \<le> INT_MAX"
    using assms by (simp add: COUNT_OF_LOOPS8_def COUNT_OF_THREADS_def INT_MAX_def)
  from sum_loop_eq[OF this, of A "fint A 0"] show ?thesis
    by (simp add: subroutine8_def local_sum8_def)
qed

lemma main8_sums:
  "main8 A junk = Inr (fmul A (foldl (\<lambda>a r. fadd A a (local_sum8 A r)) (fint A 0) [0..<COUNT_OF_THREADS]) (fint A 4))"
proof -
  have "join8 A (\<lambda>i. \<lparr>res8 = junk, rank8 = int i, size8 = int COUNT_OF_THREADS\<rparr>) [0..<COUNT_OF_THREADS] (fint A 0) =
      Inr (foldl (\<lambda>a r. fadd A a (local_sum8 A r)) (fint A 0) [0..<COUNT_OF_THREADS])"
    by (rule join8_eq) (simp add: subroutine8_eq)
  then show ?thesis by (simp add: main8_def)
qed

lemma local_sum8_exact: "local_sum8 exact r = (\<Sum>i<COUNT_OF_LOOPS8. leibniz (i * COUNT_OF_THREADS + r))"
  by (simp only: local_sum8_def exact_simps foldl_sum get_term_exact interv_sum_list_conv_sum_set_nat set_upt
      of_int_0 add_0 atLeast0LessThan)

lemma main8_exact: "main8 exact junk = Inr (4 * (\<Sum>j<COUNT_OF_LOOPS8 * COUNT_OF_THREADS. leibniz j))"
proof -
  have "foldl (\<lambda>a r. a + local_sum8 exact r) 0 [0..<COUNT_OF_THREADS] = (\<Sum>j<COUNT_OF_LOOPS8 * COUNT_OF_THREADS. leibniz j)"
    unfolding foldl_sum local_sum8_exact sum_strided[symmetric] interv_sum_list_conv_sum_set_nat
    by (simp add: atLeast0LessThan)
  then show ?thesis by (simp add: main8_sums)
qed

end
