(* ===== verification/Pi_Barrier.thy ===== *)
theory Pi_Barrier
  imports Pi_Terms
begin

text \<open>
  \<open>task9.c\<close>: the threads sum until \<open>SIGINT\<close>, agree on the highest iteration at a barrier, and then
  catch up. The critical section under the spin lock is one step. The counter is a natural number; in
  the code it is an \<open>int64_t\<close>, which a run would need centuries to fill.
\<close>

definition STOP_POINTS :: nat where
  "STOP_POINTS = 1000"

text \<open>
  \<open>Adding\<close>: in the first loop. \<open>AtLock\<close>: behind it, before the spin lock. \<open>InBarrier\<close>: in
  \<open>pthread_barrier_wait\<close>. \<open>Resumed\<close>: behind it. \<open>CatchUp mx\<close>: in the second loop. \<open>Returned\<close>: done.
\<close>

datatype wphase = Adding | AtLock | InBarrier | Resumed | CatchUp nat | Returned

record 'f worker =
  wphase :: wphase
  iter :: nat
  acc :: 'f
  shown_iters :: "nat option"

record 'f series_t =
  is_end :: bool
  mx_iters :: nat
  workers :: "nat \<Rightarrow> 'f worker"

definition series_start :: "'f arith \<Rightarrow> 'f series_t" where
  "series_start A = \<lparr>is_end = False, mx_iters = 0,
     workers = (\<lambda>_. \<lparr>wphase = Adding, iter = 0, acc = fint A 0, shown_iters = None\<rparr>)\<rparr>"

definition thread_term :: "'f arith \<Rightarrow> nat \<Rightarrow> nat \<Rightarrow> 'f" where
  "thread_term A r i = get_term A (int (i * COUNT_OF_THREADS + r))"

text \<open>The signal handler; its assertion ends the process at the second signal.\<close>

definition int_handler :: "'f series_t \<Rightarrow> 'f series_t res" where
  "int_handler s = bind_r (assert_r (\<not> is_end s)) (\<lambda>_. Inr (s\<lparr>is_end := True\<rparr>))"

text \<open>One iteration of the first loop: the flag is looked at after every thousandth term.\<close>

definition add_until_end :: "'f arith \<Rightarrow> bool \<Rightarrow> nat \<Rightarrow> 'f worker \<Rightarrow> 'f worker" where
  "add_until_end A e r w =
     (let w = w\<lparr>acc := fadd A (acc w) (thread_term A r (iter w))\<rparr> in
      if iter w mod STOP_POINTS = 0 \<and> e then w\<lparr>wphase := AtLock\<rparr> else w\<lparr>iter := iter w + 1\<rparr>)"

definition catch_up :: "'f arith \<Rightarrow> nat \<Rightarrow> nat \<Rightarrow> 'f worker \<Rightarrow> 'f worker" where
  "catch_up A mx r w =
     (if iter w < mx then w\<lparr>acc := fadd A (acc w) (thread_term A r (iter w)), iter := iter w + 1\<rparr>
      else w\<lparr>wphase := Returned\<rparr>)"

definition set_worker :: "nat \<Rightarrow> 'f worker \<Rightarrow> 'f series_t \<Rightarrow> 'f series_t" where
  "set_worker r w s = s\<lparr>workers := (workers s)(r := w)\<rparr>"

text \<open>A step of a thread outside the barrier.\<close>

definition subroutine9 :: "'f arith \<Rightarrow> nat \<Rightarrow> 'f series_t \<Rightarrow> 'f series_t option" where
  "subroutine9 A r s = (let w = workers s r in case wphase w of
     Adding \<Rightarrow> Some (set_worker r (add_until_end A (is_end s) r w) s)
   | AtLock \<Rightarrow> Some (set_worker r (w\<lparr>wphase := InBarrier, shown_iters := Some (iter w)\<rparr>)
       (s\<lparr>mx_iters := max (mx_iters s) (iter w)\<rparr>))
   | Resumed \<Rightarrow> Some (set_worker r (w\<lparr>wphase := CatchUp (mx_iters s)\<rparr>) s)
   | CatchUp mx \<Rightarrow> Some (set_worker r (catch_up A mx r w) s)
   | _ \<Rightarrow> None)"

definition barrier_full :: "'f series_t \<Rightarrow> bool" where
  "barrier_full s = list_all (\<lambda>r. wphase (workers s r) = InBarrier) [0..<COUNT_OF_THREADS]"

text \<open>The barrier lets all threads go when the last one has come.\<close>

definition open_barrier :: "'f series_t \<Rightarrow> 'f series_t" where
  "open_barrier s = s\<lparr>workers := (\<lambda>r. if r < COUNT_OF_THREADS then (workers s r)\<lparr>wphase := Resumed\<rparr> else workers s r)\<rparr>"

inductive series_step :: "'f arith \<Rightarrow> 'f series_t \<Rightarrow> 'f series_t \<Rightarrow> bool" for A where
  works: "r < COUNT_OF_THREADS \<Longrightarrow> subroutine9 A r s = Some s' \<Longrightarrow> series_step A s s'"
| opens: "barrier_full s \<Longrightarrow> series_step A s (open_barrier s)"
| signals: "int_handler s = Inr s' \<Longrightarrow> series_step A s s'"

inductive_cases series_stepE: "series_step A s s'"

definition all_returned :: "'f series_t \<Rightarrow> bool" where
  "all_returned s = list_all (\<lambda>r. wphase (workers s r) = Returned) [0..<COUNT_OF_THREADS]"

text \<open>What \<open>main\<close> prints.\<close>

definition result9 :: "'f arith \<Rightarrow> 'f series_t \<Rightarrow> 'f" where
  "result9 A s = fmul A (foldl (\<lambda>a r. fadd A a (acc (workers s r))) (fint A 0) [0..<COUNT_OF_THREADS]) (fint A 4)"

section \<open>What the threads have added\<close>

definition sum_terms :: "'f arith \<Rightarrow> nat \<Rightarrow> nat list \<Rightarrow> 'f" where
  "sum_terms A r is = foldl (\<lambda>a i. fadd A a (thread_term A r i)) (fint A 0) is"

text \<open>The terms of a thread that left the first loop at \<open>k\<close> and is at \<open>i\<close> in the second one: \<open>k\<close> comes twice.\<close>

definition both_loops :: "nat \<Rightarrow> nat \<Rightarrow> nat list" where
  "both_loops k i = [0..<Suc k] @ [k..<i]"

definition worker_inv :: "'f arith \<Rightarrow> nat \<Rightarrow> nat \<Rightarrow> 'f worker \<Rightarrow> bool" where
  "worker_inv A mx r w = (case wphase w of
     Adding \<Rightarrow> shown_iters w = None \<and> acc w = sum_terms A r [0..<iter w]
   | AtLock \<Rightarrow> shown_iters w = None \<and> STOP_POINTS dvd iter w \<and> acc w = sum_terms A r (both_loops (iter w) (iter w))
   | CatchUp m \<Rightarrow> m = mx \<and> (\<exists>k. shown_iters w = Some k \<and> STOP_POINTS dvd k \<and> k \<le> iter w \<and> iter w \<le> mx \<and>
       acc w = sum_terms A r (both_loops k (iter w)))
   | Returned \<Rightarrow> (\<exists>k. shown_iters w = Some k \<and> STOP_POINTS dvd k \<and> k \<le> mx \<and> acc w = sum_terms A r (both_loops k mx))
   | _ \<Rightarrow> shown_iters w = Some (iter w) \<and> STOP_POINTS dvd iter w \<and> iter w \<le> mx \<and>
       acc w = sum_terms A r (both_loops (iter w) (iter w)))"

definition past_barrier :: "wphase \<Rightarrow> bool" where
  "past_barrier p = (case p of Resumed \<Rightarrow> True | CatchUp _ \<Rightarrow> True | Returned \<Rightarrow> True | _ \<Rightarrow> False)"

definition series_inv :: "'f arith \<Rightarrow> 'f series_t \<Rightarrow> bool" where
  "series_inv A s =
     ((\<forall>r < COUNT_OF_THREADS. worker_inv A (mx_iters s) r (workers s r)) \<and>
      ((\<forall>r < COUNT_OF_THREADS. \<not> past_barrier (wphase (workers s r))) \<or>
       (\<forall>r < COUNT_OF_THREADS. past_barrier (wphase (workers s r)))) \<and>
      (mx_iters s = 0 \<or> (\<exists>r < COUNT_OF_THREADS. shown_iters (workers s r) = Some (mx_iters s))))"

lemma sum_terms_snoc: "sum_terms A r (is @ [i]) = fadd A (sum_terms A r is) (thread_term A r i)"
  by (simp add: sum_terms_def)

lemma both_loops_same: "both_loops k k = [0..<k] @ [k]"
  by (simp add: both_loops_def)

lemma both_loops_Suc: "k \<le> i \<Longrightarrow> both_loops k (Suc i) = both_loops k i @ [i]"
  by (simp add: both_loops_def)

lemma series_start_inv: "series_inv A (series_start A)"
  by (simp add: series_inv_def series_start_def worker_inv_def past_barrier_def sum_terms_def)

lemma set_worker_simps [simp]:
  "is_end (set_worker r w s) = is_end s" "mx_iters (set_worker r w s) = mx_iters s"
  "workers (set_worker r w s) q = (if q = r then w else workers s q)"
  by (simp_all add: set_worker_def)

lemma add_until_end_inv:
  assumes "worker_inv A mx r w" and "wphase w = Adding"
  shows "worker_inv A mx' r (add_until_end A e r w)" and "\<not> past_barrier (wphase (add_until_end A e r w))"
    and "shown_iters (add_until_end A e r w) = shown_iters w"
  using assms
  by (auto simp: worker_inv_def add_until_end_def past_barrier_def Let_def sum_terms_snoc both_loops_same dvd_eq_mod_eq_0)

lemma catch_up_inv:
  assumes "worker_inv A mx r w" and "wphase w = CatchUp m"
  shows "worker_inv A mx r (catch_up A m r w)" and "past_barrier (wphase (catch_up A m r w))"
    and "shown_iters (catch_up A m r w) = shown_iters w"
  using assms
  by (auto simp: worker_inv_def catch_up_def past_barrier_def sum_terms_snoc both_loops_Suc)

text \<open>A step that changes one worker and keeps what the others rely on.\<close>

lemma series_inv_set:
  assumes i: "series_inv A s" and r: "r < COUNT_OF_THREADS"
    and w: "worker_inv A (mx_iters s) r w" "past_barrier (wphase w) = past_barrier (wphase (workers s r))"
      "shown_iters w = shown_iters (workers s r)"
  shows "series_inv A (set_worker r w s)"
  using i r w unfolding series_inv_def by (auto split: if_splits)

lemma worker_inv_mx:
  "worker_inv A mx r w \<Longrightarrow> \<not> past_barrier (wphase w) \<Longrightarrow> mx \<le> mx' \<Longrightarrow> worker_inv A mx' r w"
  by (auto simp: worker_inv_def past_barrier_def split: wphase.splits)

lemma series_step_inv:
  assumes i: "series_inv A s" and st: "series_step A s s'"
  shows "series_inv A s'"
  using st
proof (rule series_stepE)
  fix r assume r: "r < COUNT_OF_THREADS" and t: "subroutine9 A r s = Some s'"
  let ?w = "workers s r"
  have w: "worker_inv A (mx_iters s) r ?w" using i r by (simp add: series_inv_def)
  show ?thesis
  proof (cases "wphase ?w")
    case Adding
    then have "s' = set_worker r (add_until_end A (is_end s) r ?w) s" using t by (simp add: subroutine9_def Let_def)
    then show ?thesis using series_inv_set[OF i r] add_until_end_inv[OF w Adding] Adding by (simp add: past_barrier_def)
  next
    case AtLock
    let ?mx = "max (mx_iters s) (iter ?w)" and ?w' = "?w\<lparr>wphase := InBarrier, shown_iters := Some (iter ?w)\<rparr>"
    have s': "s' = set_worker r ?w' (s\<lparr>mx_iters := ?mx\<rparr>)" using t AtLock by (simp add: subroutine9_def Let_def)
    have before: "\<not> past_barrier (wphase (workers s q))" if "q < COUNT_OF_THREADS" for q
      using i r AtLock that by (auto simp: series_inv_def past_barrier_def)
    have "worker_inv A ?mx q (workers s' q)" if q: "q < COUNT_OF_THREADS" for q
    proof (cases "q = r")
      case True
      then show ?thesis using w AtLock by (simp add: s' worker_inv_def)
    next
      case False
      have "worker_inv A (mx_iters s) q (workers s q)" using i q by (simp add: series_inv_def)
      then show ?thesis using worker_inv_mx[OF _ before[OF q], of A "mx_iters s" q ?mx] False by (simp add: s')
    qed
    moreover have "?mx = 0 \<or> (\<exists>q < COUNT_OF_THREADS. shown_iters (workers s' q) = Some ?mx)"
    proof (cases "mx_iters s \<le> iter ?w")
      case True
      then show ?thesis using r by (auto simp: s' max_def intro!: exI[of _ r])
    next
      case False
      then obtain q where "q < COUNT_OF_THREADS" "shown_iters (workers s q) = Some (mx_iters s)"
        using i by (auto simp: series_inv_def)
      moreover from this have "q \<noteq> r" using w AtLock by (auto simp: worker_inv_def)
      ultimately show ?thesis using False by (auto simp: s' max_def intro!: exI[of _ q])
    qed
    ultimately show ?thesis using before by (simp add: series_inv_def s' past_barrier_def)
  next
    case Resumed
    then have "s' = set_worker r (?w\<lparr>wphase := CatchUp (mx_iters s)\<rparr>) s" using t by (simp add: subroutine9_def Let_def)
    then show ?thesis using series_inv_set[OF i r] w Resumed by (simp add: past_barrier_def worker_inv_def)
  next
    case (CatchUp m)
    then have "s' = set_worker r (catch_up A m r ?w) s" using t by (simp add: subroutine9_def Let_def)
    then show ?thesis using series_inv_set[OF i r] catch_up_inv[OF w CatchUp] CatchUp by (simp add: past_barrier_def)
  qed (use t in \<open>simp_all add: subroutine9_def Let_def\<close>)
next
  assume f: "barrier_full s" and s': "s' = open_barrier s"
  have "wphase (workers s r) = InBarrier" if "r < COUNT_OF_THREADS" for r
    using f that by (simp add: barrier_full_def list_all_iff)
  then show ?thesis using i by (auto simp: series_inv_def s' open_barrier_def worker_inv_def past_barrier_def)
next
  assume "int_handler s = Inr s'"
  then show ?thesis using i by (auto simp: int_handler_def assert_r_def bind_r_def series_inv_def split: if_splits)
qed

section \<open>The program gets to its end after the signal\<close>

definition to_stop :: "nat \<Rightarrow> nat" where
  "to_stop i = (if i mod STOP_POINTS = 0 then 0 else STOP_POINTS - i mod STOP_POINTS)"

definition last_iter :: "'f worker \<Rightarrow> nat" where
  "last_iter w = (if wphase w = Adding then iter w + to_stop (iter w) else iter w)"

definition steps_to_return :: "nat \<Rightarrow> 'f worker \<Rightarrow> nat" where
  "steps_to_return M w = (case wphase w of Adding \<Rightarrow> to_stop (iter w) + M + 5 | AtLock \<Rightarrow> M + 4 | InBarrier \<Rightarrow> M + 3
     | Resumed \<Rightarrow> M + 2 | CatchUp mx \<Rightarrow> M - iter w + 1 | Returned \<Rightarrow> 0)"

text \<open>The signal has come, and no thread will get beyond iteration \<open>M\<close>.\<close>

definition ending_inv :: "'f arith \<Rightarrow> nat \<Rightarrow> 'f series_t \<Rightarrow> bool" where
  "ending_inv A M s = (series_inv A s \<and> is_end s \<and> mx_iters s \<le> M \<and> (\<forall>r < COUNT_OF_THREADS. last_iter (workers s r) \<le> M))"

definition series_rank :: "nat \<Rightarrow> 'f series_t \<Rightarrow> nat" where
  "series_rank M s = (\<Sum>r<COUNT_OF_THREADS. steps_to_return M (workers s r))"

lemma to_stop_Suc: "i mod STOP_POINTS \<noteq> 0 \<Longrightarrow> to_stop (Suc i) + 1 = to_stop i"
  unfolding to_stop_def by (auto simp: mod_Suc STOP_POINTS_def)

lemma subroutine9_ending:
  assumes i: "ending_inv A M s" and r: "r < COUNT_OF_THREADS" and t: "subroutine9 A r s = Some s'"
  shows "is_end s' \<and> mx_iters s' \<le> M \<and> (\<forall>q. q \<noteq> r \<longrightarrow> workers s' q = workers s q) \<and>
    last_iter (workers s' r) \<le> M \<and> steps_to_return M (workers s' r) < steps_to_return M (workers s r)"
proof -
  let ?w = "workers s r"
  have e: "is_end s" "mx_iters s \<le> M" "last_iter ?w \<le> M" "worker_inv A (mx_iters s) r ?w"
    using i r by (simp_all add: ending_inv_def series_inv_def)
  show ?thesis
  proof (cases "wphase ?w")
    case Adding
    then have s': "s' = set_worker r (add_until_end A True r ?w) s" using t e(1) by (simp add: subroutine9_def Let_def)
    show ?thesis
    proof (cases "iter ?w mod STOP_POINTS = 0")
      case True
      then show ?thesis using Adding e by (simp add: s' add_until_end_def last_iter_def steps_to_return_def Let_def)
    next
      case False
      then show ?thesis using Adding e to_stop_Suc[OF False]
        by (simp add: s' add_until_end_def last_iter_def steps_to_return_def Let_def)
    qed
  next
    case AtLock
    then show ?thesis using t e by (auto simp: subroutine9_def Let_def last_iter_def steps_to_return_def)
  next
    case Resumed
    then show ?thesis using t e by (auto simp: subroutine9_def Let_def last_iter_def steps_to_return_def)
  next
    case (CatchUp m)
    then have s': "s' = set_worker r (catch_up A m r ?w) s" "m = mx_iters s"
      using t e(4) by (simp_all add: subroutine9_def Let_def worker_inv_def)
    then show ?thesis using CatchUp e by (auto simp: catch_up_def last_iter_def steps_to_return_def)
  qed (use t in \<open>simp_all add: subroutine9_def Let_def\<close>)
qed

lemma ending_step:
  assumes i: "ending_inv A M s" and st: "series_step A s s'"
  shows "ending_inv A M s' \<and> series_rank M s' < series_rank M s"
proof -
  have inv: "series_inv A s'" using series_step_inv[OF _ st] i by (simp add: ending_inv_def)
  show ?thesis using st
  proof (rule series_stepE)
    fix r assume r: "r < COUNT_OF_THREADS" and t: "subroutine9 A r s = Some s'"
    note w = subroutine9_ending[OF i r t]
    have "ending_inv A M s'" unfolding ending_inv_def
    proof (intro conjI inv allI impI)
      fix q assume "q < COUNT_OF_THREADS"
      then show "last_iter (workers s' q) \<le> M" using w i by (cases "q = r") (auto simp: ending_inv_def)
    qed (use w in simp_all)
    moreover have "series_rank M s' < series_rank M s" unfolding series_rank_def
    proof (rule sum_strict_mono_ex1)
      show "\<forall>q\<in>{..<COUNT_OF_THREADS}. steps_to_return M (workers s' q) \<le> steps_to_return M (workers s q)"
      proof
        fix q show "steps_to_return M (workers s' q) \<le> steps_to_return M (workers s q)" using w by (cases "q = r") auto
      qed
    qed (use w r in auto)
    ultimately show ?thesis by simp
  next
    assume f: "barrier_full s" and s': "s' = open_barrier s"
    have b: "wphase (workers s r) = InBarrier" if "r < COUNT_OF_THREADS" for r
      using f that by (simp add: barrier_full_def list_all_iff)
    have "ending_inv A M s'" using i inv b by (simp add: ending_inv_def s' open_barrier_def last_iter_def)
    moreover have "series_rank M s' < series_rank M s" unfolding series_rank_def
    proof (rule sum_strict_mono)
      show "{..<COUNT_OF_THREADS} \<noteq> {}" by (simp add: COUNT_OF_THREADS_def lessThan_empty_iff)
    qed (use b in \<open>simp_all add: s' open_barrier_def steps_to_return_def\<close>)
    ultimately show ?thesis by simp
  next
    assume "int_handler s = Inr s'"
    then show ?thesis using i by (simp add: int_handler_def assert_r_def bind_r_def ending_inv_def)
  qed
qed

lemma series_progress:
  assumes i: "series_inv A s" and nf: "\<not> all_returned s"
  shows "\<exists>s'. series_step A s s'"
proof (cases "barrier_full s")
  case True
  then show ?thesis by (blast intro: opens)
next
  case False
  obtain r0 where r0: "r0 < COUNT_OF_THREADS" "wphase (workers s r0) \<noteq> Returned"
    using nf by (auto simp: all_returned_def list_all_iff)
  obtain r1 where r1: "r1 < COUNT_OF_THREADS" "wphase (workers s r1) \<noteq> InBarrier"
    using False by (auto simp: barrier_full_def list_all_iff)
  have "\<exists>r < COUNT_OF_THREADS. wphase (workers s r) \<notin> {InBarrier, Returned}"
  proof (cases "past_barrier (wphase (workers s r0))")
    case True
    then show ?thesis using r0 by (auto simp: past_barrier_def)
  next
    case False
    then have "\<not> past_barrier (wphase (workers s r1))" using i r0(1) r1(1) by (auto simp: series_inv_def)
    then show ?thesis using r1 by (auto simp: past_barrier_def)
  qed
  then obtain r where "r < COUNT_OF_THREADS" "wphase (workers s r) \<notin> {InBarrier, Returned}" by blast
  moreover from this have "\<exists>s'. subroutine9 A r s = Some s'"
    by (cases "wphase (workers s r)") (simp_all add: subroutine9_def Let_def)
  ultimately show ?thesis by (blast intro: works)
qed

interpretation pi9: progressing_system "\<lambda>s. s = series_start A" "series_step A" "series_inv A" all_returned for A
  by unfold_locales (simp_all add: series_start_inv series_step_inv series_progress)

interpretation pi9_end: terminating_system "ending_inv A M" "series_step A" "ending_inv A M" all_returned "series_rank M" for A M
proof
  show "\<And>s s'. ending_inv A M s \<Longrightarrow> series_step A s s' \<Longrightarrow> ending_inv A M s'" by (simp add: ending_step)
  show "\<And>s. ending_inv A M s \<Longrightarrow> \<not> all_returned s \<Longrightarrow> \<exists>s'. series_step A s s'"
    by (rule series_progress) (simp_all add: ending_inv_def)
  show "\<And>s s'. ending_inv A M s \<Longrightarrow> series_step A s s' \<Longrightarrow> series_rank M s' < series_rank M s" by (simp add: ending_step)
qed

lemma ends_somewhere:
  assumes "series_inv A s" and "is_end s"
  shows "\<exists>M. ending_inv A M s"
proof -
  let ?M = "mx_iters s + (\<Sum>r<COUNT_OF_THREADS. last_iter (workers s r))"
  have "last_iter (workers s r) \<le> ?M" if "r < COUNT_OF_THREADS" for r
    using member_le_sum[of r "{..<COUNT_OF_THREADS}" "\<lambda>r. last_iter (workers s r)"] that by simp
  then have "ending_inv A ?M s" using assms by (simp add: ending_inv_def)
  then show ?thesis ..
qed

lemma can_return:
  assumes "series_inv A s"
  shows "\<exists>s'. (series_step A)\<^sup>*\<^sup>* s s' \<and> series_inv A s' \<and> all_returned s'"
proof -
  obtain t where t: "(series_step A)\<^sup>*\<^sup>* s t" "series_inv A t" "is_end t"
  proof (cases "is_end s")
    case True
    then show ?thesis using assms that by blast
  next
    case False
    then have st: "series_step A s (s\<lparr>is_end := True\<rparr>)"
      by (intro signals) (simp add: int_handler_def)
    show ?thesis by (rule that[OF r_into_rtranclp[of "series_step A", OF st] series_step_inv[OF assms st]]) simp
  qed
  obtain M where "ending_inv A M t" using ends_somewhere[OF t(2,3)] ..
  then obtain s' where "(series_step A)\<^sup>*\<^sup>* t s'" "ending_inv A M s'" "all_returned s'"
    using pi9_end.reaches_finish by blast
  then show ?thesis using t(1) by (meson ending_inv_def rtranclp_trans)
qed

section \<open>The result\<close>

lemma both_loops_sum:
  fixes f :: "nat \<Rightarrow> real"
  assumes "k \<le> m"
  shows "(\<Sum>i\<leftarrow>both_loops k m. f i) = (\<Sum>i<Suc m. f i) + (f k - f m)"
proof -
  have "[0..<m] = [0..<k] @ [k..<m]" using assms upt_add_eq_append[of 0 k "m - k"] by simp
  then have "(\<Sum>i\<leftarrow>[0..<m]. f i) = (\<Sum>i\<leftarrow>[0..<k]. f i) + (\<Sum>i\<leftarrow>[k..<m]. f i)" by simp
  moreover have "(\<Sum>i\<leftarrow>[0..<m]. f i) = (\<Sum>i<m. f i)"
    by (simp add: interv_sum_list_conv_sum_set_nat atLeast0LessThan)
  ultimately show ?thesis by (simp add: both_loops_def)
qed

lemma returned_workers:
  assumes "series_inv A s" and "all_returned s"
  obtains k where "\<And>r. r < COUNT_OF_THREADS \<Longrightarrow> shown_iters (workers s r) = Some (k r) \<and> STOP_POINTS dvd k r \<and> k r \<le> mx_iters s \<and>
      acc (workers s r) = sum_terms A r (both_loops (k r) (mx_iters s))"
    and "mx_iters s = 0 \<or> (\<exists>r < COUNT_OF_THREADS. k r = mx_iters s)"
proof -
  have "\<exists>k. shown_iters (workers s r) = Some k \<and> STOP_POINTS dvd k \<and> k \<le> mx_iters s \<and>
      acc (workers s r) = sum_terms A r (both_loops k (mx_iters s))" if "r < COUNT_OF_THREADS" for r
    using assms that by (auto simp: series_inv_def worker_inv_def all_returned_def list_all_iff)
  then have w: "shown_iters (workers s r) = Some (the (shown_iters (workers s r))) \<and> STOP_POINTS dvd the (shown_iters (workers s r)) \<and>
      the (shown_iters (workers s r)) \<le> mx_iters s \<and>
      acc (workers s r) = sum_terms A r (both_loops (the (shown_iters (workers s r))) (mx_iters s))" if "r < COUNT_OF_THREADS" for r
    using that by fastforce
  have "mx_iters s = 0 \<or> (\<exists>r < COUNT_OF_THREADS. the (shown_iters (workers s r)) = mx_iters s)"
    using assms(1) by (auto simp: series_inv_def)
  with w show ?thesis by (rule that)
qed

lemma result9_exact:
  assumes "\<And>r. r < COUNT_OF_THREADS \<Longrightarrow> k r \<le> m \<and> acc (workers s r) = sum_terms exact r (both_loops (k r) m)"
  shows "result9 exact s = 4 * ((\<Sum>j<Suc m * COUNT_OF_THREADS. leibniz j) +
    (\<Sum>r<COUNT_OF_THREADS. leibniz (k r * COUNT_OF_THREADS + r) - leibniz (m * COUNT_OF_THREADS + r)))"
proof -
  have a: "acc (workers s r) = (\<Sum>i<Suc m. leibniz (i * COUNT_OF_THREADS + r)) +
      (leibniz (k r * COUNT_OF_THREADS + r) - leibniz (m * COUNT_OF_THREADS + r))" if "r < COUNT_OF_THREADS" for r
    using assms[OF that] both_loops_sum[of "k r" m "\<lambda>i. leibniz (i * COUNT_OF_THREADS + r)"]
    by (simp only: sum_terms_def thread_term_def exact_simps foldl_sum get_term_exact of_int_0 add_0)
  have "result9 exact s = 4 * (\<Sum>r<COUNT_OF_THREADS. acc (workers s r))"
    by (simp add: result9_def foldl_sum interv_sum_list_conv_sum_set_nat atLeast0LessThan)
  also have "(\<Sum>r<COUNT_OF_THREADS. acc (workers s r)) = (\<Sum>r<COUNT_OF_THREADS. (\<Sum>i<Suc m. leibniz (i * COUNT_OF_THREADS + r)) +
      (leibniz (k r * COUNT_OF_THREADS + r) - leibniz (m * COUNT_OF_THREADS + r)))"
    using a by (intro sum.cong) auto
  finally show ?thesis by (simp only: sum.distrib sum_strided)
qed

end
