(* ===== verification/Old_Request.thy ===== *)
theory Old_Request
  imports Old_Proxy "HOL-Library.Sublist"
begin

text \<open>
  Reading a request in the first proxy: it does not matter how the bytes are split over the calls of
  \<open>read\<close>, as long as no call fails. A receive timeout inside the header section costs a byte.
\<close>

section \<open>Buffers filled with zeros\<close>

definition zero_filled :: "char block \<Rightarrow> char list \<Rightarrow> bool" where
  "zero_filled b bs =
     (blk_len b = OLD_BUFF_SIZE \<and> length bs < OLD_BUFF_SIZE \<and> NUL \<notin> set bs \<and>
      (\<forall>i < OLD_BUFF_SIZE. blk_cell b i = Some (if i < length bs then bs ! i else NUL)))"

lemma zero_filled_new: "zero_filled (obuf new_buff) []"
  by (simp add: zero_filled_def new_buff_def OLD_BUFF_SIZE_def)

lemma c_string_all: "NUL \<notin> set s \<Longrightarrow> c_string s = s"
  by (simp add: takeWhile_eq_all_conv) metis

lemma zero_filled_cstring:
  assumes "zero_filled b bs" and "p \<le> length bs"
  shows "cstring_at b p = Inr (drop p bs)"
proof -
  have "cstring_at b p = Inr (c_string (drop p bs))"
    by (rule cstring_at_terminated) (use assms in \<open>auto simp: zero_filled_def\<close>)
  moreover have "NUL \<notin> set (drop p bs)" using assms(1) by (auto simp: zero_filled_def dest: in_set_dropD)
  ultimately show ?thesis by (simp add: c_string_all)
qed

lemma zero_filled_store:
  assumes "zero_filled b bs" and "k \<le> length bs" and "length bs \<le> k + length got" and "k + length got < OLD_BUFF_SIZE"
    and "NUL \<notin> set got"
  obtains b' where "store_list b k got = Inr b'" "zero_filled b' (take k bs @ got)"
proof -
  obtain b' where b: "store_list b k got = Inr b'" "blk_len b' = blk_len b"
      "\<forall>i. blk_cell b' i = (if k \<le> i \<and> i < k + length got then Some (got ! (i - k)) else blk_cell b i)"
    using store_list_in_block[of k got b] assms(1,4) by (auto simp: zero_filled_def)
  have "zero_filled b' (take k bs @ got)" unfolding zero_filled_def
  proof (intro conjI allI impI)
    fix i assume "i < OLD_BUFF_SIZE"
    then have c: "blk_cell b i = Some (if i < length bs then bs ! i else NUL)" using assms(1) by (simp add: zero_filled_def)
    show "blk_cell b' i = Some (if i < length (take k bs @ got) then (take k bs @ got) ! i else NUL)"
      using assms(2,3) b(3) c by (simp add: nth_append min_def)
  next
    have "NUL \<notin> set (take k bs)" using assms(1) by (auto simp: zero_filled_def dest: in_set_takeD)
    then show "NUL \<notin> set (take k bs @ got)" using assms(5) by simp
  qed (use assms b in \<open>simp_all add: zero_filled_def min_def\<close>)
  then show ?thesis by (rule that[OF b(1)])
qed

lemma read_more_data:
  assumes "zero_filled (obuf m) bs" and "rpos m \<le> length bs" and "length bs \<le> rpos m + length d"
    and "rpos m + length d < OLD_BUFF_SIZE" and "NUL \<notin> set d" and "length d \<le> n"
  obtains b where "read_more n m (Data d # is) = Inr (int (length d), m\<lparr>obuf := b, rpos := rpos m + length d\<rparr>, is)"
    "zero_filled b (take (rpos m) bs @ d)"
proof -
  obtain b where b: "store_list (obuf m) (rpos m) d = Inr b" "zero_filled b (take (rpos m) bs @ d)"
    using zero_filled_store[OF assms(1-5)] by blast
  have "read_more n m (Data d # is) = Inr (int (length d), m\<lparr>obuf := b, rpos := rpos m + length d\<rparr>, is)"
    using b(1) assms(6) by (simp add: read_more_def nat_add_distrib)
  then show ?thesis using b(2) by (rule that)
qed

lemma store_list_Nil: "off \<le> blk_len b \<Longrightarrow> store_list b off [] = Inr b"
  by (auto simp: store_list_def fun_eq_iff intro!: block.equality)

lemma read_more_again:
  "read_more n m (Again # is) = Inr (-1, m\<lparr>rpos := rpos m - 1\<rparr>, is)" if "0 < rpos m" "rpos m \<le> blk_len (obuf m)"
  using that by (simp add: read_more_def store_list_Nil nat_diff_distrib')

section \<open>Header sections\<close>

text \<open>What is complete or wrong stays so when more bytes come.\<close>

lemma header_lines_stable:
  assumes "fst (header_lines s) \<noteq> NO_END_OF_LINE"
  shows "header_lines (s @ t) = header_lines s"
  using assms
proof (induction s rule: header_lines.induct)
  case (1 s)
  show ?case
  proof (cases "strstr s CRLF")
    case None
    then show ?thesis using "1.prems" by (simp add: header_lines.simps)
  next
    case crlf: (Some crlf)
    note full = strstr_append[OF crlf, of t]
    have len: "crlf + 2 \<le> length s" using strstr_bound[OF crlf] by simp
    have d: "drop (crlf + 2) (s @ t) = drop (crlf + 2) s @ t" "take crlf (s @ t) = take crlf s"
      using len by simp_all
    show ?thesis
    proof (cases "crlf = 0")
      case True
      then show ?thesis using crlf full by (simp add: header_lines.simps[of s] header_lines.simps[of "s @ t"])
    next
      case pos: False
      show ?thesis
      proof (cases "strstr (take crlf s) '': ''")
        case None
        then show ?thesis using crlf full pos d(2)
          by (simp add: header_lines.simps[of s] header_lines.simps[of "s @ t"] del: take_append)
      next
        case sep: (Some sep)
        have "sep \<le> crlf" using strstr_bound[OF sep] len by simp
        then have tk: "take sep (s @ t) = take sep s" using len by simp
        have "fst (header_lines (drop (crlf + 2) s)) \<noteq> NO_END_OF_LINE"
          using "1.prems" header_lines_cases[OF crlf pos sep] by (auto split: prod.splits)
        note IH = "1.IH"[OF crlf pos sep this]
        show ?thesis
          using header_lines_cases[OF full pos, of sep] header_lines_cases[OF crlf pos sep] sep
          by (simp only: d IH tk)
      qed
    qed
  qed
qed

lemma old_in_memory: "length s < OLD_BUFF_SIZE \<Longrightarrow> in_memory s"
  by (simp add: in_memory_def OLD_BUFF_SIZE_def ADDRESS_SPACE_eq)

definition old_post ::
    "request_t \<Rightarrow> (char list \<times> char list) list \<Rightarrow> char list \<Rightarrow> nat \<Rightarrow> (STATUS \<times> request_t \<times> old_buff \<times> arrival list) \<Rightarrow> bool" where
  "old_post rq hs T n r =
     (case r of (st, rq', m, _) \<Rightarrow>
       st = SUCCESS \<and> (\<exists>bs. zero_filled (obuf m) bs \<and> rpos m = length bs \<and> n \<le> length bs \<and> prefix bs T) \<and> ppos m = n \<and>
       rq' = rq\<lparr>req_headers := req_headers rq'\<rparr> \<and> headers_are (req_headers rq') hs)"

lemma old_post_headers [simp]: "old_post (rq\<lparr>req_headers := v\<rparr>) = old_post rq"
  by (simp add: old_post_def fun_eq_iff)

lemma headers_round:
  assumes "zero_filled (obuf m) bs" and "ppos m \<le> length bs" and "headers_are v hs"
    and "al_ok al" and "grants_upto al OLD_BUFF_SIZE"
  shows "safe (headers_loop al (obuf m) (ppos m) v) (loop_post (ppos m) hs (drop (ppos m) bs))"
proof -
  have l: "length (drop (ppos m) bs) < OLD_BUFF_SIZE" using assms(1) by (auto simp: zero_filled_def)
  show ?thesis
    by (rule headers_loop_safe[OF zero_filled_cstring[OF assms(1,2)] old_in_memory[OF l] grants_upto_mono[OF assms(5)] assms(4,3)])
      (use l in simp)
qed

text \<open>A round that finds the end of the header section.\<close>

lemma req_headers_complete:
  assumes "zero_filled (obuf m) bs" and "rpos m = length bs" and "ppos m \<le> length bs"
    and h: "header_lines (drop (ppos m) bs) = (END_OF_HEADER, n, H)" and "fst (header_lines (drop (ppos m) bs)) \<noteq> NO_END_OF_LINE"
    and "headers_are (req_headers rq) hs" and t: "req_type rq = Str ''GET''" and "al_ok al" and "grants_upto al OLD_BUFF_SIZE"
    and "0 < fuel"
  shows "safe (req_headers_loop fuel al rq m inp) (old_post rq (hs @ H) (bs @ later) (ppos m + n))"
proof -
  obtain fuel' where fuel: "fuel = Suc fuel'" using assms(10) by (cases fuel) auto
  have n: "n \<le> length (drop (ppos m) bs)" using header_lines_bound[of "drop (ppos m) bs"] h by simp
  show ?thesis unfolding fuel req_headers_loop.simps
  proof (rule safe_bind[OF headers_round[OF assms(1,3,6,8,9)]])
    fix r assume "loop_post (ppos m) hs (drop (ppos m) bs) r"
    then obtain v where r: "r = (END_OF_HEADER, ppos m + n, v)" "headers_are v (hs @ H)"
      using h by (cases r) (auto simp: loop_post_def)
    show "safe (case r of (status, pos, hs) \<Rightarrow>
        let rq = rq\<lparr>req_headers := hs\<rparr>; m = m\<lparr>ppos := pos\<rparr> in
        if status = PARSING_ERROR then Inr (ERROR, rq, m, inp)
        else if status = NO_END_OF_LINE then
          bind_r (read_more REQ_READ m inp) (\<lambda>(_, m, inp). req_headers_loop fuel' al rq m inp)
        else bind_r (cstr_val (req_type rq)) (\<lambda>t. Inr (if strcmp t ''GET'' \<noteq> 0 then ERROR else SUCCESS, rq, m, inp)))
        (old_post rq (hs @ H) (bs @ later) (ppos m + n))"
      using r n t assms(1-3) by (auto simp: old_post_def strcmp_eq_0 intro!: exI[of _ bs])
  qed
qed

text \<open>A round that has to wait for more bytes.\<close>

lemma req_headers_wait:
  assumes "zero_filled (obuf m) bs" and "ppos m \<le> length bs" and h: "header_lines (drop (ppos m) bs) = (NO_END_OF_LINE, n, H)"
    and "headers_are (req_headers rq) hs" and "al_ok al" and "grants_upto al OLD_BUFF_SIZE"
    and wait: "\<And>v. headers_are v (hs @ H) \<Longrightarrow>
      safe (bind_r (read_more REQ_READ (m\<lparr>ppos := ppos m + n\<rparr>) inp)
        (\<lambda>(_, m, inp). req_headers_loop fuel al (rq\<lparr>req_headers := v\<rparr>) m inp)) P"
  shows "safe (req_headers_loop (Suc fuel) al rq m inp) P"
  unfolding req_headers_loop.simps
proof (rule safe_bind[OF headers_round[OF assms(1,2,4-6)]])
  fix r assume "loop_post (ppos m) hs (drop (ppos m) bs) r"
  then obtain v where r: "r = (NO_END_OF_LINE, ppos m + n, v)" "headers_are v (hs @ H)"
    using h by (cases r) (auto simp: loop_post_def)
  show "safe (case r of (status, pos, hs) \<Rightarrow>
      let rq = rq\<lparr>req_headers := hs\<rparr>; m = m\<lparr>ppos := pos\<rparr> in
      if status = PARSING_ERROR then Inr (ERROR, rq, m, inp)
      else if status = NO_END_OF_LINE then
        bind_r (read_more REQ_READ m inp) (\<lambda>(_, m, inp). req_headers_loop fuel al rq m inp)
      else bind_r (cstr_val (req_type rq)) (\<lambda>t. Inr (if strcmp t ''GET'' \<noteq> 0 then ERROR else SUCCESS, rq, m, inp))) P"
    using wait[OF r(2)] by (simp add: r(1) Let_def)
qed

lemma req_headers_any_split:
  assumes "zero_filled (obuf m) bs" and "rpos m = length bs" and "ppos m \<le> length bs"
    and "header_lines (drop (ppos m) (bs @ concat ds)) = (END_OF_HEADER, n, H)"
    and "list_all (\<lambda>d. length d \<le> REQ_READ) ds" and "length (bs @ concat ds) < OLD_BUFF_SIZE" and "NUL \<notin> set (concat ds)"
    and "headers_are (req_headers rq) hs" and "req_type rq = Str ''GET''" and "al_ok al" and "grants_upto al OLD_BUFF_SIZE"
    and "length ds < fuel"
  shows "safe (req_headers_loop fuel al rq m (map Data ds @ is)) (old_post rq (hs @ H) (bs @ concat ds) (ppos m + n))"
  using assms(1-9,12)
proof (induction ds arbitrary: fuel rq m bs hs n H)
  case Nil
  have st: "fst (header_lines (drop (ppos m) bs)) \<noteq> NO_END_OF_LINE" using Nil.prems(4) by simp
  show ?case using req_headers_complete[OF Nil.prems(1,2,3) _ st Nil.prems(8,9) assms(10,11), where fuel = fuel and later = "[]" and inp = "is" and n = n and H = H] Nil.prems(4,10)
    by simp
next
  case (Cons d ds)
  note a = Cons.prems
  let ?s = "drop (ppos m) bs" and ?T = "bs @ concat (d # ds)"
  have full: "drop (ppos m) ?T = ?s @ concat (d # ds)" using a(3) by simp
  show ?case
  proof (cases "fst (header_lines ?s) = NO_END_OF_LINE")
    case False
    then have "header_lines ?s = (END_OF_HEADER, n, H)"
      using header_lines_stable[OF False, of "concat (d # ds)"] a(4) unfolding full by simp
    then show ?thesis using req_headers_complete[OF a(1,2,3) _ False a(8,9) assms(10,11), where fuel = fuel and later = "concat (d # ds)" and inp = "map Data (d # ds) @ is" and n = n and H = H] a(10)
      by simp
  next
    case True
    then obtain n1 H1 where part: "header_lines ?s = (NO_END_OF_LINE, n1, H1)" by (cases "header_lines ?s") auto
    have n1: "n1 \<le> length ?s" using header_lines_bound[of ?s] part by simp
    obtain n2 H2 where rest: "header_lines (drop n1 (?s @ concat (d # ds))) = (END_OF_HEADER, n2, H2)" "n = n1 + n2" "H = H1 @ H2"
      using header_lines_resume[OF part, of "concat (d # ds)"] a(4) unfolding full by (auto split: prod.splits)
    obtain fuel' where fuel: "fuel = Suc fuel'" using a(10) by (cases fuel) auto
    have IH: "safe (bind_r (read_more REQ_READ (m\<lparr>ppos := ppos m + n1\<rparr>) (map Data (d # ds) @ is))
        (\<lambda>(_, m, is). req_headers_loop fuel' al (rq\<lparr>req_headers := v\<rparr>) m is))
        (old_post (rq\<lparr>req_headers := v\<rparr>) (hs @ H) ?T (ppos m + n))" if v: "headers_are v (hs @ H1)" for v
    proof -
      let ?m = "m\<lparr>ppos := ppos m + n1\<rparr>"
      obtain b where b: "read_more REQ_READ ?m (Data d # map Data ds @ is) =
          Inr (int (length d), ?m\<lparr>obuf := b, rpos := rpos ?m + length d\<rparr>, map Data ds @ is)"
          "zero_filled b (take (rpos ?m) bs @ d)"
        using read_more_data[of ?m bs d REQ_READ "map Data ds @ is"] a by auto
      let ?m' = "?m\<lparr>obuf := b, rpos := rpos ?m + length d\<rparr>"
      have "header_lines (drop (ppos ?m') ((bs @ d) @ concat ds)) = (END_OF_HEADER, n2, H2)"
        using rest(1) a(3) n1 by (simp add: add.commute)
      then have "safe (req_headers_loop fuel' al (rq\<lparr>req_headers := v\<rparr>) ?m' (map Data ds @ is))
          (old_post (rq\<lparr>req_headers := v\<rparr>) ((hs @ H1) @ H2) ((bs @ d) @ concat ds) (ppos ?m' + n2))"
        by (intro Cons.IH) (use b a n1 v fuel in auto)
      then show ?thesis using b(1) rest(2,3) by (simp add: add.assoc)
    qed
    show ?thesis unfolding fuel
      by (rule req_headers_wait[OF a(1,3) part a(8) assms(10,11)]) (use IH in \<open>simp only: old_post_headers\<close>)
  qed
qed

section \<open>The request line\<close>

lemma parse_req_type_OK:
  assumes "parse_req_type al s rq = Inr (OK, n, rq')" and "in_memory s"
  shows "strstr s CRLF \<noteq> None" "n \<le> length s"
  using assms parse_req_type_safe[OF assms(2), of al rq]
  by (auto simp: parse_req_type_def advance_ok_def split: option.splits)

lemma req_line_any_split:
  assumes "zero_filled (obuf m) bs" and "rpos m = length bs" and "ppos m = 0" and "strstr bs CRLF = None"
    and "parse_req_type al (bs @ concat ds) rq = Inr (OK, n, rq')"
    and "list_all (\<lambda>d. d \<noteq> [] \<and> length d \<le> REQ_READ) ds" and "length (bs @ concat ds) < OLD_BUFF_SIZE"
    and "NUL \<notin> set (concat ds)" and "length ds \<le> fuel"
  shows "\<exists>ds1 ds2 m'. ds = ds1 @ ds2 \<and> req_line_loop fuel al rq m (map Data ds @ is) = Inr (SUCCESS, rq', m', map Data ds2 @ is) \<and>
    zero_filled (obuf m') (bs @ concat ds1) \<and> rpos m' = length (bs @ concat ds1) \<and> ppos m' = n \<and> n \<le> length (bs @ concat ds1)"
  using assms
proof (induction ds arbitrary: fuel m bs)
  case Nil
  then show ?case by (auto simp: parse_req_type_def)
next
  case (Cons d ds)
  note a = Cons.prems
  obtain fuel' where fuel: "fuel = Suc fuel'" using a(9) by (cases fuel) auto
  obtain b where b: "read_more REQ_READ m (Data d # map Data ds @ is) =
      Inr (int (length d), m\<lparr>obuf := b, rpos := rpos m + length d\<rparr>, map Data ds @ is)"
      "zero_filled b (bs @ d)"
    using read_more_data[of m bs d REQ_READ "map Data ds @ is"] a by auto
  let ?m = "m\<lparr>obuf := b, rpos := rpos m + length d\<rparr>"
  have cur: "cstring_at b 0 = Inr (bs @ d)" using zero_filled_cstring[OF b(2), of 0] by simp
  have d: "int (length d) \<noteq> -1 \<and> int (length d) \<noteq> 0" using a(6) by simp
  have mem: "in_memory ((bs @ d) @ concat ds)" using a(7) by (intro old_in_memory) simp
  show ?case
  proof (cases "strstr (bs @ d) CRLF")
    case None
    then have "parse_req_type al (bs @ d) rq = Inr (NO_END_OF_LINE, 0, rq)" by (simp add: parse_req_type_def)
    then have "req_line_loop fuel al rq m (map Data (d # ds) @ is) = req_line_loop fuel' al rq (?m\<lparr>ppos := 0\<rparr>) (map Data ds @ is)"
      using b(1) cur d a(3) by (simp add: fuel)
    also have "?m\<lparr>ppos := 0\<rparr> = ?m" using a(3) by (intro old_buff.equality) simp_all
    finally have "req_line_loop fuel al rq m (map Data (d # ds) @ is) = req_line_loop fuel' al rq ?m (map Data ds @ is)" .
    moreover have "\<exists>ds1 ds2 m'. ds = ds1 @ ds2 \<and> req_line_loop fuel' al rq ?m (map Data ds @ is) = Inr (SUCCESS, rq', m', map Data ds2 @ is) \<and>
        zero_filled (obuf m') ((bs @ d) @ concat ds1) \<and> rpos m' = length ((bs @ d) @ concat ds1) \<and> ppos m' = n \<and>
        n \<le> length ((bs @ d) @ concat ds1)"
      by (rule Cons.IH) (use a b(2) None fuel in simp_all)
    ultimately obtain ds1 ds2 m' where "d # ds = (d # ds1) @ ds2"
        "req_line_loop fuel al rq m (map Data (d # ds) @ is) = Inr (SUCCESS, rq', m', map Data ds2 @ is)"
        "zero_filled (obuf m') (bs @ concat (d # ds1))" "rpos m' = length (bs @ concat (d # ds1))" "ppos m' = n"
        "n \<le> length (bs @ concat (d # ds1))"
      by auto
    then show ?thesis by blast
  next
    case (Some w)
    then have p: "parse_req_type al (bs @ d) rq = Inr (OK, n, rq')"
      using parse_req_type_stable[OF mem, of al rq] a(5) by simp
    have "n \<le> length (bs @ d)" by (rule parse_req_type_OK(2)[OF p]) (rule in_memory_prefix[OF mem])
    moreover have "req_line_loop fuel al rq m (map Data (d # ds) @ is) = Inr (SUCCESS, rq', ?m\<lparr>ppos := n\<rparr>, map Data ds @ is)"
      using b(1) cur d a(3) p by (simp add: fuel)
    ultimately show ?thesis using b(2) a(2)
      by (intro exI[of _ "[d]"] exI[of _ ds] exI[of _ "?m\<lparr>ppos := n\<rparr>"]) simp
  qed
qed

lemma zero_filled_read: "zero_filled b bs \<Longrightarrow> off + k \<le> length bs \<Longrightarrow> read_bytes b off k = Inr (take k (drop off bs))"
proof (induction k arbitrary: off)
  case (Suc k)
  then have "load b off = Inr (bs ! off)" by (simp add: load_Inr zero_filled_def)
  moreover have "drop off bs = bs ! off # drop (Suc off) bs" using Suc.prems(2) by (simp add: Cons_nth_drop_Suc)
  ultimately show ?case using Suc.IH[of "Suc off"] Suc.prems by simp
qed simp

definition get_request :: "char list \<Rightarrow> char list \<Rightarrow> (char list \<times> char list) list \<Rightarrow> char list" where
  "get_request u v hs = request_line ''GET'' u v @ header_text hs @ CRLF"

definition request_read ::
    "char list \<Rightarrow> char list \<Rightarrow> (char list \<times> char list) list \<Rightarrow> (STATUS \<times> request_t \<times> old_buff \<times> arrival list) \<Rightarrow> bool" where
  "request_read u v hs r =
     (case r of (st, rq, m, _) \<Rightarrow>
       st = SUCCESS \<and> req_type rq = Str ''GET'' \<and> uri rq = Str u \<and> req_version rq = Str v \<and> headers_are (req_headers rq) hs \<and>
       read_bytes (obuf m) 0 (ppos m) = Inr (get_request u v hs))"

lemma old_post_read:
  assumes "old_post rq0 hs T n r" and "take n T = get_request u v hs" and "req_type rq0 = Str ''GET''" "uri rq0 = Str u" "req_version rq0 = Str v"
  shows "safe (case r of (st, rq, m2, is) \<Rightarrow> Inr (st, rq, back_to new_buff st m2, is)) (request_read u v hs)"
proof -
  obtain rq' m' is' bs where r: "r = (SUCCESS, rq', m', is')" "zero_filled (obuf m') bs" "n \<le> length bs" "prefix bs T"
      "ppos m' = n" "rq' = rq0\<lparr>req_headers := req_headers rq'\<rparr>" "headers_are (req_headers rq') hs"
    using assms(1) by (cases r) (auto simp: old_post_def)
  have "take n bs = get_request u v hs" using r(3,4) assms(2) by (auto simp: prefix_def)
  then have "read_bytes (obuf m') 0 (ppos m') = Inr (get_request u v hs)"
    using zero_filled_read[OF r(2), of 0 n] r(3,5) by simp
  moreover have "req_type rq' = Str ''GET''" "uri rq' = Str u" "req_version rq' = Str v"
    by (subst r(6), simp add: assms(3-5))+
  ultimately show ?thesis using r(7) by (simp add: r(1) request_read_def back_to_def)
qed

lemma request_init_headers: "headers_are (req_headers (request_init rq)) []"
  using live_request_init[of rq] by (simp add: live_request_def)

lemma read_req_any_split:
  assumes "concat ds = get_request u v hs @ rest" and "list_all (\<lambda>d. d \<noteq> [] \<and> length d \<le> REQ_READ) ds"
    and "length (concat ds) < OLD_BUFF_SIZE" and "NUL \<notin> set (concat ds)"
    and "CHR '' '' \<notin> set u" and "one_line (''GET '' @ u @ '' '' @ v)" and "\<forall>tv \<in> set hs. header_ok tv"
    and "al_ok al" and "grants_upto al OLD_BUFF_SIZE" and "length ds < fuel"
  shows "safe (read_req fuel al rq new_buff (map Data ds @ is)) (request_read u v hs)"
proof -
  let ?T = "concat ds" and ?n = "length (request_line ''GET'' u v)"
  let ?rq = "(request_init rq)\<lparr>req_type := Str ''GET'', uri := Str u, req_version := Str v\<rparr>"
  have T: "?T = request_line ''GET'' u v @ header_text hs @ CRLF @ rest" using assms(1) by (simp add: get_request_def)
  have "grants_upto al ?n" by (rule grants_upto_mono[OF assms(9)]) (use assms(3) T in simp)
  then have p: "parse_req_type al ([] @ concat ds) (request_init rq) = Inr (OK, ?n, ?rq)"
    using parse_req_type_request_line[of "''GET''" u v "header_text hs @ CRLF @ rest" al "request_init rq"]
      old_in_memory[OF assms(3)] assms(5,6) T by simp
  have "strstr [] CRLF = None" by (simp add: CRLF_def)
  from req_line_any_split[OF zero_filled_new _ _ this p assms(2) _ assms(4), of fuel "is"]
  obtain ds1 ds2 m1 where l: "ds = ds1 @ ds2"
      "req_line_loop fuel al (request_init rq) new_buff (map Data ds @ is) = Inr (SUCCESS, ?rq, m1, map Data ds2 @ is)"
      "zero_filled (obuf m1) (concat ds1)" "rpos m1 = length (concat ds1)" "ppos m1 = ?n" "?n \<le> length (concat ds1)"
    using assms(3,10) by (auto simp: new_buff_def)
  have "concat ds1 @ concat ds2 = ?T" using l(1) by simp
  moreover have "drop ?n ?T = header_text hs @ CRLF @ rest" unfolding T by simp
  ultimately have h: "header_lines (drop (ppos m1) (concat ds1 @ concat ds2)) = (END_OF_HEADER, length (header_text hs) + 2, hs)"
    using header_lines_header_text[OF assms(7), of rest] l(5) by simp
  have "safe (req_headers_loop fuel al ?rq m1 (map Data ds2 @ is))
      (old_post ?rq ([] @ hs) (concat ds1 @ concat ds2) (ppos m1 + (length (header_text hs) + 2)))"
  proof (rule req_headers_any_split[OF l(3,4) _ h _ _ _ _ _ assms(8,9)])
    show "NUL \<notin> set (concat ds2)" using assms(4) l(1) by simp
    show "length (concat ds1 @ concat ds2) < OLD_BUFF_SIZE" using assms(3) l(1) by simp
  qed (use l assms(2,10) request_init_headers in \<open>auto simp: list_all_iff\<close>)
  then have s: "safe (req_headers_loop fuel al ?rq m1 (map Data ds2 @ is)) (old_post ?rq hs ?T (?n + length (header_text hs) + 2))"
    using l(1,5) by (simp add: add.assoc)
  show ?thesis unfolding read_req_def l(2) bind_r_simps prod.case
  proof (rule safe_bind)
    show "safe (if SUCCESS = SUCCESS then req_headers_loop fuel al ?rq m1 (map Data ds2 @ is)
        else Inr (SUCCESS, ?rq, m1, map Data ds2 @ is)) (old_post ?rq hs ?T (?n + length (header_text hs) + 2))"
      using s by simp
    fix r assume "old_post ?rq hs ?T (?n + length (header_text hs) + 2) r"
    then show "safe (case r of (st, rq, m2, is) \<Rightarrow> Inr (st, rq, back_to new_buff st m2, is)) (request_read u v hs)"
      by (rule old_post_read) (simp_all add: assms(1) get_request_def)
  qed
qed

section \<open>A timeout inside the header section\<close>

text \<open>
  The failed read moves the reading position one byte back; the next bytes overwrite the last one
  received.
\<close>

lemma header_after_timeout:
  assumes "zero_filled (obuf m) bs" and "rpos m = length bs" and "ppos m < length bs"
    and wait: "header_lines (drop (ppos m) bs) = (NO_END_OF_LINE, 0, [])"
    and h: "header_lines (drop (ppos m) (butlast bs @ d)) = (END_OF_HEADER, n, H)"
    and "d \<noteq> []" and "length d \<le> REQ_READ" and "length (bs @ d) < OLD_BUFF_SIZE" and "NUL \<notin> set d"
    and "headers_are (req_headers rq) hs" and "req_type rq = Str ''GET''" and "al_ok al" and "grants_upto al OLD_BUFF_SIZE"
  shows "safe (req_headers_loop (Suc (Suc (Suc fuel))) al rq m (Again # Data d # is))
    (old_post rq (hs @ H) (butlast bs @ d) (ppos m + n))"
proof (rule req_headers_wait[OF assms(1) _ wait assms(10,12,13)])
  fix v assume v: "headers_are v (hs @ [])"
  let ?rq = "rq\<lparr>req_headers := v\<rparr>" and ?m = "m\<lparr>ppos := ppos m + 0, rpos := rpos m - 1\<rparr>"
  have ne: "bs \<noteq> []" using assms(3) by auto
  have "read_more REQ_READ (m\<lparr>ppos := ppos m + 0\<rparr>) (Again # Data d # is) = Inr (-1, ?m, Data d # is)"
    using read_more_again[of "m\<lparr>ppos := ppos m + 0\<rparr>"] assms(1,2) ne by (simp add: zero_filled_def)
  moreover have "safe (req_headers_loop (Suc (Suc fuel)) al ?rq ?m (Data d # is)) (old_post rq (hs @ H) (butlast bs @ d) (ppos m + n))"
  proof (rule req_headers_wait[where bs = bs and n = 0 and H = "[]" and hs = hs])
    fix v2 assume v2: "headers_are v2 (hs @ [])"
    let ?rq2 = "rq\<lparr>req_headers := v2\<rparr>"
    have k: "take (length bs - 1) bs = butlast bs" by (simp add: butlast_conv_take)
    have l: "length bs \<le> length bs - 1 + length d" "length bs - 1 + length d < OLD_BUFF_SIZE"
      using assms(3,6,8) by (cases d; auto)+
    obtain b where b: "read_more REQ_READ (?m\<lparr>ppos := ppos ?m + 0\<rparr>) (Data d # is) =
        Inr (int (length d), ?m\<lparr>ppos := ppos ?m + 0, obuf := b, rpos := rpos ?m + length d\<rparr>, is)"
        "zero_filled b (butlast bs @ d)"
      using read_more_data[of "?m\<lparr>ppos := ppos ?m + 0\<rparr>" bs d REQ_READ "is"] assms(1,2,7,9) k l by auto
    let ?m2 = "?m\<lparr>ppos := ppos ?m + 0, obuf := b, rpos := rpos ?m + length d\<rparr>"
    have "safe (req_headers_loop (Suc fuel) al ?rq2 ?m2 is) (old_post ?rq2 (hs @ H) ((butlast bs @ d) @ []) (ppos ?m2 + n))"
      by (rule req_headers_complete) (use b assms v2 in auto)
    then show "safe (bind_r (read_more REQ_READ (?m\<lparr>ppos := ppos ?m + 0\<rparr>) (Data d # is))
        (\<lambda>(_, m, inp). req_headers_loop (Suc fuel) al (?rq\<lparr>req_headers := v2\<rparr>) m inp)) (old_post rq (hs @ H) (butlast bs @ d) (ppos m + n))"
      unfolding b(1) by (simp del: req_headers_loop.simps)
  qed (use assms v in auto)
  ultimately show "safe (bind_r (read_more REQ_READ (m\<lparr>ppos := ppos m + 0\<rparr>) (Again # Data d # is))
      (\<lambda>(_, m, inp). req_headers_loop (Suc (Suc fuel)) al ?rq m inp)) (old_post rq (hs @ H) (butlast bs @ d) (ppos m + n))"
    by simp
qed (use assms(3) in simp)

text \<open>A line without its end is left alone.\<close>

lemma header_lines_incomplete: "one_line s \<Longrightarrow> header_lines s = (NO_END_OF_LINE, 0, [])"
  by (simp add: one_line_def header_lines.simps)

lemma one_line_prefix:
  assumes "one_line (s @ t)"
  shows "one_line s"
proof (cases "strstr s CRLF")
  case None
  then show ?thesis by (simp add: one_line_def)
next
  case (Some i)
  from strstr_append[OF this, of t] assms show ?thesis by (simp add: one_line_def)
qed

lemma timeout_loses_byte:
  assumes x: "x = request_line ''GET'' u v @ t @ '': '' @ w @ [c]" and d: "d = z @ CRLF @ CRLF"
    and l: "length x \<le> REQ_READ" "length d \<le> REQ_READ" and nul: "NUL \<notin> set (x @ d)"
    and u: "CHR '' '' \<notin> set u" "one_line (''GET '' @ u @ '' '' @ v)"
    and sent: "header_ok (t, w @ [c] @ z)" and read: "header_ok (t, w @ z)"
    and al: "al_ok al" "grants_upto al OLD_BUFF_SIZE"
  shows "safe (read_req (Suc (Suc (Suc fuel))) al rq new_buff (Data x # Again # Data d # is)) (request_read u v [(t, w @ z)])"
proof -
  let ?n = "length (request_line ''GET'' u v)" and ?h = "t @ '': '' @ w @ [c]" and ?T = "get_request u v [(t, w @ z)]"
  let ?rq = "(request_init rq)\<lparr>req_type := Str ''GET'', uri := Str u, req_version := Str v\<rparr>"
  have size: "length x < OLD_BUFF_SIZE" "length (x @ d) < OLD_BUFF_SIZE"
    using l by (simp_all add: REQ_READ_def OLD_BUFF_SIZE_def)
  have "grants_upto al ?n" by (rule grants_upto_mono[OF al(2)]) (use size(1) x in simp)
  then have p: "parse_req_type al ([] @ concat [x]) (request_init rq) = Inr (OK, ?n, ?rq)"
    using parse_req_type_request_line[of "''GET''" u v ?h al "request_init rq"] old_in_memory[OF size(1)] u x by simp
  have "strstr [] CRLF = None" by (simp add: CRLF_def)
  from req_line_any_split[OF zero_filled_new _ _ this p, of "Suc (Suc (Suc fuel))" "Again # Data d # is"]
  obtain ds1 ds2 m1 where line: "[x] = ds1 @ ds2"
      "req_line_loop (Suc (Suc (Suc fuel))) al (request_init rq) new_buff (Data x # Again # Data d # is) =
        Inr (SUCCESS, ?rq, m1, map Data ds2 @ Again # Data d # is)"
      "zero_filled (obuf m1) (concat ds1)" "rpos m1 = length (concat ds1)" "ppos m1 = ?n" "?n \<le> length (concat ds1)"
    using l(1) nul size(1) x by (auto simp: new_buff_def)
  have "0 < ?n" by (simp add: request_line_def)
  then have ds: "ds1 = [x]" "ds2 = []" using line(1,6) by (cases ds1; auto)+
  have b: "butlast x @ d = request_line ''GET'' u v @ header_text [(t, w @ z)] @ CRLF"
    by (simp add: x d butlast_append header_text_def header_line_def)
  have "header_lines (drop (ppos m1) x) = (NO_END_OF_LINE, 0, [])"
    using header_lines_incomplete[OF one_line_prefix[of ?h z]] sent line(5) x by (simp add: header_ok_def)
  moreover have "header_lines (drop (ppos m1) (butlast x @ d)) = (END_OF_HEADER, length (header_text [(t, w @ z)]) + 2, [(t, w @ z)])"
    using header_lines_header_text[of "[(t, w @ z)]" "[]"] read line(5) unfolding b by simp
  ultimately have s: "safe (req_headers_loop (Suc (Suc (Suc fuel))) al ?rq m1 (Again # Data d # is))
      (old_post ?rq ([] @ [(t, w @ z)]) (butlast x @ d) (ppos m1 + (length (header_text [(t, w @ z)]) + 2)))"
    by (rule header_after_timeout[rotated 3])
      (use line ds l nul size x d al request_init_headers in \<open>auto simp: CRLF_def\<close>)
  have T: "butlast x @ d = ?T" "ppos m1 + (length (header_text [(t, w @ z)]) + 2) = length ?T"
    using b line(5) by (simp_all add: get_request_def)
  show ?thesis unfolding read_req_def line(2) bind_r_simps prod.case
  proof (rule safe_bind)
    show "safe (if SUCCESS = SUCCESS then req_headers_loop (Suc (Suc (Suc fuel))) al ?rq m1 (map Data ds2 @ Again # Data d # is)
        else Inr (SUCCESS, ?rq, m1, map Data ds2 @ Again # Data d # is)) (old_post ?rq [(t, w @ z)] ?T (length ?T))"
      using s unfolding T ds(2) by simp
    fix r assume "old_post ?rq [(t, w @ z)] ?T (length ?T) r"
    then show "safe (case r of (st, rq, m2, is) \<Rightarrow> Inr (st, rq, back_to new_buff st m2, is)) (request_read u v [(t, w @ z)])"
      by (rule old_post_read) simp_all
  qed
qed

section \<open>Connections that end early\<close>

text \<open>A client that closes before its first line is complete: a null pointer is printed and compared.\<close>

lemma early_close_undefined:
  assumes "al OLD_BUFF_SIZE"
  shows "old_handler (Suc fuel) al fd rq rs (Eof # is) os as = Inl Undefined"
proof -
  have "read_more REQ_READ new_buff (Eof # is) = Inr (0, new_buff, Eof # is)"
    by (simp add: read_more_def new_buff_def store_list_Nil)
  then show ?thesis using assms by (simp add: old_handler_def read_req_def request_init_def)
qed

text \<open>The line behind the last chunk that has not come yet is waited for without reading.\<close>

lemma trailers_spin:
  assumes "cstring_at (obuf m) (ppos m) = Inr s" and "one_line s"
  shows "trailers_loop fuel al m = Inl Diverge"
proof (induction fuel)
  case (Suc fuel)
  have "parse_next_header al s uninit_header = Inr (NO_END_OF_LINE, 0, uninit_header)"
    using assms(2) by (simp add: one_line_def parse_next_header_def)
  moreover have "m\<lparr>ppos := ppos m\<rparr> = m" by simp
  ultimately show ?case using assms(1) Suc by simp
qed simp

text \<open>A client that closes inside the header section keeps the loop running.\<close>

lemma eof_in_headers_spins:
  assumes "zero_filled (obuf m) bs" and "rpos m = length bs" and "ppos m \<le> length bs"
    and "header_lines (drop (ppos m) bs) = (NO_END_OF_LINE, n, H)"
    and "headers_are (req_headers rq) hs" and "al_ok al" and "grants_upto al OLD_BUFF_SIZE"
  shows "req_headers_loop fuel al rq m (Eof # is) \<in> {Inl Diverge, Inl Exit}"
  using assms(1-5)
proof (induction fuel arbitrary: m rq hs n H)
  case (Suc fuel)
  note a = Suc.prems
  have n: "n \<le> length (drop (ppos m) bs)" using header_lines_bound[of "drop (ppos m) bs"] a(4) by simp
  have again: "header_lines (drop (ppos m + n) bs) = (NO_END_OF_LINE, 0, [])"
    using header_lines_resume[OF a(4), of "[]"] a(4) by (auto simp: add.commute split: prod.splits)
  show ?case
  proof (cases "headers_loop al (obuf m) (ppos m) (req_headers rq)")
    case (Inl e)
    then have "e = Exit" using headers_round[OF a(1,3,5) assms(6,7)] by simp
    then show ?thesis by (simp add: Inl)
  next
    case (Inr r)
    then obtain v where r: "r = (NO_END_OF_LINE, ppos m + n, v)" "headers_are v (hs @ H)"
      using headers_round[OF a(1,3,5) assms(6,7)] a(4) by (cases r) (auto simp: loop_post_def)
    let ?m = "m\<lparr>ppos := ppos m + n\<rparr>"
    have "read_more REQ_READ ?m (Eof # is) = Inr (0, ?m, Eof # is)"
      using a(1,2) by (simp add: read_more_def store_list_Nil zero_filled_def)
    moreover have "req_headers_loop fuel al (rq\<lparr>req_headers := v\<rparr>) ?m (Eof # is) \<in> {Inl Diverge, Inl Exit}"
      by (rule Suc.IH) (use a n again r(2) in simp_all)
    ultimately show ?thesis by (simp add: Inr r(1) Let_def)
  qed
qed simp

end
