(* ===== verification/Printers.thy ===== *)
theory Printers
  imports Transition
begin

text \<open>
  \<open>task2.c\<close> and \<open>task3.c\<close>: threads that print their messages, one after the other, and two at a time
  under a mutex.
\<close>

section \<open>One thread, then main\<close>

definition COUNT_OF_LOOPS2 :: nat where
  "COUNT_OF_LOOPS2 = 10"

fun subroutine2 :: "nat \<Rightarrow> char list \<Rightarrow> char list list \<Rightarrow> char list list" where
  "subroutine2 0 message screen = screen"
| "subroutine2 (Suc n) message screen = subroutine2 n message (screen @ [message])"

text \<open>
  \<open>main\<close> joins the thread before it changes the message and prints itself. \<open>rc\<close> is what
  \<open>pthread_create\<close> returns: 0, or a positive error number, against which the test for -1 does
  nothing; the join then gets a thread that was never set.
\<close>

definition main2 :: "int \<Rightarrow> char list list res" where
  "main2 rc =
     (if rc = -1 then Inr []
      else bind_r (defined_r (rc = 0)) (\<lambda>_.
        Inr (subroutine2 COUNT_OF_LOOPS2 ''-------'' (subroutine2 COUNT_OF_LOOPS2 ''+++++'' []))))"

lemma subroutine2_eq: "subroutine2 n message screen = screen @ replicate n message"
  by (induction n arbitrary: screen) (simp_all add: replicate_append_same[symmetric])

lemma main2_output: "main2 0 = Inr (replicate 10 ''+++++'' @ replicate 10 ''-------'')"
  by (simp add: main2_def subroutine2_eq COUNT_OF_LOOPS2_def)

text \<open>The error numbers of \<open>pthread_create\<close> are positive, so the message about it is never printed.\<close>

lemma main2_unnoticed: "0 < rc \<Longrightarrow> main2 rc = Inl Undefined"
  by (simp add: main2_def)

section \<open>Two threads under a mutex\<close>

datatype printer = Foo | Bar

text \<open>Where a thread is in a round of its loop: before \<open>lock\<close>, before \<open>printf\<close>, before \<open>unlock\<close>.\<close>

datatype round_pc = Locking | Printing | Unlocking

record printers_t =
  print_mutex :: "printer option"
  message_at :: "printer \<Rightarrow> char list list"
  round_at :: "printer \<Rightarrow> round_pc"
  print_screen :: "char list list"

text \<open>The messages of the contexts; the null pointer at their end is the end of the list.\<close>

fun messages :: "printer \<Rightarrow> char list list" where
  "messages Foo = [''foo'', ''foo'', ''foo'', ''foo'', ''foo'', ''foo'', ''foo'']"
| "messages Bar = [''bar'', ''bar'', ''bar'', ''bar'']"

definition main3 :: printers_t where
  "main3 = \<lparr>print_mutex = None, message_at = messages, round_at = (\<lambda>_. Locking), print_screen = []\<rparr>"

definition subroutine3 :: "printer \<Rightarrow> printers_t \<Rightarrow> printers_t option" where
  "subroutine3 p s = (case message_at s p of
     [] \<Rightarrow> None
   | m # ms \<Rightarrow>
       (case round_at s p of
          Locking \<Rightarrow>
            if print_mutex s = None then Some (s\<lparr>print_mutex := Some p, round_at := (round_at s)(p := Printing)\<rparr>) else None
        | Printing \<Rightarrow> Some (s\<lparr>print_screen := print_screen s @ [m], round_at := (round_at s)(p := Unlocking)\<rparr>)
        | Unlocking \<Rightarrow> Some (s\<lparr>print_mutex := None, round_at := (round_at s)(p := Locking), message_at := (message_at s)(p := ms)\<rparr>)))"

inductive print_step :: "printers_t \<Rightarrow> printers_t \<Rightarrow> bool" where
  prints_on: "subroutine3 p s = Some s' \<Longrightarrow> print_step s s'"

inductive_cases print_stepE: "print_step s s'"

definition printers_joined :: "printers_t \<Rightarrow> bool" where
  "printers_joined s = (message_at s Foo = [] \<and> message_at s Bar = [])"

text \<open>What a thread has still to print.\<close>

definition unprinted :: "printers_t \<Rightarrow> printer \<Rightarrow> char list list" where
  "unprinted s p = (if round_at s p = Unlocking then tl (message_at s p) else message_at s p)"

definition printers_inv :: "printers_t \<Rightarrow> bool" where
  "printers_inv s =
     ((\<forall>p. (round_at s p \<noteq> Locking) = (print_mutex s = Some p)) \<and>
      (\<forall>p. round_at s p \<noteq> Locking \<longrightarrow> message_at s p \<noteq> []) \<and>
      (\<exists>xs ys. xs @ unprinted s Foo = messages Foo \<and> ys @ unprinted s Bar = messages Bar \<and>
        print_screen s \<in> shuffles xs ys))"

lemma shuffles_snoc:
  "zs \<in> shuffles xs ys \<Longrightarrow> zs @ [x] \<in> shuffles (xs @ [x]) ys \<and> zs @ [x] \<in> shuffles xs (ys @ [x])"
proof (induction xs ys arbitrary: zs rule: shuffles.induct)
  case (1 ys)
  have "ys @ [x] \<in> shuffles [x] ys" for ys by (induction ys) auto
  then show ?case using 1 by simp
next
  case (2 xs)
  have "xs @ [x] \<in> shuffles xs [x]" for xs by (induction xs) auto
  then show ?case using 2 by simp
next
  case (3 a xs b ys)
  then show ?case by auto
qed

lemma printers_start: "printers_inv main3"
  by (simp add: printers_inv_def main3_def unprinted_def)

lemma round_cases:
  assumes "subroutine3 p s = Some s'"
  obtains (lock) m ms where "message_at s p = m # ms" "round_at s p = Locking" "print_mutex s = None"
      "s' = s\<lparr>print_mutex := Some p, round_at := (round_at s)(p := Printing)\<rparr>"
  | (print) m ms where "message_at s p = m # ms" "round_at s p = Printing"
      "s' = s\<lparr>print_screen := print_screen s @ [m], round_at := (round_at s)(p := Unlocking)\<rparr>"
  | (unlock) m ms where "message_at s p = m # ms" "round_at s p = Unlocking"
      "s' = s\<lparr>print_mutex := None, round_at := (round_at s)(p := Locking), message_at := (message_at s)(p := ms)\<rparr>"
  using assms by (auto simp: subroutine3_def split: list.splits round_pc.splits if_splits)

lemma printers_step:
  assumes i: "printers_inv s" and st: "print_step s s'"
  shows "printers_inv s'"
proof -
  obtain p where t: "subroutine3 p s = Some s'" using st by (rule print_stepE)
  have own: "(round_at s q \<noteq> Locking) = (print_mutex s = Some q)" "round_at s q \<noteq> Locking \<Longrightarrow> message_at s q \<noteq> []" for q
    using i by (simp_all add: printers_inv_def)
  obtain xs ys where sh: "xs @ unprinted s Foo = messages Foo" "ys @ unprinted s Bar = messages Bar" "print_screen s \<in> shuffles xs ys"
    using i by (auto simp: printers_inv_def)
  show ?thesis using t
  proof (cases rule: round_cases)
    case (lock m ms)
    then have "unprinted s' q = unprinted s q" for q by (simp add: unprinted_def)
    then show ?thesis using own lock sh unfolding printers_inv_def by auto
  next
    case (print m ms)
    have o: "unprinted s p = m # unprinted s' p" "\<And>q. q \<noteq> p \<Longrightarrow> unprinted s' q = unprinted s q"
      using print by (auto simp: unprinted_def)
    have "\<exists>xs ys. xs @ unprinted s' Foo = messages Foo \<and> ys @ unprinted s' Bar = messages Bar \<and> print_screen s' \<in> shuffles xs ys"
    proof (cases p)
      case Foo
      then show ?thesis using sh o print(3) shuffles_snoc[OF sh(3), of m]
        by (intro exI[of _ "xs @ [m]"] exI[of _ ys]) simp
    next
      case Bar
      then show ?thesis using sh o print(3) shuffles_snoc[OF sh(3), of m]
        by (intro exI[of _ xs] exI[of _ "ys @ [m]"]) simp
    qed
    moreover have "print_mutex s = Some p" using own(1)[of p] print(2) by simp
    ultimately show ?thesis using own print unfolding printers_inv_def by auto
  next
    case (unlock m ms)
    then have "unprinted s' q = unprinted s q" for q by (auto simp: unprinted_def)
    moreover have m: "print_mutex s = Some p" using own(1)[of p] unlock(2) by simp
    moreover have "round_at s q = Locking" if "q \<noteq> p" for q using own(1)[of q] m that by auto
    ultimately show ?thesis using own unlock sh unfolding printers_inv_def by auto
  qed
qed

lemma printers_progress:
  assumes i: "printers_inv s" and nf: "\<not> printers_joined s"
  shows "\<exists>s'. print_step s s'"
proof -
  have own: "(round_at s q \<noteq> Locking) = (print_mutex s = Some q)" "round_at s q \<noteq> Locking \<Longrightarrow> message_at s q \<noteq> []" for q
    using i by (simp_all add: printers_inv_def)
  obtain p where p: "message_at s p \<noteq> []" "print_mutex s = None \<or> round_at s p \<noteq> Locking"
  proof (cases "print_mutex s")
    case None
    then show ?thesis using nf that by (auto simp: printers_joined_def)
  next
    case (Some q)
    then show ?thesis using own[of q] that[of q] by auto
  qed
  then have "\<exists>s'. subroutine3 p s = Some s'"
    by (cases "round_at s p") (auto simp: subroutine3_def split: list.splits)
  then show ?thesis by (blast intro: prints_on)
qed

definition rounds_left :: "printers_t \<Rightarrow> printer \<Rightarrow> nat" where
  "rounds_left s p = 3 * length (message_at s p) - (case round_at s p of Locking \<Rightarrow> 0 | Printing \<Rightarrow> 1 | Unlocking \<Rightarrow> 2)"

definition printers_rank :: "printers_t \<Rightarrow> nat" where
  "printers_rank s = rounds_left s Foo + rounds_left s Bar"

lemma printers_decrease:
  assumes "print_step s s'"
  shows "printers_rank s' < printers_rank s"
proof -
  obtain p where t: "subroutine3 p s = Some s'" using assms by (rule print_stepE)
  have "rounds_left s' p < rounds_left s p \<and> (\<forall>q. q \<noteq> p \<longrightarrow> rounds_left s' q = rounds_left s q)"
    using t by (cases rule: round_cases) (auto simp: rounds_left_def)
  then show ?thesis by (cases p) (auto simp: printers_rank_def)
qed

interpretation pr: terminating_system "\<lambda>s. s = main3" print_step printers_inv printers_joined printers_rank
  by unfold_locales (simp_all add: printers_start printers_step printers_progress printers_decrease)

lemma joined_output:
  assumes "printers_inv s" and "printers_joined s"
  shows "print_screen s \<in> shuffles (messages Foo) (messages Bar)"
proof -
  have "unprinted s p = []" for p
    using assms(2) by (cases p) (simp_all add: printers_joined_def unprinted_def)
  moreover obtain xs ys where "xs @ unprinted s Foo = messages Foo" "ys @ unprinted s Bar = messages Bar" "print_screen s \<in> shuffles xs ys"
    using assms(1) by (auto simp: printers_inv_def)
  ultimately show ?thesis by (simp del: messages.simps)
qed

end
