(* ===== verification/Spec2Isabelle.thy ===== *)
theory Spec2Isabelle
  imports Samples Proxy_Run Pager_Run Message_Program Program18 Ping_Processes Socket_Demos Thread_Cancel Lab_Samples Handler_Progress Monitor_Mains Philosophers22 List_Program Pi_Barrier Old_Request Printers
begin

text \<open>
  A verification library for the programs of this repository: an HTTP proxy with its libraries
  (\<open>src/proxy\<close>), the proxy it grew out of (\<open>src/proxy/trash/proxy.c\<close>), a pager for HTTP responses
  (\<open>src/http\<close>) and a collection of programs on POSIX threads (\<open>src/task*.c\<close>, \<open>src/tasks17_20\<close>,
  \<open>src/task25_26\<close>, \<open>src/cmp_test\<close>).

  \<^bold>\<open>Common ground.\<close> \<open>Prelude\<close> has the result type: a C function returns a value or ends in a fault, \<open>Exit\<close>
  (the assertion macros, or a signal), \<open>Undefined\<close> (undefined behaviour) or \<open>Diverge\<close> (no return). \<open>safe m P\<close> says
  that \<open>m\<close> is neither undefined nor endless and that a value it returns satisfies \<open>P\<close>; a process that
  exits through an assertion counts as safe, so statements about \<open>safe\<close> allow that memory is refused.
  \<open>undefined_when D m P\<close> says that \<open>m\<close> is undefined if \<open>D\<close> holds and \<open>safe m P\<close> otherwise.
  \<open>size_t\<close> is a natural number with the operations \<open>sz_add\<close>, \<open>sz_sub\<close>, \<open>sz_mul\<close> that wrap at
  \<open>2 ^ 64\<close>; signed numbers are integers whose overflow is \<open>Undefined\<close> where the code can reach it. The
  allocator is a predicate on sizes. \<open>Transition\<close> has reachable states and the locales
  \<open>safe_system\<close>, \<open>progressing_system\<close> and \<open>terminating_system\<close>, interpreted on every program of several
  threads; \<open>Pthread\<close> is the default mutex as the thread that calls sees it, with the macros around the calls.

  \<^bold>\<open>The proxy.\<close> In the order of the calls, bottom up:
  \<open>Cvector\<close> (\<open>cvector_def.h\<close>, \<open>cvector_impl.h\<close>: blocks of cells that may be uninitialised, growth,
  removal); \<open>Cstring\<close> (strings in a block, \<open>strstr\<close>, \<open>strcmp\<close>, \<open>strtol\<close>, \<open>memcpy\<close> into new blocks);
  \<open>Http_Parser\<close> (\<open>http_header_parser.c\<close>); \<open>Hash_Map\<close> (\<open>hash_map.c\<close> over a heap of keys and values);
  \<open>Socket_Utils\<close> (\<open>socket_utils.c\<close>); \<open>Connection_Handler\<close> (\<open>connection_handler.c\<close>: the context as a
  record, every step of its state machine, \<open>handle\<close>); \<open>Request_Key\<close> (\<open>request_hash\<close>, \<open>request_equals\<close>
  of \<open>proxy.c\<close>); \<open>Proxy_Main\<close> (\<open>proxy.c\<close>: one round of the poll loop over all contexts) and
  \<open>Proxy_Run\<close> (the loop from its start: what every round keeps, to which client the traffic in the log belongs,
  and the 101st client). System calls
  are not code of the repository: their results are an argument (\<open>env\<close>), and what is read, written,
  opened and closed is a log of events. The lemmas on top:
  \<open>Handler_Buffers\<close> (a buffer holds the bytes received; the header loop computes \<open>header_lines\<close> of them,
  however they were split; the chunk loop ends and agrees with the encoding of chunks),
  \<open>Handler_Cache\<close> (what is stored is found again), \<open>Handler_Invariant\<close> and \<open>Handler_Run\<close> (the invariant
  \<open>conn\<close> that ties context, buffers and log together is kept by every step), \<open>Handler_Frame\<close> (no step changes
  the client descriptor), \<open>Handler_Relay\<close> (runs of
  events relay prefixes, and everything when they end as handled) and \<open>Handler_Progress\<close> (requests and
  responses get out within as many events as there are bytes).
  The statements on \<open>handle\<close>, on whole connections and on \<open>main\<close> carry the assumptions of \<open>event_fine\<close>: allocations
  up to the size of the data are granted, the resolver answers with IPv4 addresses, a new socket is not
  the descriptor of the client, and no chunk size read exceeds \<open>LONG_MAX - 2\<close>. Under them undefined
  behaviour is characterised exactly: it comes from a failing first \<open>write\<close> of a complete response
  (\<open>first_write_fails\<close>, \<open>write_fails\<close>, \<open>rounds_break\<close>) and from nothing else.
  \<open>Old_Proxy\<close> and \<open>Old_Request\<close> are the first proxy: its sockets deliver a list of arrivals (data,
  timeouts, errors, the end), \<open>read_req\<close> reads a request whatever the split, and a timeout or an early
  end breaks it.

  \<^bold>\<open>The other programs.\<close> \<open>Pager\<close> and \<open>Pager_Run\<close> are \<open>http/28.c\<close>, one
  round and the whole program. \<open>Str_Comp\<close> is \<open>str_comp\<close> of \<open>cmp_test\<close> and
  \<open>task17.c\<close>. \<open>List17\<close> and \<open>List18\<close> are the lists of \<open>task17.c\<close> and \<open>task18.c\<close> over an explicit heap of
  nodes, with pointers to pointers as slots; \<open>List_Program\<close> is the whole of \<open>task17.c\<close>, \<open>List18\<close> has the protocol by which the threads of \<open>task18.c\<close> exclude
  each other; \<open>Sorters18\<close> has its sorting threads side by side, each mutex a step of its own, and
  \<open>Program18\<close> the whole program against a specification of its listings. \<open>Blocking_Queue\<close> is the ring buffer of \<open>task26\<close>; the locale \<open>bounded_fifo\<close> is what its
  clients rely on, and \<open>Message_Program\<close> is \<open>task25_26/task.c\<close>, its main and its ten threads. \<open>Dinner\<close> is
  how \<open>main\<close> seats the philosophers of \<open>task10.c\<close> (\<open>Philosophers\<close>) and of \<open>task22.c\<close> (\<open>Philosophers22\<close>), with
  the locale \<open>dinner\<close> that turns the laws of a full table into those of the program, \<open>Ping_Pong\<close> is \<open>task14.c\<close> and the game of \<open>task16a.c\<close>, \<open>Ping_Processes\<close> its two
  processes with the names of their semaphores, \<open>Thread_Cancel\<close> is \<open>task4.c\<close> and \<open>task5.c\<close>, \<open>Socket_Demos\<close> is
  \<open>http/demo.c\<close> with \<open>server.c\<close> and \<open>client.c\<close> of \<open>proxy/trash\<close>, \<open>Monitor\<close> is \<open>task12_.c\<close>,
  \<open>Monitor_Pair\<close> is \<open>task12.c\<close>, \<open>Monitor_Mains\<close> their starts with the calls that may fail, \<open>Printers\<close> is \<open>task2.c\<close> and \<open>task3.c\<close>, \<open>Pi_Terms\<close> is \<open>task8.c\<close> and \<open>Pi_Barrier\<close> is \<open>task9.c\<close>. A step of these
  systems is what one thread does between two points where another one may run; which thread a
  signal wakes, and when a wait ends without one, is not determined. \<open>Samples\<close> and \<open>Lab_Samples\<close> hold
  concrete states at which the properties below are applied.

  \<^bold>\<open>Bounds and fuel.\<close> Loops whose end is a property of the data have fuel. \<open>chunk_loop\<close> gets two rounds
  more than the block has cells, and \<open>chunk_loop_enough\<close> shows that this suffices; the growth loop of a
  vector, the list traversals, \<open>sort_list\<close> and the pager have lemmas for the fuel their data needs, or
  show that no fuel is enough. The reading loops of the first proxy end only if the peer goes on: there
  the fuel is one more than the number of pieces. The loops of the threads keep the constants of the
  code (\<open>ROUNDS\<close>, \<open>COUNT_OF_LOOPS\<close>, \<open>STOP_POINTS\<close>).

  \<^bold>\<open>Not modelled.\<close> Output to the terminal other than the lines of the threads, delays, thread and mutex
  attributes, failing \<open>pthread_create\<close> (other than in \<open>task12.c\<close>, \<open>task17.c\<close> and the first one of \<open>task12_.c\<close>) and \<open>join\<close>, and \<open>free\<close> where nothing is reachable afterwards. The
  blocks under \<open>CACHED\<close> and \<open>KEEP_ALIVE\<close> of the handler, which are not compiled. The arithmetic on
  \<open>double\<close> of \<open>task8.c\<close> and \<open>task9.c\<close> is a parameter, without distinguishing its two precisions; the
  distance from pi is for exact arithmetic. \<open>task20.c\<close> repeats \<open>task18.c\<close>, and \<open>http/30.c\<close> repeats
  \<open>http/28.c\<close>, around code that does not compile. In \<open>task17.c\<close> a run ends with a sort that never returns; what
  the signal handler could still do beside it is left out. \<open>test.c\<close> has no logic of its own.
\<close>

section \<open>The proxy: one invocation of the handler\<close>




section \<open>The proxy: whole connections\<close>




section \<open>The proxy: parsing what arrives in pieces\<close>

text \<open>
  C5. The header loop may be interrupted anywhere: when it stopped because the bytes
  \<open>bs\<close> ended inside a line, resuming it with more bytes ends with the same status, the same
  position and the same headers as one pass over all the bytes.
\<close>

theorem headers_resume:
  assumes "holds v bs" and "holds v' (bs @ rest)" and "bs \<noteq> []" and "NUL \<notin> set (bs @ rest)"
    and "pos \<le> length bs" and "al_ok al" and "grants_upto al (length (bs @ rest))" and "headers_are h hs"
    and "headers_loop al (ptr v) pos h = Inr (NO_END_OF_LINE, pos1, h1)"
  shows "safe (headers_loop al (ptr v') pos1 h1) (\<lambda>(st, p, h2). \<forall>st' p' h2'.
    headers_loop al (ptr v') pos h = Inr (st', p', h2') \<longrightarrow>
      st' = st \<and> p' = p \<and> (\<exists>hs2. headers_are h2 hs2 \<and> headers_are h2' hs2))"
proof -
  let ?all = "bs @ rest"
  have nul: "c_string (drop p bs) = drop p bs" "c_string (drop p ?all) = drop p ?all" for p
    using assms(4) by (auto simp: takeWhile_eq_all_conv dest: in_set_dropD)
  have s1: "cstring_at (ptr v) pos = Inr (drop pos bs)"
    using holds_string[OF assms(1,3,5)] unfolding nul .
  have loop: "safe (headers_loop al (ptr v') p g) (loop_post p gs (drop p ?all))"
    if "p \<le> length bs" "headers_are g gs" for p g gs
  proof (rule headers_loop_safe[OF _ _ _ assms(6) that(2)])
    show "cstring_at (ptr v') p = Inr (drop p ?all)"
      using holds_string[OF assms(2), of p] that(1) assms(3) unfolding nul by simp
    show "in_memory (drop p ?all)" by (rule in_memory_drop[OF holdsD(3)[OF assms(2)]])
    show "grants_upto al (length (drop p ?all))" by (rule grants_upto_mono[OF assms(7)]) simp
  qed
  obtain n hs' where n: "header_lines (drop pos bs) = (NO_END_OF_LINE, n, hs')" "pos1 = pos + n"
      "headers_are h1 (hs @ hs')"
  proof -
    have "safe (headers_loop al (ptr v) pos h) (loop_post pos hs (drop pos bs))"
      by (rule headers_loop_safe[OF s1 _ _ assms(6,8)])
        (use holdsD(3)[OF assms(1)] grants_upto_mono[OF assms(7)] in simp_all)
    then show ?thesis using that assms(9) by (auto simp: loop_post_def split: prod.splits)
  qed
  have len: "pos1 \<le> length bs" using header_lines_bound[of "drop pos bs"] n(1,2) assms(5) by simp
  have "drop n (drop pos bs @ rest) = drop pos1 ?all" using len n(2) by (simp add: add.commute)
  then have whole: "header_lines (drop pos ?all) =
      (case header_lines (drop pos1 ?all) of (st, m, hs2) \<Rightarrow> (st, n + m, hs' @ hs2))"
    using header_lines_resume[OF n(1), of rest] assms(5) by simp
  note one_pass = loop[OF assms(5,8)]
  obtain st0 m hs2 where m: "header_lines (drop pos1 ?all) = (st0, m, hs2)" by (cases "header_lines (drop pos1 ?all)")
  have "safe (headers_loop al (ptr v') pos1 h1)
      (\<lambda>(st, p, h2). st = st0 \<and> p = pos1 + m \<and> headers_are h2 ((hs @ hs') @ hs2))"
    using loop[OF len n(3)] unfolding loop_post_def m prod.case .
  moreover have "st' = st0 \<and> p' = pos1 + m \<and> headers_are h2' ((hs @ hs') @ hs2)"
    if "headers_loop al (ptr v') pos h = Inr (st', p', h2')" for st' p' h2'
    using one_pass that n(2) unfolding loop_post_def whole m prod.case by simp
  ultimately show ?thesis by (elim safe_mono) auto
qed

theorem headers_resume_witness:
  "safe (headers_loop generous (ptr (buffer_of (''ab'' @ CRLF))) 0 (vec_of [] 0)) (\<lambda>(st, p, h2). \<forall>st' p' h2'.
    headers_loop generous (ptr (buffer_of (''ab'' @ CRLF))) 0 (vec_of [] 0) = Inr (st', p', h2') \<longrightarrow>
      st' = st \<and> p' = p \<and> (\<exists>hs2. headers_are h2 hs2 \<and> headers_are h2' hs2))"
proof (rule headers_resume[where v = "buffer_of ''ab''" and bs = "''ab''" and rest = CRLF and hs = "[]"])
  show "headers_loop generous (ptr (buffer_of ''ab'')) 0 (vec_of [] 0) = Inr (NO_END_OF_LINE, 0, vec_of [] 0)"
    using holds_string[OF holds_buffer_of, of "''ab''" 0]
    by (simp add: headers_loop.simps parse_next_header_def CRLF_def)
  show "headers_are (vec_of [] 0) []"
    by (simp add: headers_are_def vec_of_represents ADDRESS_SPACE_eq)
  show "grants_upto generous (length (''ab'' @ CRLF))"
    by (simp add: grants_upto_def generous_def ADDRESS_SPACE_eq)
qed (simp_all add: holds_buffer_of CRLF_def)

text \<open>
  C6. A request head written out, whatever follows it, is read back: the parser of
  the request line gives method, URI and version, and from where it stops the header
  loop ends at the empty line, just behind the head, with exactly the headers written.
\<close>

theorem request_read_back:
  assumes "holds v (request_line m u w @ header_text hs @ CRLF @ body)"
    and "NUL \<notin> set (request_line m u w @ header_text hs @ CRLF @ body)"
    and "CHR '' '' \<notin> set m" and "CHR '' '' \<notin> set u" and "one_line (m @ '' '' @ u @ '' '' @ w)"
    and "\<forall>tv \<in> set hs. header_ok tv" and "al_ok al" and "headers_are (req_headers r) []"
    and "grants_upto al (length (request_line m u w @ header_text hs @ CRLF @ body))"
  shows "safe (bind_r (cstring_at (ptr v) 0) (\<lambda>cur. bind_r (parse_req_type al cur r) (\<lambda>(st1, n, r').
      bind_r (headers_loop al (ptr v) n (req_headers r')) (\<lambda>(st, p, hs'). Inr (st1, st, p, r'\<lparr>req_headers := hs'\<rparr>)))))
    (\<lambda>(st1, st, p, r'). st1 = OK \<and> st = END_OF_HEADER \<and> p = length (request_line m u w @ header_text hs @ CRLF) \<and>
      req_type r' = Str m \<and> uri r' = Str u \<and> req_version r' = Str w \<and> headers_are (req_headers r') hs)"
proof -
  let ?line = "request_line m u w" and ?rest = "header_text hs @ CRLF @ body"
  let ?all = "?line @ ?rest" and ?r = "r\<lparr>req_type := Str m, uri := Str u, req_version := Str w\<rparr>"
  have "c_string ?all = ?all" "c_string ?rest = ?rest"
    unfolding takeWhile_eq_all_conv using assms(2) by (intro ballI; auto simp only: set_append)+
  then have str: "cstring_at (ptr v) 0 = Inr ?all" "cstring_at (ptr v) (length ?line) = Inr ?rest"
    using holds_string[OF assms(1), of 0] holds_string[OF assms(1), of "length ?line"] by (simp_all add: CRLF_def)
  have mem: "in_memory ?all" using holdsD(3)[OF assms(1)] by (simp add: in_memory_def)
  have line: "parse_req_type al ?all r = Inr (OK, length ?line, ?r)"
    by (rule parse_req_type_request_line[OF mem assms(3-5) grants_upto_mono[OF assms(9)]]) simp
  have loop: "safe (headers_loop al (ptr v) (length ?line) (req_headers r)) (loop_post (length ?line) [] ?rest)"
  proof (rule headers_loop_safe[OF str(2) _ _ assms(7,8)])
    show "in_memory ?rest" using mem by (simp add: in_memory_def)
    show "grants_upto al (length ?rest)" by (rule grants_upto_mono[OF assms(9)]) simp
  qed
  have "safe (bind_r (headers_loop al (ptr v) (length ?line) (req_headers ?r)) (\<lambda>(st, p, hs'). Inr (OK, st, p, ?r\<lparr>req_headers := hs'\<rparr>)))
    (\<lambda>(st1, st, p, r'). st1 = OK \<and> st = END_OF_HEADER \<and> p = length (?line @ header_text hs @ CRLF) \<and>
      req_type r' = Str m \<and> uri r' = Str u \<and> req_version r' = Str w \<and> headers_are (req_headers r') hs)"
  proof (rule safe_bind)
    show "safe (headers_loop al (ptr v) (length ?line) (req_headers ?r)) (loop_post (length ?line) [] ?rest)" using loop by simp
  qed (auto simp: loop_post_def header_lines_header_text[OF assms(6)])
  then show ?thesis by (simp only: str(1) bind_r_simps line prod.case)
qed

theorem request_read_back_witness:
  "safe (bind_r (cstring_at (ptr (buffer_of (request_line ''GET'' ''/a'' ''HTTP/1.0'' @ header_text [(''Host'', ''a.b'')] @ CRLF @ ''xy''))) 0)
      (\<lambda>cur. bind_r (parse_req_type generous cur (a_request\<lparr>req_headers := vec_of [] 0\<rparr>)) (\<lambda>(st1, n, r').
      bind_r (headers_loop generous (ptr (buffer_of (request_line ''GET'' ''/a'' ''HTTP/1.0'' @ header_text [(''Host'', ''a.b'')] @ CRLF @ ''xy'')))
        n (req_headers r')) (\<lambda>(st, p, hs'). Inr (st1, st, p, r'\<lparr>req_headers := hs'\<rparr>)))))
    (\<lambda>(st1, st, p, r'). st1 = OK \<and> st = END_OF_HEADER \<and>
      p = length (request_line ''GET'' ''/a'' ''HTTP/1.0'' @ header_text [(''Host'', ''a.b'')] @ CRLF) \<and>
      req_type r' = Str ''GET'' \<and> uri r' = Str ''/a'' \<and> req_version r' = Str ''HTTP/1.0'' \<and>
      headers_are (req_headers r') [(''Host'', ''a.b'')])"
proof (rule request_read_back[where body = "''xy''"])
  show "\<forall>tv \<in> set [(''Host'', ''a.b'')]. header_ok tv" by (simp add: header_ok_def one_line_def CRLF_def)
  show "headers_are (req_headers (a_request\<lparr>req_headers := vec_of [] 0\<rparr>)) []" by (simp add: a_request_def headers_are_def vec_of_represents ADDRESS_SPACE_eq)
  show "one_line (''GET'' @ '' '' @ ''/a'' @ '' '' @ ''HTTP/1.0'')" by (simp add: one_line_def CRLF_def)
qed (simp_all add: holds_buffer_of request_line_def CRLF_def header_text_def header_line_def grants_upto_def generous_def ADDRESS_SPACE_eq)

text \<open>
  C4. The chunk loop on any part of a chunked body: when \<open>n\<close> bytes of the text have
  arrived and the loop stands where an earlier part left it, it returns without fault, takes no
  byte beyond what arrived, stands again where it can go on, and reports the end exactly when
  the whole body has arrived.
\<close>

theorem chunked_body_end:
  assumes "in_memory T" and "n \<le> length T" and "0 < n" and "holds v (take n T)" and "pos \<le> n"
    and "chunk_state (drop pos T) csz rd"
  shows "\<exists>fin p csz' rd'. chunk_loop (blk_len (ptr v) + 2) (ptr v) n pos csz rd = Inr (fin, p, csz', rd') \<and>
    fin = (n = length T) \<and> p \<le> n \<and> (fin \<longrightarrow> p = n) \<and> (\<not> fin \<longrightarrow> chunk_state (drop p T) csz' rd')"
proof -
  have "length (take n T) \<le> blk_len (ptr v)"
    using representsD(1,3)[OF holdsD(1)[OF assms(4)]] by (simp only:)
  then have "n - pos + (if csz = -1 then 0 else 1) < blk_len (ptr v) + 2"
    using assms(2) by (cases "csz = -1") simp_all
  from chunk_loop_chunked[OF assms this] show ?thesis by (auto simp: chunk_post_def)
qed

theorem chunked_body_end_witness:
  "\<exists>fin p csz' rd'.
    chunk_loop (blk_len (ptr (buffer_of (take 8 (''x'' @ chunked [''hello''])))) + 2)
      (ptr (buffer_of (take 8 (''x'' @ chunked [''hello''])))) 8 1 (-1) 0 = Inr (fin, p, csz', rd') \<and>
    fin = (8 = length (''x'' @ chunked [''hello''])) \<and> p \<le> 8 \<and> (fin \<longrightarrow> p = 8) \<and>
    (\<not> fin \<longrightarrow> chunk_state (drop p (''x'' @ chunked [''hello''])) csz' rd')"
proof (rule chunked_body_end)
  show "chunk_state (drop 1 (''x'' @ chunked [''hello''])) (-1) 0"
    by (auto simp: chunk_state_def chunks_ok_def intro!: exI[of _ "[''hello'']"])
  show "holds (buffer_of (take 8 (''x'' @ chunked [''hello'']))) (take 8 (''x'' @ chunked [''hello'']))"
    by (rule holds_buffer_of) simp
qed (simp_all add: chunked_def chunk_def hex.simps CRLF_def in_memory_def ADDRESS_SPACE_eq)

section \<open>The proxy: the cache\<close>

text \<open>What a lookup of the request at address \<open>a\<close> yields: the buffer in the value cell it finds.\<close>

definition world_get :: "world \<Rightarrow> nat \<Rightarrow> char vec option res" where
  "world_get w a =
     bind_r (hash_map_get (w_hm w) (w_cells w) a) (\<lambda>found.
     Inr (case found of None \<Rightarrow> None | Some va \<Rightarrow> val_at (w_cells w) va))"

lemma world_get_cached:
  assumes "world_is w P" and "key_at (w_cells w) a = Some q" and "valid_key q"
  shows "world_get w a = Inr (cached w P q)"
  using rk.hash_map_get_table[of "w_hm w" "w_cells w" P a q] assms
  by (cases "position request_hash same_key (w_cells w) P q")
    (auto simp: world_get_def world_is_def cached_def lookup_def)

text \<open>
  C7. After \<open>cache\<close>, \<open>hash_map_get\<close> finds for every request with the same host, type,
  version and URI a buffer that holds the response that was cached, and for every other request
  exactly what it found before; the context is not changed.
\<close>

theorem cache_then_get:
  assumes "world_is w P" and "al_ok al" and "al VPAIR_SIZE" and "live_request (request ctx) hs"
    and "request_is (request ctx) k hs" and "represents CHAR_SIZE (sbuff ctx) s"
  shows "safe (cache al (ctx, w)) (\<lambda>(ctx', w'). ctx' = ctx \<and>
    (\<forall>a q. key_at (w_cells w') a = Some q \<and> key_at (w_cells w) a = Some q \<and> valid_key q \<longrightarrow>
      (if has_view q k then \<exists>v. world_get w' a = Inr (Some v) \<and> represents CHAR_SIZE v s
       else world_get w' a = world_get w a)))"
proof (rule safe_mono[OF cache_safe[OF assms]])
  fix st'
  assume post: "cache_post (request ctx) s (ctx, w) P st'"
  obtain ctx' w' where st': "st' = (ctx', w')" by (cases st')
  obtain P' v where P': "world_is w' P'" "represents CHAR_SIZE v s" "ctx' = ctx"
      "\<forall>q. valid_key q \<longrightarrow> cached w' P' q = (if same_key (request ctx) q then Some v else cached w P q)"
    using post by (auto simp: cache_post_def st')
  have k: "has_view (request ctx) k" using assms(5) by (auto simp: has_view_def)
  have same: "same_key (request ctx) q = has_view q k" if vq: "valid_key q" for q
  proof -
    obtain l where l: "has_view q l" using vq unfolding valid_key_def by blast
    show ?thesis unfolding same_key_view[OF k l] using l has_view_unique[OF l] by blast
  qed
  have "if has_view q k then \<exists>v. world_get w' a = Inr (Some v) \<and> represents CHAR_SIZE v s
       else world_get w' a = world_get w a"
    if q: "key_at (w_cells w') a = Some q" "key_at (w_cells w) a = Some q" "valid_key q" for a q
    using world_get_cached[OF P'(1) q(1,3)] world_get_cached[OF assms(1) q(2,3)] P'(2,4) same[OF q(3)] q(3)
    by simp
  then show "case st' of (ctx', w') \<Rightarrow> ctx' = ctx \<and>
    (\<forall>a q. key_at (w_cells w') a = Some q \<and> key_at (w_cells w) a = Some q \<and> valid_key q \<longrightarrow>
      (if has_view q k then \<exists>v. world_get w' a = Inr (Some v) \<and> represents CHAR_SIZE v s
       else world_get w' a = world_get w a))"
    unfolding st' prod.case using P'(3) by blast
qed

theorem cache_then_get_witness:
  "safe (cache generous (a_context SENDING_RESP ''q'' ''answer'' 0, a_world)) (\<lambda>(ctx', w').
    ctx' = a_context SENDING_RESP ''q'' ''answer'' 0 \<and>
    (\<forall>a q. key_at (w_cells w') a = Some q \<and> key_at (w_cells a_world) a = Some q \<and> valid_key q \<longrightarrow>
      (if has_view q (''a.b'', ''GET'', ''HTTP/1.1'', ''/'')
       then \<exists>v. world_get w' a = Inr (Some v) \<and> represents CHAR_SIZE v ''answer''
       else world_get w' a = world_get a_world a)))"
proof (rule cache_then_get[OF a_world_is al_ok_generous])
  show "generous VPAIR_SIZE" by (simp add: generous_def VPAIR_SIZE_def ADDRESS_SPACE_eq)
  show "live_request (request (a_context SENDING_RESP ''q'' ''answer'' 0)) [(''Host'', ''a.b'')]"
    "request_is (request (a_context SENDING_RESP ''q'' ''answer'' 0)) (''a.b'', ''GET'', ''HTTP/1.1'', ''/'')
       [(''Host'', ''a.b'')]"
    using a_request_live a_request_is by (simp_all add: a_context_def)
  show "represents CHAR_SIZE (sbuff (a_context SENDING_RESP ''q'' ''answer'' 0)) ''answer''"
    using holdsD(1)[OF holds_buffer_of] by (simp add: a_context_def)
qed

text \<open>
  C8. \<open>request_equals\<close> on two requests whose host, type, version and URI are
  present returns whether the four strings are equal.
\<close>

theorem request_equals_is_equality:
  assumes "request_is a (h, t, v, u) hs" and "request_is b (h', t', v', u') hs'"
  shows "request_equals a b = Inr (h = h' \<and> t = t' \<and> v = v' \<and> u = u')"
  using request_equals_view[of a "(h, t, v, u)" b "(h', t', v', u')"] assms
  by (auto simp: has_view_def)

theorem request_equals_is_equality_witness: "request_equals a_request a_request = Inr True"
  using request_equals_is_equality[OF a_request_is a_request_is] by simp

section \<open>The proxy: faults the model exhibits\<close>

text \<open>
  C12. When a complete response waits to be sent, nothing was sent yet
  and the write to the client fails, \<open>handle\<close> destroys the context twice: the second
  \<open>request_destroy\<close> frees freed strings. If the write fails because the client has closed its end, the
  process does not get there: SIGPIPE, which the proxy does not handle, ends it.
\<close>

theorem failed_first_write_destroys_twice:
  assumes "conn L ctx c s" and "handling_step ctx = SENDING_RESP" and "sended ctx = 0"
    and "e_write e \<le> 0" and "fd = client_fd ctx" and "has_event events POLLOUT"
  shows "handle al e fd events (ctx, w) = Inl (if raises_sigpipe e then Exit else Undefined)"
  by (rule send_resp_destroys_twice[OF assms])

theorem failed_first_write_destroys_twice_witness:
  "handle generous (an_env None (-1)) 5 POLLOUT (a_context SENDING_RESP ''q'' ''answer'' 0, a_world) = Inl Undefined"
proof -
  have "handle generous (an_env None (-1)) 5 POLLOUT (a_context SENDING_RESP ''q'' ''answer'' 0, a_world) =
      Inl (if raises_sigpipe (an_env None (-1)) then Exit else Undefined)"
    by (rule failed_first_write_destroys_twice[where L = "a_log ''q'' ''answer'' 0" and c = "''q''" and s = "''answer''"])
      (simp_all add: a_context_conn, simp_all add: a_context_def an_env_def has_event_def POLLOUT_def)
  then show ?thesis by (simp add: an_env_def)
qed

text \<open>
  C11. Fewer than 100 connections are in use, no two of them with a descriptor in common, and one
  of them, which satisfies the invariant of its connection, is relaying the body of a response
  (\<open>PARSING_RESP_BODY\<close>) with both its descriptors in \<open>fds\<close>, where
  the client's comes directly before the server's. When bytes are waiting, the client's descriptor is
  ready and the write to it fails, the whole process ends: by SIGPIPE, or because the loop of \<open>main\<close> removes the
  context and then exits at the server's descriptor, whether or not that one has events.
\<close>

theorem client_gone_ends_proxy:
  assumes "contexts_are (context1 p) (contexts_count p) xs" and "blk_len (context1 p) = MAX_CONTEXTS"
    and "length xs < MAX_CONTEXTS" and "k < length xs"
    and "\<And>j. j < length xs \<Longrightarrow> j \<noteq> k \<Longrightarrow> \<not> owns (client_fd (xs ! k)) (xs ! j) \<and> \<not> owns (server_fd (xs ! k)) (xs ! j)"
    and "conn L (xs ! k) c s" and "handling_step (xs ! k) = PARSING_RESP_BODY"
    and "map pfd (fds_of (xs ! k)) = [pfd f, pfd g]"
    and "wanted (xs ! k) f" and "e_write (envs i) \<le> 0" and "sended (xs ! k) < length s"
  shows "serve_fds al envs i (f # g # fs) p = Inl Exit"
  using assms(1-7,10,11) fds_of_both[OF assms(8)] assms(9) by (intro serve_gone_exits) simp_all

theorem client_gone_ends_proxy_witness:
  "serve_fds generous (\<lambda>_. an_env None (-1)) 1
     [\<lparr>pfd = 5, pevents = POLLOUT, revents = POLLOUT\<rparr>, \<lparr>pfd = 7, pevents = POLLIN, revents = 0\<rparr>]
     \<lparr>servsock = 3, fds = [],
       context1 = \<lparr>blk_len = MAX_CONTEXTS,
         blk_cell = (\<lambda>i. [Some (new_context\<lparr>client_fd := 9\<rparr>), Some (a_context PARSING_RESP_BODY ''q'' ''answer'' 2)] ! i)\<rparr>,
       contexts_count = 2, shared = a_world\<rparr> = Inl Exit"
proof (rule client_gone_ends_proxy[where xs = "[new_context\<lparr>client_fd := 9\<rparr>, a_context PARSING_RESP_BODY ''q'' ''answer'' 2]"
        and k = 1 and L = "a_log ''q'' ''answer'' 2" and c = "''q''" and s = "''answer''"])
  fix j :: nat
  assume "j < length [new_context\<lparr>client_fd := 9\<rparr>, a_context PARSING_RESP_BODY ''q'' ''answer'' 2]" "j \<noteq> 1"
  then have "j = 0" by simp
  then show "\<not> owns (client_fd ([new_context\<lparr>client_fd := 9\<rparr>, a_context PARSING_RESP_BODY ''q'' ''answer'' 2] ! 1))
      ([new_context\<lparr>client_fd := 9\<rparr>, a_context PARSING_RESP_BODY ''q'' ''answer'' 2] ! j) \<and>
    \<not> owns (server_fd ([new_context\<lparr>client_fd := 9\<rparr>, a_context PARSING_RESP_BODY ''q'' ''answer'' 2] ! 1))
      ([new_context\<lparr>client_fd := 9\<rparr>, a_context PARSING_RESP_BODY ''q'' ''answer'' 2] ! j)"
    by (simp add: owns_def new_context_def a_context_def)
qed (simp_all add: a_context_conn contexts_are_def MAX_CONTEXTS_def less_Suc_eq nth_Cons split: nat.split,
     simp_all add: a_context_def an_env_def wanted_def has_event_def POLLOUT_def POLLIN_def fds_of_def)

section \<open>The proxy: the event loop\<close>


text \<open>A client connects; in the next round the first piece of its request arrives.\<close>

definition a_round :: "(nat \<Rightarrow> int) \<Rightarrow> round_env" where
  "a_round revs = \<lparr>re_poll = 1, re_revents = revs, re_accept = 5, re_setsockopt = 0,
     re_env = (\<lambda>_. an_env (Some ''GET / HTTP'') 1), re_junk = new_context\<rparr>"

definition connect_round :: round_env where
  "connect_round = a_round (\<lambda>i. if i = 0 then POLLIN else 0)"


lemma has_POLLIN: "has_event POLLIN POLLIN"
  by (simp add: has_event_def POLLIN_def)





text \<open>
  C10. Clients that connect one per round and send nothing are all accepted up to the
  hundredth; the next one makes \<open>main\<close> write its context behind the block of 100.
\<close>

theorem too_many_clients:
  assumes "al 1" and "list_all client_arrives rs"
  shows "if length rs \<le> MAX_CONTEXTS
    then \<exists>p. proxy_rounds al rs (proxy_start True sfd w) = Inr p \<and> contexts_count p = length rs
    else proxy_rounds al rs (proxy_start True sfd w) = Inl Undefined"
  using waiting_rounds[where al = al, OF start_waiting[of sfd w] assms]
  by (auto simp: waiting_def contexts_are_def split: if_splits)

theorem too_many_clients_witness:
  "(\<exists>p. proxy_rounds generous (replicate 100 connect_round) (proxy_start True 3 a_world) = Inr p \<and>
      contexts_count p = 100) \<and>
   proxy_rounds generous (replicate 101 connect_round) (proxy_start True 3 a_world) = Inl Undefined"
proof -
  have arr: "list_all client_arrives (replicate n connect_round)" for n
    by (auto simp: list_all_iff client_arrives_def connect_round_def a_round_def has_POLLIN)
  have al: "generous 1" by (simp add: generous_def ADDRESS_SPACE_eq)
  show ?thesis
    using too_many_clients[where al = generous and sfd = 3 and w = a_world, OF al arr[of 100]]
      too_many_clients[where al = generous and sfd = 3 and w = a_world, OF al arr[of 101]]
    by (simp add: MAX_CONTEXTS_def)
qed

section \<open>The proxy: vectors, buffers, strings and sockets\<close>

text \<open>
  C13. Every operation of the vector, whatever sizes \<open>realloc\<close> refuses:
  pushing appends, popping drops the last element, assigning changes one, the growth loop of
  \<open>_alloc2\<close> ends with the contents kept and room for \<open>n\<close> more elements, and the result is always well-formed.
  \<open>_remove\<close> drops the element at the index when the block has a spare cell; on a full vector its loop reads one
  element past the block.
\<close>

theorem vector_stays_well_formed:
  assumes "represents esz v xs" and "al_ok al"
  shows "safe (vector_push_back al esz v x) (\<lambda>v'. represents esz v' (xs @ [x])) \<and>
    safe (vector_alloc2 al esz v n) (\<lambda>v'. represents esz v' xs \<and> n \<le> capacity v' - length xs \<and> capacity v \<le> capacity v') \<and>
    (xs \<noteq> [] \<longrightarrow> represents esz (vector_pop_back v) (butlast xs) \<and> vector_back v = Inr (last xs)) \<and>
    (i < length xs \<longrightarrow> vector_get v i = Inr (xs ! i) \<and>
       (\<exists>v'. vector_assign v x i = Inr v' \<and> represents esz v' (xs[i := x])) \<and>
       (if length xs < capacity v
        then \<exists>v'. vector_remove v i = Inr v' \<and> represents esz v' (take i xs @ drop (Suc i) xs)
        else vector_remove v i = Inl Undefined))"
proof -
  have "safe (vector_alloc2 al esz v n) (\<lambda>v'. represents esz v' xs \<and> n \<le> capacity v' - length xs \<and> capacity v \<le> capacity v')"
    by (rule safe_mono[OF vector_alloc2_safe[OF assms]]) (simp add: has_room_def)
  moreover have "represents esz (vector_pop_back v) (butlast xs)" if "xs \<noteq> []"
    using vector_pop_back_represents[of esz v "butlast xs" "last xs"] assms(1) that by simp
  ultimately show ?thesis
    using vector_push_back_safe[OF assms] vector_back_represents[OF assms(1)] vector_get_represents[OF assms(1)]
      vector_assign_represents[OF assms(1), of i x] vector_remove_spec[OF assms(1), of i] by blast
qed

theorem vector_stays_well_formed_witness:
  "safe (vector_push_back generous 16 (vec_of [1, 2, 3 :: nat] 0) 4) (\<lambda>v'. represents 16 v' [1, 2, 3, 4]) \<and>
   safe (vector_alloc2 generous 16 (vec_of [1, 2, 3 :: nat] 0) 10001) (\<lambda>v'. represents 16 v' [1, 2, 3] \<and>
     10001 \<le> capacity v' - length [1, 2, 3 :: nat] \<and> capacity (vec_of [1, 2, 3 :: nat] 0) \<le> capacity v') \<and>
   represents 16 (vector_pop_back (vec_of [1, 2, 3 :: nat] 0)) [1, 2] \<and> vector_get (vec_of [1, 2, 3 :: nat] 0) 1 = Inr 2 \<and>
   vector_remove (vec_of [1, 2, 3 :: nat] 0) 1 = Inl Undefined"
proof -
  have r: "represents 16 (vec_of [1, 2, 3 :: nat] 0) [1, 2, 3]"
    by (rule vec_of_represents) (simp_all add: elem_size_def ADDRESS_SPACE_eq)
  have "\<not> 3 < capacity (vec_of [1, 2, 3 :: nat] 0)" by (simp add: vec_of_def)
  then show ?thesis using vector_stays_well_formed[OF r al_ok_generous, of 4 10001 1] by simp
qed

text \<open>
  C14. \<open>create_servsock\<close> succeeds exactly when all four calls do; when a call after
  \<open>socket\<close> fails, the socket stays open although the code names a \<open>close\<close> for that case.
\<close>

theorem servsock_leaks:
  "fst (create_servsock e port limit (sock, [])) =
     (if 0 \<le> se_socket e \<and> se_setsockopt e = 0 \<and> se_bind e = 0 \<and> se_listen e = 0 then SUCCESS else ERROR) \<and>
   Close fd \<notin> set (snd (snd (create_servsock e port limit (sock, []))))"
  using create_servsock_status[of e port limit "(sock, [])"] create_servsock_never_closes[where e = e and port = port and limit = limit and sock = sock and fd = fd, OF refl]
  by (cases "fst (create_servsock e port limit (sock, []))") auto

section \<open>The string comparison\<close>

text \<open>
  C15. The comparison with \<open>&&\<close> in its loop condition and the one with \<open>||\<close> are both
  \<open>strcmp\<close>, and read no byte behind a terminator.
\<close>

theorem comparisons_agree:
  assumes "cstring_ok s" and "cstring_ok t"
  shows "str_comp s t = Inr (comp_of (strcmp s t)) \<and> my_str_comp s t = str_comp s t"
  using str_comp_strcmp[OF assms] my_str_comp_strcmp[OF assms] by simp

theorem comparisons_agree_witness:
  "str_comp ''ab'' ''abc'' = Inr LESS \<and> my_str_comp ''ab'' ''abc'' = Inr LESS"
  using comparisons_agree[of "''ab''" "''abc''"] by (simp add: cstring_ok_def comp_of_def)

section \<open>The lists\<close>

text \<open>
  C16. The program of \<open>task17.c\<close> as a whole, for any sequence of lines and
  wake-ups of the sorting thread: what it prints and how it stands is what the program on
  the lines alone gives. An empty line prints the lines entered, the latest first; sorting
  changes nothing when the pairs it compares are in order, and otherwise it writes through a null
  pointer or never gives the mutex back, whatever the fuel; a failing \<open>malloc\<close> and the end of
  the input end the process with an error, SIGINT and the ten thousandth line with status 0.
\<close>

theorem list_program_runs:
  assumes "lheap l = Map.empty" and "list_all line_ok es" and "distinct (new_nodes es)" and "LINES17 < fuel"
  shows "program17 fuel e es l = (if start_fails e then ([], Faulted Exit) else lines17 es 0 [])"
  using main17_lines[OF list_init_holds, of 0 es l fuel] assms by (simp add: program17_start list_init_def)

theorem list_program_runs_witness:
  "program17 (LINES17 + 1) \<lparr>rc_mutex_init = 0, rc_create = 0, rc_sigemptyset = 0, rc_sigaction = 0\<rparr>
      [Input ''b.'' (Some 1), Input ''a.'' (Some 2), Wake, Input ''.'' None, Input ''c.'' (Some 3), Wake, Input ''.'' None]
      \<lparr>term_next = None, lcount = 0, lmutex = Unlocked, lheap = Map.empty\<rparr> =
    ([separator, ''a.'', ''b.'', separator], Faulted Diverge)"
proof -
  let ?es = "[Input ''b.'' (Some 1), Input ''a.'' (Some 2), Wake, Input ''.'' None, Input ''c.'' (Some 3), Wake, Input ''.'' None]"
  have "lines17 ?es 0 [] = ([separator, ''a.'', ''b.'', separator], Faulted Diverge)"
    by (simp add: LINES17_def comp_strings_def comp_of_def)
  moreover have "list_all line_ok ?es" by (simp add: cstring_ok_def)
  ultimately show ?thesis
    using list_program_runs[of "\<lparr>term_next = None, lcount = 0, lmutex = Unlocked, lheap = Map.empty\<rparr>" ?es "LINES17 + 1"]
    by (simp add: start_fails_def)
qed

text \<open>
  C17. The whole of \<open>task18.c\<close>, \<open>main\<close> beside its three sorting threads, in every interleaving and
  for every input: what \<open>main\<close> prints is at every moment the beginning of a session of the
  specification, where a listing shows every line entered so far between two separators, the
  latest first but for exchanges of the first two; no step is undefined, but for a thread that
  sorts before the first line was entered; sorting threads are never inside while \<open>main\<close> prints or
  inserts; when nobody is inside nobody waits and the list holds what the specification says; and while
  somebody is inside, someone inside can go on.
\<close>

theorem lists_are_shown:
  assumes "reachable program18_starts step_program18 p"
  shows "(\<exists>es ss. listings (session_of p @ es) ss) \<and>
    (running18 p \<longrightarrow>
      (subroutine18 t p = Inl f \<longrightarrow> f = Diverge \<or> f = Undefined \<and> entered_lines (session_of p) = []) \<and>
      main18 inp p \<noteq> Inl Undefined \<and>
      (updates18 (main_at p) \<longrightarrow> \<not> in_sort (threads p t)) \<and>
      (status (list_of p) = FREE \<longrightarrow> nobody_waits p \<and>
         (\<exists>ss. listings (session_of p) ss \<and> mset ss = mset (entered_lines (session_of p)) \<and> list18_holds (list_of p) ss)) \<and>
      (status (list_of p) \<noteq> FREE \<longrightarrow>
         (\<exists>u. in_sort (threads p u) \<and> subroutine18 u p \<noteq> Inl Diverge) \<or>
         updates18 (main_at p) \<and> (\<exists>i. input_ok18 i (list_of p) \<and> main18 i p \<noteq> Inl Diverge)))"
proof -
  have g: "session_ok p" "running18 p \<longrightarrow> program18_inv p"
    using prog18.reachable_inv[OF assms] by (simp_all add: program18_good_def)
  have "\<not> in_sort (threads p t)" if "running18 p" "updates18 (main_at p)"
    using updates_alone[of p t] g(2) that by blast
  moreover have "main18 inp p \<noteq> Inl Undefined" if "running18 p"
    using main18_fault[of p inp Undefined] g(2) that by auto
  ultimately show ?thesis
    using g program18_fault[of p t f] program18_progress[of p] program18_calm[of p] by (auto simp: session_ok_def)
qed

theorem lists_are_shown_witness:
  "list18_holds (free18 ''one'') [''one''] \<and>
    run18 (start_up18 @ pushes18 ''one'' 0) program18_begin =
      Inr \<lparr>list_of = free18 ''one'', threads = all18 (T_At Enter), main_at = M_Getline, lines_read = 1, history = [Entered ''one'']\<rparr>"
proof -
  let ?p = "\<lparr>list_of = free18 ''one'', threads = all18 (T_At Enter), main_at = M_Getline, lines_read = 1, history = [Entered ''one'']\<rparr>"
  have run: "run18 (start_up18 @ pushes18 ''one'' 0) program18_begin = Inr ?p"
    using first_push18_run[of "''one''"] by (simp add: run18_append start_up18_run)
  have "reachable program18_starts step_program18 ?p"
    by (rule reachable_steps[OF reach_start[where start = program18_starts and s = program18_begin] run18_steps[OF run]])
      (rule program18_begins)
  from lists_are_shown[OF this, of 0 Exit No_In]
  obtain ss where "mset ss = {#''one''#}" "list18_holds (free18 ''one'') ss"
    by (auto simp: running18_def session_of_def free18_def)
  then show ?thesis using run by simp
qed

text \<open>
  C18. Whatever threads do, sorting threads never run beside one that prints or
  inserts, two of the latter never run together, the counter is the number of sorting threads, and a
  thread that sleeps on the condition is never alone: some other thread is at work and will wake it.
\<close>

theorem sorters_exclude_updaters:
  assumes "reachable start18 step18 s"
  shows "sorting_count (lst s) = int (card (threads_in Sorting (phase_of s))) \<and>
    (threads_in Sorting (phase_of s) = {} \<or> threads_in Updating (phase_of s) = {}) \<and>
    (threads_in Updating (phase_of s) = {} \<or> (\<exists>t. threads_in Updating (phase_of s) = {t})) \<and>
    (threads_in Sleeping (phase_of s) = {} \<or> threads_in Sorting (phase_of s) \<union> threads_in Updating (phase_of s) \<noteq> {})"
proof -
  have inv: "protocol_inv s" by (rule prot.reachable_inv[OF assms])
  then show ?thesis using sleeper_not_alone[OF inv]
    by (cases "status (lst s)") (auto simp: protocol_inv_def threads_in_def)
qed

theorem sorters_exclude_updaters_witness:
  "sorting_count empty18 = int (card (threads_in Sorting (\<lambda>_. Idle)))"
proof -
  have "start18 \<lparr>lst = empty18, phase_of = (\<lambda>_. Idle)\<rparr>"
    by (simp add: start18_def empty18_def list_init18_def three_nodes18_def)
  from sorters_exclude_updaters[OF reach_start[of start18, OF this]] show ?thesis by simp
qed

text \<open>
  C19. Any number of threads in \<open>sort_list\<close> of \<open>task18.c\<close> at once, on a list of at least
  two strings (\<open>sortable\<close>) that nobody was using before, each taking the node mutexes hand over hand (on
  the empty list the first step is undefined, lemma \<open>empty_list_faults\<close>): no step is undefined, there is no
  deadlock, every run is bounded, and whenever a run stops all threads have returned and the list
  holds what one call alone would have left, with every mutex free.
\<close>

theorem concurrent_sorting:
  assumes "list18_holds l ss" and "sortable ss" and "status l = FREE" and "sorting_count l = 0" and "0 < n"
    and "reachable (\<lambda>s. s = sorters_start n l) sorters_step s"
  shows "sorter_step t s \<noteq> Inl Undefined \<and> sorter_step t s \<noteq> Inl Exit \<and>
    (run_of sorters_step (s # rs) \<longrightarrow> length rs \<le> n * (6 * length ss)) \<and>
    (sorters_returned s \<or> (\<exists>s'. sorters_step s s')) \<and>
    (sorters_returned s \<longrightarrow> list18_holds (slist s) (order_first ss) \<and> status (slist s) = FREE \<and>
       (\<exists>l'. sort_list18 1 l = Inr (Some ((), l')) \<and> list18_holds l' (order_first ss)))"
proof -
  have "sorters_inv n ss s" using assms(6)
    by (induction rule: reachable.induct) (auto intro: sorters_start_inv[OF assms(1-4)] sorters_inv_step[OF _ assms(2)])
  then have inv: "sortable ss \<and> sorters_inv n ss s" using assms(2) by blast
  have "steps_well n ss t s" using every_step_well inv by blast
  then have "sorter_step t s \<noteq> Inl Undefined \<and> sorter_step t s \<noteq> Inl Exit" by (auto simp: steps_well_def)
  moreover have "run_of sorters_step (s # rs) \<Longrightarrow> length rs \<le> n * (6 * length ss)"
    using sorting.run_bounded[of "s # rs" ss n] inv sorters_rank_bound[OF assms(2), of n s] by simp
  moreover have "sorters_returned s \<Longrightarrow> list18_holds (slist s) (order_first ss) \<and> status (slist s) = FREE"
    using sorters_result[of n ss s] inv assms(5) by blast
  moreover have "\<exists>l'. sort_list18 1 l = Inr (Some ((), l')) \<and> list18_holds l' (order_first ss)"
  proof -
    have "ss \<noteq> []" using assms(2) by (auto simp: sortable_def)
    then show ?thesis using sort_list18_holds[OF assms(1), of 0] assms(2,3) unfolding sortable_def One_nat_def by auto
  qed
  ultimately show ?thesis using sorting.progress[of ss n s] inv by blast
qed

theorem concurrent_sorting_witness:
  "\<exists>s. sorters_step\<^sup>*\<^sup>* (sorters_start 3 (three_nodes18 ''c'' ''b'' ''a'')) s \<and> sorters_returned s \<and>
    list18_holds (slist s) [''b'', ''c'', ''a'']"
proof -
  let ?l = "three_nodes18 ''c'' ''b'' ''a''" and ?s0 = "sorters_start 3 (three_nodes18 ''c'' ''b'' ''a'')"
  have h: "list18_holds ?l [''c'', ''b'', ''a'']" by (rule three_nodes18_holds)
  have sz: "sortable [''c'', ''b'', ''a'']" by (simp add: sortable_def SIZE_MOD_eq cstring_ok_def)
  have st: "status ?l = FREE" "sorting_count ?l = 0" by (simp_all add: three_nodes18_def)
  obtain s where s: "sorters_step\<^sup>*\<^sup>* ?s0 s" "sorters_returned s"
    using sorting.reaches_finish[of "[''c'', ''b'', ''a'']" 3 ?s0] sorters_start_inv[OF h sz st] sz by blast
  have "reachable (\<lambda>s. s = ?s0) sorters_step s"
    using s(1) by (induction rule: rtranclp_induct) (auto intro: reachable.intros)
  then show ?thesis using concurrent_sorting[OF h sz st, of 3 s] s
    by (auto simp: sc.le_def comp_strings_def)
qed

section \<open>The blocking queue\<close>



text \<open>
  C21. \<open>_drop\<close> succeeds on a usable queue but never sets \<open>is_dropped\<close>: the next \<open>_put\<close>
  that finds room and the next \<open>_take\<close> that finds an item use the freed array, and a second \<open>_drop\<close>
  frees it again. After \<open>_destroy\<close> every operation takes the destroyed mutex before it looks at
  \<open>is_destroyed\<close>.
\<close>

theorem closed_queue_is_unusable:
  assumes "ring q xs" and "xs \<noteq> []" and "length xs < bq_capacity q"
  shows "(\<exists>q'. bq_drop q = Inr (0, q') \<and> is_dropped q' = is_dropped q \<and>
      bq_put x q' = Inl Undefined \<and> bq_take q' = Inl Undefined \<and> bq_drop q' = Inl Undefined) \<and>
    (\<exists>q'. bq_destroy q = Inr (0, q') \<and> items q' \<noteq> None \<and> bq_exec op q' = Inl Undefined \<and> bq_destroy q' = Inl Undefined)"
  using bq_drop_ring[OF assms(1), of x] bq_destroy_ring[OF assms(1)] assms(2,3) by blast

theorem closed_queue_is_unusable_witness:
  "(\<exists>q'. bq_drop (queue_of_1 ''m'') = Inr (0, q') \<and> is_dropped q' = is_dropped (queue_of_1 ''m'') \<and>
      bq_put ''n'' q' = Inl Undefined \<and> bq_take q' = Inl Undefined \<and> bq_drop q' = Inl Undefined) \<and>
   (\<exists>q'. bq_destroy (queue_of_1 ''m'') = Inr (0, q') \<and> items q' \<noteq> None \<and> bq_exec Take q' = Inl Undefined \<and>
      bq_destroy q' = Inl Undefined)"
  by (rule closed_queue_is_unusable[OF queue_of_1_ring]) (simp_all add: queue_of_1_def)

text \<open>
  C22. In \<open>task.c\<close> no message is ever delivered, whatever the order in which \<open>main\<close> and
  the ten threads run: nothing is printed, no thread gets behind the \<open>CEM\<close> of its first call, there is
  no deadlock, and after at most 41 steps the process has ended with \<open>exit(1)\<close>, because \<open>CEM\<close> takes
  the success value 1 of the queue for an error.
\<close>

theorem first_put_ends_process:
  assumes "main_start al q = Inr s0" and "al 10" and "reachable (\<lambda>s. s = s0) (program_step al) s"
  shows "lines s = [] \<and> prog_at s i \<in> insert Absent (first_places i) \<and>
    (ended s = None \<and> (\<exists>s'. program_step al s s') \<or> ended s = Some (Inl Exit)) \<and>
    (run_of (program_step al) (s # ss) \<longrightarrow> length ss \<le> 41)"
proof -
  have inv: "program_inv s" by (rule message_reachable[OF assms(3,1,2)])
  have "if i < created s then prog_at s i \<in> first_places i else prog_at s i = Absent"
    using inv unfolding program_inv_def by blast
  then have "prog_at s i \<in> insert Absent (first_places i)" by (cases "i < created s") simp_all
  moreover have "lines s = []" "ended s = None \<or> ended s = Some (Inl Exit)"
    using inv by (simp_all add: program_inv_def)
  moreover have "ended s = None \<Longrightarrow> \<exists>s'. program_step al s s'"
    by (rule program_goes_on[where al = al, OF inv assms(2)])
  moreover have "run_of (program_step al) (s # ss) \<Longrightarrow> length ss \<le> 41"
    using msg.run_bounded[of al "s # ss"] inv program_rank_bound[of s]
    by (simp add: granting_same[where al = al, OF assms(2)])
  ultimately show ?thesis by blast
qed

theorem first_put_ends_process_witness:
  "\<exists>s0. main_start generous (queue_of_1 ''m'') = Inr s0 \<and> lines s0 = [] \<and>
    prog_at s0 0 \<in> insert Absent (first_places 0) \<and>
    (ended s0 = None \<and> (\<exists>s'. program_step generous s0 s') \<or> ended s0 = Some (Inl Exit))"
proof -
  have g: "generous 10" "generous (sz_mul CHARPTR_SIZE 10)"
    by (simp_all add: generous_def ADDRESS_SPACE_eq CHARPTR_SIZE_def sz_mul_def SIZE_MOD_def)
  then obtain s0 where s0: "main_start generous (queue_of_1 ''m'') = Inr s0"
    by (auto simp: main_start_def mymsginit_def bq_init_def cem_def)
  show ?thesis
    using first_put_ends_process[where al = generous, OF s0 g(1), of s0 0 "[]"]
      reach_start[of "\<lambda>s. s = s0" s0 "program_step generous"] s0 by blast
qed

section \<open>Philosophers and turns\<close>

text \<open>
  C23. In \<open>task10.c\<close>, from the first call of \<open>main\<close>, which seats the philosophers while the
  first of them may be moving already: two philosophers that share a fork never eat at the same time,
  there is no deadlock, and from every reachable state the dinner can be finished. Every run has at
  most \<open>5 * 4 * 2000000000 + 10\<close> steps, and one that can not go on has every philosopher done with all
  its rounds. When everybody is seated no step uses a fork that is not initialised; before, the first
  philosopher may be about to.
\<close>

theorem philosophers_finish:
  assumes "reachable (\<lambda>x. x = (at_table, 0)) main10 (s, k)"
  shows "(p < COUNT_OF_PHIL \<and> q < COUNT_OF_PHIL \<and> pcs s p = Eating \<and> pcs s q = Eating \<and>
      {left_fork p, right_fork p} \<inter> {left_fork q, right_fork q} \<noteq> {} \<longrightarrow> p = q) \<and>
    (k = 2 * COUNT_OF_PHIL \<and> all_left s \<or> (\<exists>y. main10 (s, k) y)) \<and>
    (\<exists>s'. main10\<^sup>*\<^sup>* (s, k) (s', 2 * COUNT_OF_PHIL) \<and> all_left s') \<and>
    (main10\<^sup>*\<^sup>* (s, k) (t, l) \<longrightarrow> (\<exists>y. main10 (t, l) y) \<or> l = 2 * COUNT_OF_PHIL \<and> all_left t) \<and>
    (run_of main10 ss \<longrightarrow> ss \<noteq> [] \<longrightarrow> hd ss = (at_table, 0) \<longrightarrow>
       length ss \<le> COUNT_OF_PHIL * (4 * ROUNDS) + 2 * COUNT_OF_PHIL + 1) \<and>
    (k = 2 * COUNT_OF_PHIL \<longrightarrow> \<not> too_early uses10 p (s, k)) \<and>
    (\<exists>t. reachable (\<lambda>x. x = (at_table, 0)) main10 (t, 2) \<and> too_early uses10 0 (t, 2))"
proof -
  have inv: "table_inv s" "k \<le> 2 * COUNT_OF_PHIL"
    using dn.pt.reachable_inv assms unfolding main10_def by force+
  have "\<exists>s'. main10\<^sup>*\<^sup>* (s, k) (s', 2 * COUNT_OF_PHIL) \<and> all_left s'"
    using dn.pe.reaches_finish[of "(s, k)"] inv unfolding main10_def by (metis fst_conv snd_conv prod.collapse)
  moreover have "run_of main10 ss \<Longrightarrow> ss \<noteq> [] \<Longrightarrow> hd ss = (at_table, 0) \<Longrightarrow>
      length ss \<le> COUNT_OF_PHIL * (4 * ROUNDS) + 2 * COUNT_OF_PHIL + 1"
    using dn.pe.run_bounded[of ss] table_start work_at_start unfolding main10_def by simp
  moreover have "main10\<^sup>*\<^sup>* (s, k) (t, l) \<Longrightarrow> (\<exists>y. main10 (t, l) y) \<or> l = 2 * COUNT_OF_PHIL \<and> all_left t"
    using dn.pe.stuck_is_finished[of "(s, k)" "(t, l)"] inv unfolding main10_def by fastforce
  moreover have "k = 2 * COUNT_OF_PHIL \<and> all_left s \<or> (\<exists>y. main10 (s, k) y)"
    using dn.pt.no_deadlock[of "(s, k)"] assms unfolding main10_def by simp
  ultimately show ?thesis
    using never_eat_together[OF inv(1), of p q] dn.never_too_early[of p s] first_guest_too_early by blast
qed

theorem philosophers_finish_witness:
  "\<exists>s'. main10\<^sup>*\<^sup>* (at_table, 0) (s', 2 * COUNT_OF_PHIL) \<and> all_left s'"
  using philosophers_finish[OF reach_start[of "\<lambda>x. x = (at_table, 0)", OF refl]] by blast

text \<open>
  C24. In \<open>task22.c\<close>, from the first call of \<open>main\<close> and also when waits end by themselves, neighbours
  never eat at the same time, and nobody sleeps forgotten: a philosopher is eating or putting its
  forks back (and will broadcast), or the attempt of everyone still there would succeed. From every
  state everybody can finish; a run in which waits end only by a broadcast is bounded and stops only
  there, with all forks free to be destroyed. When everybody is seated no step uses a fork that is not
  initialised; before, the first attempt may.
\<close>

theorem no_lost_wakeup:
  assumes "reachable (\<lambda>x. x = (at_table22, 0)) (main22 b) (s, k)"
  shows "(p < COUNT_OF_PHIL \<and> q < COUNT_OF_PHIL \<and> pcs22 s p = Eats \<and> pcs22 s q = Eats \<and>
      {left_fork p, right_fork p} \<inter> {left_fork q, right_fork q} \<noteq> {} \<longrightarrow> p = q) \<and>
    ((\<exists>r. busy22 s r) \<or> (r < COUNT_OF_PHIL \<and> pcs22 s r \<noteq> Sated \<longrightarrow>
       pcs22 s r = Hungry \<and> (\<exists>s'. phil22 r s = Some s' \<and> pcs22 s' r = Eats))) \<and>
    (\<exists>s'. (main22 False)\<^sup>*\<^sup>* (s, k) (s', 2 * COUNT_OF_PHIL) \<and> all_sated s') \<and>
    (run_of (main22 False) ss \<longrightarrow> ss \<noteq> [] \<longrightarrow> hd ss = (s, k) \<longrightarrow>
       length ss \<le> table22_rank s + (2 * COUNT_OF_PHIL - k) + 1) \<and>
    ((\<nexists>y. main22 False (s, k) y) \<longrightarrow> k = 2 * COUNT_OF_PHIL \<and> all_sated s \<and> forks22 s f = None) \<and>
    (k = 2 * COUNT_OF_PHIL \<longrightarrow> \<not> too_early uses22 p (s, k)) \<and>
    (reachable (\<lambda>x. x = (at_table22, 0)) (main22 b) (at_table22, 2) \<and> too_early uses22 0 (at_table22, 2))"
proof -
  have inv: "table22_inv s" "k \<le> 2 * COUNT_OF_PHIL"
    using dn22_spurious.pt.reachable_inv assms unfolding main22_def by force+
  have "\<exists>s'. (main22 False)\<^sup>*\<^sup>* (s, k) (s', 2 * COUNT_OF_PHIL) \<and> all_sated s'"
    using dn22.pe.reaches_finish[of "(s, k)"] inv unfolding main22_def by (metis fst_conv snd_conv prod.collapse)
  moreover have "run_of (main22 False) ss \<Longrightarrow> ss \<noteq> [] \<Longrightarrow> hd ss = (s, k) \<Longrightarrow>
      length ss \<le> table22_rank s + (2 * COUNT_OF_PHIL - k) + 1"
    using dn22.pe.run_bounded[of ss] inv unfolding main22_def by simp
  moreover have "(\<nexists>y. main22 False (s, k) y) \<Longrightarrow> k = 2 * COUNT_OF_PHIL \<and> all_sated s \<and> forks22 s f = None"
    using dn22_spurious.evening_goes_on[OF inv] sated_forks_free(1)[OF inv(1)] unfolding main22_def by blast
  ultimately show ?thesis
    using someone_eats[OF inv(1)] never_eat_together22[OF inv(1), of p q] dn22_spurious.never_too_early[of p s]
      first_attempt_too_early[of b] by blast
qed

theorem no_lost_wakeup_witness:
  "(\<exists>s'. (main22 False)\<^sup>*\<^sup>* (at_table22, 0) (s', 2 * COUNT_OF_PHIL) \<and> all_sated s') \<and>
   ((\<exists>r. busy22 at_table22 r) \<or> (\<exists>s'. phil22 3 at_table22 = Some s' \<and> pcs22 s' 3 = Eats))"
proof -
  have "3 < COUNT_OF_PHIL \<and> pcs22 at_table22 3 \<noteq> Sated" by (simp add: COUNT_OF_PHIL_def at_table22_def)
  then show ?thesis
    using no_lost_wakeup[OF reach_start[of "\<lambda>x. x = (at_table22, 0)", OF refl], where r = 3] by blast
qed

text \<open>
  C25. In \<open>task14.c\<close>, with any number \<open>n\<close> of rounds, the output of every reachable state is
  an alternation that starts with the first thread, there is no deadlock, and the program can always
  be finished; when it is, each thread printed \<open>n\<close> times and the semaphores have their first values.
\<close>

theorem ping_pong_alternates:
  assumes "reachable (\<lambda>s. s = main14) (pp_step n) s"
  shows "(\<exists>k \<le> 2 * n. out s = turns k) \<and> (pp_finished n s \<or> (\<exists>s'. pp_step n s s')) \<and>
    (\<exists>s'. (pp_step n)\<^sup>*\<^sup>* s s' \<and> pp_finished n s' \<and> out s' = turns (2 * n) \<and> sem s' Ping = 1 \<and> sem s' Pong = 0)"
proof -
  have inv: "pp_inv n s" by (rule pp.reachable_inv[OF assms])
  show ?thesis using pp_inv_output[OF inv] pp.no_deadlock[OF assms] pp.reaches_finish[OF inv] finished_output by blast
qed

theorem ping_pong_alternates_witness:
  "\<exists>s'. (pp_step LOOPS14)\<^sup>*\<^sup>* main14 s' \<and> pp_finished LOOPS14 s' \<and> out s' = turns 20"
  using ping_pong_alternates[of LOOPS14 main14, OF reach_start[of "\<lambda>s. s = main14", OF refl]]
  by (auto simp: LOOPS14_def)

text \<open>
  C26. \<open>task16a.c\<close>, when both semaphores are new and no signal arrives: the output of every
  reachable state is an alternation, there is no deadlock, and the program can always be finished. Then
  all lines are printed and both names removed, and both processes have failed: the child exits
  with 1, and the parent takes the number \<open>wait\<close> returns for an error, so it never closes the semaphores.
\<close>

theorem processes_exit_with_1:
  assumes "opens1 e" and "opens2 e" and "0 < fork_pid e" and "begin16 e (\<lambda>_. None) = Inr s0"
    and "reachable (\<lambda>s. s = s0) (step16 n (fork_pid e) False) s"
  shows "(\<exists>k \<le> 2 * n. out (game s) = turns k) \<and>
    (both_exited s \<or> (\<exists>s'. step16 n (fork_pid e) False s s')) \<and>
    (\<exists>s'. (step16 n (fork_pid e) False)\<^sup>*\<^sup>* s s' \<and> both_exited s' \<and> out (game s') = turns (2 * n) \<and>
       \<not> named s' Ping \<and> \<not> named s' Pong)"
proof -
  have s0: "s0 = start16" using assms(3,4) begin16_fresh[of e] assms(1,2) by simp
  have pid: "some_pid (fork_pid e) = fork_pid e" using assms(3) by (simp add: some_pid_def)
  have r: "reachable (\<lambda>s. s = start16) (step16 n (some_pid (fork_pid e)) False) s" using assms(5) by (simp add: s0 pid)
  have inv: "procs_inv n s" by (rule procs.reachable_inv[OF r])
  have "\<exists>k \<le> 2 * n. out (game s) = turns k" using pp_inv_output[of n "game s"] inv by (simp add: procs_inv_def)
  then show ?thesis
    using procs.no_deadlock[OF r] procs.reaches_finish[OF inv, of "fork_pid e"] both_exited_result unfolding pid by blast
qed

theorem processes_exit_with_1_witness:
  "\<exists>s'. (step16 3 42 False)\<^sup>*\<^sup>* start16 s' \<and> both_exited s' \<and> out (game s') = [Ping, Pong, Ping, Pong, Ping, Pong]"
proof -
  let ?e = "\<lparr>opens1 = True, opens2 = True, unlinks = True, fork_pid = 42\<rparr>"
  have b: "begin16 ?e (\<lambda>_. None) = Inr start16" by (rule begin16_fresh) simp_all
  have "reachable (\<lambda>s. s = start16) (step16 3 (fork_pid ?e) False) start16" by (rule reach_start) simp
  moreover have "turns (2 * 3) = [Ping, Pong, Ping, Pong, Ping, Pong]" by code_simp
  ultimately show ?thesis using processes_exit_with_1[OF _ _ _ b, of 3 start16] by auto
qed

section \<open>The pager\<close>



text \<open>
  C28. After the server has closed, when every \<open>write\<close> takes all it is given and \<open>read\<close> from the
  keyboard succeeds: a round with a key shows the rest of the text up to twenty more line ends, so either
  twenty more lines or everything; and with more than a twentieth as many keys as line ends are left the
  whole page is shown and the loop ends.
\<close>

theorem keys_show_page:
  assumes "pager_inv p t" and "p_is_end p"
  shows "(key_round e \<longrightarrow> (\<exists>q. pager_round (Suc (Suc fuel)) e p = Inr q \<and> pager_inv q t \<and> p_is_end q \<and>
       (\<exists>more. screen q = screen p @ more \<and> prefix (screen q) t \<and>
          (newlines more = MAX_SCREEN_LINES \<or> newlines more \<le> MAX_SCREEN_LINES \<and> screen q = t)))) \<and>
    (list_all key_round es \<and> newlines (drop (p_written p) t) < MAX_SCREEN_LINES * length es \<longrightarrow>
       (\<exists>p'. pager_run (Suc (Suc fuel)) es p = Inr p' \<and> screen p' = t \<and> \<not> pager_goes_on p'))"
  using key_round_screen[OF assms] keys_show_all[OF assms] by blast

theorem keys_show_page_witness:
  "\<exists>p'. pager_run 2 (replicate 2 \<lparr>pe_sock = False, pe_keys = True, pe_read = None, pe_read_keys = 1, pe_write = (\<lambda>_ r. int r)\<rparr>)
      ((pager_start True)\<lparr>in_buffer := \<lparr>blk_len = IN_BUFFER_SIZE, blk_cell = (\<lambda>_. Some NEWLINE)\<rparr>,
         p_received := 30, p_is_end := True\<rparr>) = Inr p' \<and>
    screen p' = replicate 30 NEWLINE \<and> \<not> pager_goes_on p'"
proof -
  let ?e = "\<lparr>pe_sock = False, pe_keys = True, pe_read = None, pe_read_keys = 1, pe_write = (\<lambda>_ r. int r)\<rparr>"
  let ?p = "(pager_start True)\<lparr>in_buffer := \<lparr>blk_len = IN_BUFFER_SIZE, blk_cell = (\<lambda>_. Some NEWLINE)\<rparr>,
      p_received := 30, p_is_end := True\<rparr>"
  have i: "pager_inv ?p (replicate 30 NEWLINE)"
    by (simp add: pager_inv_def pager_start_def text_at_def IN_BUFFER_SIZE_def)
  have k: "list_all key_round (replicate 2 ?e)"
    by (auto simp: list_all_iff key_round_def writes_all_def)
  have "newlines (drop (p_written ?p) (replicate 30 NEWLINE)) < MAX_SCREEN_LINES * length (replicate 2 ?e)"
    by (simp add: pager_start_def newlines_def MAX_SCREEN_LINES_def)
  from keys_show_page[OF i, of ?e 0 "replicate 2 ?e"] this k show ?thesis by (simp add: numeral_2_eq_2)
qed

text \<open>
  C29. \<open>write_\<close> is given a text with uninitialised memory behind it, and the first call of
  \<open>write\<close> takes only the first \<open>k\<close> of the bytes it got. Then \<open>find_\<close> counts the bytes of the lines that are still
  allowed from the start of the text, while they are written from byte \<open>k\<close> on: if \<open>k\<close> more than that count
  goes past the end of the text, the second \<open>write\<close> reads behind it. So it is in particular for every text
  all of whose lines, and those of its first \<open>k\<close> bytes again, fit the screen.
\<close>

theorem partial_write_reads_beyond:
  assumes "text_at b base t" and "wr 0 (lines_end mx t) = int k" and "0 < k" and "k \<le> lines_end mx t" and "k < length t"
    and "length t < k + lines_end (mx - newlines (take k t)) t \<or> newlines t + newlines (take k t) < mx"
    and "length t < SIZE_MOD" and "load b (base + length t) = Inl Undefined"
  shows "write_lines (Suc (Suc fuel)) wr b base (length t) mx = Inl Undefined"
proof -
  have "newlines t < mx - newlines (take k t)" if "newlines t + newlines (take k t) < mx" using that by simp
  then have "length t < k + lines_end (mx - newlines (take k t)) t" using assms(3,6) lines_end_all by fastforce
  then show ?thesis by (rule partial_write_overreads[of b base t wr mx k, OF assms(1-5) _ assms(7,8)])
qed

theorem partial_write_reads_beyond_witness:
  "write_lines 2 (\<lambda>_ r. if r = 0 then 0 else 1) (buffer_at_0 ''GET'' 10) 0 3 20 = Inl Undefined"
proof -
  have l: "lines_end 20 ''GET'' = 3" using lines_end_all[of "''GET''" 20] by simp
  have e: "load (buffer_at_0 ''GET'' 10) 3 = Inl Undefined" using buffer_at_0_end[of "''GET''" 10] by (simp add: numeral_3_eq_3)
  show ?thesis
    using partial_write_reads_beyond[OF buffer_at_0_text[of "''GET''" 10], of "\<lambda>_ r. if r = 0 then 0 else 1" 20 1 0] e l
    by (simp add: SIZE_MOD_eq numeral_2_eq_2[symmetric] numeral_3_eq_3[symmetric])
qed

section \<open>The relay gets on\<close>

text \<open>
  C30. A server that accepts at least one byte at every readiness event receives the whole
  request after at most as many events as there are bytes left, and the handler then waits for the
  response.
\<close>

theorem request_reaches_server:
  assumes "conn L ctx c s" and "handling_step ctx = SENDING_REQ"
    and "list_all (\<lambda>(e, fd, events). 0 < e_write e \<and> fd = server_fd ctx \<and> has_event events POLLOUT) evs"
    and "length c - sended ctx \<le> length evs"
  shows "\<exists>n ctx' w' es. run al (take n evs) (ctx, w) = Inr (ctx', w') \<and> w_io w' = w_io w @ es \<and>
    handling_step ctx' = PARSING_RESP_CODE \<and> sent (server_fd ctx) (L @ es) = c"
  using request_delivered[OF assms, of al w] by blast

theorem request_reaches_server_witness:
  "\<exists>n ctx' w' es. run generous (take n (replicate 3 (an_env None 2, 7, POLLOUT)))
      ((a_context SENDING_REQ ''GET'' [] 0)\<lparr>sended := 0\<rparr>, a_world) = Inr (ctx', w') \<and>
    handling_step ctx' = PARSING_RESP_CODE \<and> sent 7 (Read 5 ''GET'' # es) = ''GET''"
proof -
  have c: "conn [Read 5 ''GET''] ((a_context SENDING_REQ ''GET'' [] 0)\<lparr>sended := 0\<rparr>) ''GET'' []"
    using holds_buffer_of[of "''GET''"] holds_buffer_of[of "[]"] a_request_valid a_request_live a_response_live
    by (auto simp: conn_defs a_context_def)
  have f: "server_fd (a_context SENDING_REQ ''GET'' [] 0) = 7" "handling_step (a_context SENDING_REQ ''GET'' [] 0) = SENDING_REQ"
      "e_write (an_env None 2) = 2" "has_event POLLOUT POLLOUT"
    by (simp_all add: a_context_def an_env_def has_event_def POLLOUT_def)
  let ?evs = "replicate 3 (an_env None 2, 7, POLLOUT)" and ?x = "(a_context SENDING_REQ ''GET'' [] 0)\<lparr>sended := 0\<rparr>"
  have e: "list_all (\<lambda>(e, fd, events). 0 < e_write e \<and> fd = server_fd ?x \<and> has_event events POLLOUT) ?evs"
    by (simp add: f list_all_iff)
  have "handling_step ?x = SENDING_REQ" "length ''GET'' - sended ?x \<le> length ?evs" "server_fd ?x = 7" by (simp_all add: f)
  with request_reaches_server[OF c _ e, of generous a_world] show ?thesis by fastforce
qed

text \<open>
  C31. A client that accepts at least one byte at every readiness event has received the
  whole response after one event more than there are bytes left, and the connection is handled.
\<close>

theorem response_reaches_client:
  assumes "conn L ctx c s" and "handling_step ctx = SENDING_RESP"
    and "list_all (\<lambda>(e, fd, events). 0 < e_write e \<and> fd = client_fd ctx \<and> has_event events POLLOUT) evs"
    and "length s - sended ctx < length evs"
  shows "\<exists>ctx' w' es. run al evs (ctx, w) = Inr (ctx', w') \<and> w_io w' = w_io w @ es \<and>
    handling_step ctx' = HANDLED \<and> sent (client_fd ctx) (L @ es) = s"
  by (rule response_delivered[OF assms])

theorem response_reaches_client_witness:
  "\<exists>ctx' w' es. run generous (replicate 4 (an_env None 2, 5, POLLOUT))
      (a_context SENDING_RESP ''GET'' ''HTTP'' 1, a_world) = Inr (ctx', w') \<and>
    handling_step ctx' = HANDLED \<and> sent 5 (a_log ''GET'' ''HTTP'' 1 @ es) = ''HTTP''"
proof -
  have c: "conn (a_log ''GET'' ''HTTP'' 1) (a_context SENDING_RESP ''GET'' ''HTTP'' 1) ''GET'' ''HTTP''"
    by (rule a_context_conn) simp_all
  have f: "client_fd (a_context SENDING_RESP ''GET'' ''HTTP'' 1) = 5" "sended (a_context SENDING_RESP ''GET'' ''HTTP'' 1) = 1"
      "handling_step (a_context SENDING_RESP ''GET'' ''HTTP'' 1) = SENDING_RESP"
      "e_write (an_env None 2) = 2" "has_event POLLOUT POLLOUT"
    by (simp_all add: a_context_def an_env_def has_event_def POLLOUT_def)
  let ?evs = "replicate 4 (an_env None 2, 5, POLLOUT)" and ?x = "a_context SENDING_RESP ''GET'' ''HTTP'' 1"
  have e: "list_all (\<lambda>(e, fd, events). 0 < e_write e \<and> fd = client_fd ?x \<and> has_event events POLLOUT) ?evs"
    by (simp add: f list_all_iff del: One_nat_def)
  have k: "length ''HTTP'' - sended ?x < length ?evs" by (simp add: f del: One_nat_def)
  from response_reaches_client[OF c f(3) e k, of generous a_world] show ?thesis unfolding f(1) by blast
qed

section \<open>Monitors\<close>

text \<open>
  C32. When \<open>main\<close> of \<open>task12_.c\<close> gets to its loop, then, whichever sleeping thread a signal
  wakes and whenever a wait ends without one, the lines printed are an alternation that starts with
  the first thread. Until the end some thread can take the mutex and go on, and from every state
  the program can be finished by such turns alone, with ten lines of each thread.
\<close>

theorem one_monitor_alternates:
  assumes "main_one i e = Inr s0" and "reachable (\<lambda>s. s = s0) (monitor_step COUNT_OF_LOOPS) s"
  shows "(\<exists>k \<le> 2 * COUNT_OF_LOOPS. printed s = in_turn k) \<and>
    (all_ended s \<or> (\<exists>s'. turns_to COUNT_OF_LOOPS s s')) \<and>
    (\<exists>s'. (turns_to COUNT_OF_LOOPS)\<^sup>*\<^sup>* s s' \<and> all_ended s' \<and> printed s' = in_turn (2 * COUNT_OF_LOOPS))"
proof -
  have inv: "monitor_inv COUNT_OF_LOOPS s"
    using mon.reachable_inv[of s] assms(2) main_one_starts[OF assms(1)] by simp
  have "all_ended s \<or> (\<exists>s'. turns_to COUNT_OF_LOOPS s s')"
    using somebody_awake[OF inv] awake_turns unfolding turns_to_def by blast
  moreover have "\<exists>s'. (turns_to COUNT_OF_LOOPS)\<^sup>*\<^sup>* s s' \<and> all_ended s' \<and> printed s' = in_turn (2 * COUNT_OF_LOOPS)"
    using monitor_finishes[OF inv] monitor_output(2) by (auto simp: COUNT_OF_LOOPS_def)
  ultimately show ?thesis using monitor_output(1)[OF inv] by blast
qed

theorem one_monitor_alternates_witness:
  "\<exists>s'. (turns_to COUNT_OF_LOOPS)\<^sup>*\<^sup>* monitor_start s' \<and> all_ended s' \<and> printed s' = in_turn 20"
proof -
  have "main_one \<lparr>rc_cond_init = 0, rc_mutexattr_init = 0, rc_settype = 0, rc_mutex_init12 = 0\<rparr>
      \<lparr>rc_attr_init = 0, rc_setstacksize = 0, rc_create1 = 0, rc_create2 = 0\<rparr> = Inr monitor_start"
    by (simp add: main_one_exits)
  from one_monitor_alternates[OF this reach_start[of "\<lambda>s. s = monitor_start", OF refl]] show ?thesis by (simp add: COUNT_OF_LOOPS_def)
qed

text \<open>
  C33. When \<open>main\<close> of \<open>task12.c\<close> gets to its first wait with both threads created, and a
  wait ends only by a signal, the output is an alternation that
  starts with the first thread, there is no deadlock, every run is bounded, and it can always be
  finished with ten lines of each thread.
\<close>

theorem two_monitors_alternate:
  assumes "main_two i1 i2 e = Inr (AtFirstWait s0)" and "rc_create1 e = 0" and "rc_create2 e = 0"
    and "reachable (\<lambda>s. s = s0) (pair_step False PAIR_LOOPS) s"
  shows "(\<exists>k \<le> 2 * PAIR_LOOPS. lines_out s = alternating k) \<and>
    (pair_ended s \<or> (\<exists>s'. pair_step False PAIR_LOOPS s s')) \<and>
    (\<exists>s'. (pair_step False PAIR_LOOPS)\<^sup>*\<^sup>* s s' \<and> pair_ended s' \<and> lines_out s' = alternating (2 * PAIR_LOOPS)) \<and>
    (run_of (pair_step False PAIR_LOOPS) ss \<longrightarrow> ss \<noteq> [] \<longrightarrow> hd ss = s \<longrightarrow> length ss \<le> pair_rank PAIR_LOOPS s + 1)"
proof -
  have r: "reachable (\<lambda>s. s = pair_start) (pair_step False PAIR_LOOPS) s"
    using assms(4) main_two_waits[OF assms(1)] assms(2,3) by simp
  have inv: "pair_inv PAIR_LOOPS s" by (rule pair.reachable_inv[OF r])
  have "\<exists>s'. (pair_step False PAIR_LOOPS)\<^sup>*\<^sup>* s s' \<and> pair_ended s' \<and> lines_out s' = alternating (2 * PAIR_LOOPS)"
    using pair.reaches_finish[OF inv] pair_output(2) by blast
  then show ?thesis
    using pair_output(1)[OF inv] pair.no_deadlock[OF r] pair.run_bounded[of ss] inv by blast
qed

theorem two_monitors_alternate_witness:
  "\<exists>s'. (pair_step False PAIR_LOOPS)\<^sup>*\<^sup>* pair_start s' \<and> pair_ended s' \<and> lines_out s' = alternating 20"
proof -
  let ?i = "\<lparr>rc_cond_init = 0, rc_mutexattr_init = 0, rc_settype = 0, rc_mutex_init12 = 0\<rparr>"
  let ?e = "\<lparr>rc_attr_init = 0, rc_setstacksize = 0, rc_create1 = 0, rc_create2 = 0\<rparr>"
  have "main_two ?i ?i ?e = Inr (AtFirstWait pair_start)"
    by (simp add: main_two_def monitor_init2_def not_minus1_def cem_def)
  from two_monitors_alternate[OF this _ _ reach_start[of "\<lambda>s. s = pair_start", OF refl]] show ?thesis by (simp add: PAIR_LOOPS_def)
qed

text \<open>
  C34. \<open>main\<close> of \<open>task12.c\<close> can wait for ever. With both threads, a wait of the first thread
  that ends by itself before \<open>main\<close> has the mutex again consumes the signal meant for \<open>main\<close>: a state is
  reached where the first thread has printed once, each waits for a mutex or for a flag another
  one holds, and nothing can move. When one of the threads could not be created, which a positive result of
  \<open>pthread_create\<close> says and \<open>main\<close> does not see, no run ends.
\<close>

theorem two_monitors_can_block:
  assumes "main_two i1 i2 e = Inr (AtFirstWait s0)"
  shows "if rc_create1 e = 0 \<and> rc_create2 e = 0
    then \<exists>s. reachable (\<lambda>s. s = s0) (pair_step True PAIR_LOOPS) s \<and> \<not> pair_ended s \<and> lines_out s = [First] \<and>
      (\<nexists>s'. pair_step True PAIR_LOOPS s s')
    else \<forall>s. reachable (\<lambda>s. s = s0) (pair_step b PAIR_LOOPS) s \<longrightarrow> \<not> pair_ended s"
proof (cases "rc_create1 e = 0 \<and> rc_create2 e = 0")
  case True
  then have "s0 = pair_start" using main_two_waits[OF assms] by simp
  then show ?thesis using True stuck_reachable[of PAIR_LOOPS] stuck[of True PAIR_LOOPS]
    by (auto simp: pair_ended_def stuck_state_def intro!: exI[of _ stuck_state])
next
  case False
  then show ?thesis using not_created_hangs main_two_waits[OF assms] by auto
qed

theorem two_monitors_can_block_witness:
  "\<not> pair_ended (pair_started True False)"
proof -
  let ?i = "\<lparr>rc_cond_init = 0, rc_mutexattr_init = 0, rc_settype = 0, rc_mutex_init12 = 0\<rparr>"
  let ?e = "\<lparr>rc_attr_init = 0, rc_setstacksize = 0, rc_create1 = 0, rc_create2 = 11\<rparr>"
  have "main_two ?i ?i ?e = Inr (AtFirstWait (pair_started True False))"
    by (simp add: main_two_def monitor_init2_def not_minus1_def cem_def)
  from two_monitors_can_block[OF this, of True] show ?thesis by (auto intro: reach_start)
qed

section \<open>The series of pi\<close>

text \<open>
  C35. The four threads of \<open>task8.c\<close> compute no index that overflows \<open>int\<close>; together they add
  each of the first four million terms of the series once, and in exact arithmetic the result differs
  from pi by at most \<open>1 / 2000000\<close>.
\<close>

theorem four_threads_sum_pi:
  "\<exists>r. main8 exact junk = Inr r \<and> r = 4 * (\<Sum>j<4000000. (-1) ^ j / (2 * real j + 1)) \<and> \<bar>r - pi\<bar> \<le> 1 / 2000000"
proof -
  define m where "m = COUNT_OF_LOOPS8 * COUNT_OF_THREADS"
  have m: "m = 4000000" by (simp add: m_def COUNT_OF_LOOPS8_def COUNT_OF_THREADS_def)
  have "even m" by (simp add: m)
  from leibniz_bound[OF this] have "\<bar>4 * (\<Sum>j<m. leibniz j) - pi\<bar> \<le> 1 / 2000000" by (simp add: m)
  moreover have "(\<Sum>j<m. leibniz j) = (\<Sum>j<4000000. (-1) ^ j / (2 * real j + 1))"
    unfolding m by (simp add: leibniz_def mult.commute add.commute)
  ultimately show ?thesis using main8_exact[of junk] unfolding m_def[symmetric] by simp
qed

text \<open>
  C36. The program of \<open>task9.c\<close> has no deadlock and can always be brought to its end. The
  result is then four times the sum of the terms up to the highest iteration \<open>m\<close> of any thread, except
  that a thread that left the first loop at an earlier iteration \<open>k\<close> has added its term of \<open>k\<close> twice
  and its term of \<open>m\<close> not at all.
\<close>

theorem early_threads_repeat_a_term:
  assumes "reachable (\<lambda>s. s = series_start exact) (series_step exact) s"
  shows "(all_returned s \<or> (\<exists>s'. series_step exact s s')) \<and>
    (\<exists>s'. (series_step exact)\<^sup>*\<^sup>* s s' \<and> all_returned s') \<and>
    (all_returned s \<longrightarrow> (\<exists>k m. (m = 0 \<or> (\<exists>r < COUNT_OF_THREADS. k r = m)) \<and>
      (\<forall>r < COUNT_OF_THREADS. shown_iters (workers s r) = Some (k r) \<and> k r \<le> m \<and> STOP_POINTS dvd k r) \<and>
      result9 exact s = 4 * ((\<Sum>j<Suc m * COUNT_OF_THREADS. leibniz j) +
        (\<Sum>r<COUNT_OF_THREADS. leibniz (k r * COUNT_OF_THREADS + r) - leibniz (m * COUNT_OF_THREADS + r)))))"
proof (intro conjI impI)
  have inv: "series_inv exact s" by (rule pi9.reachable_inv[OF assms])
  show "all_returned s \<or> (\<exists>s'. series_step exact s s')" by (rule pi9.no_deadlock[OF assms])
  show "\<exists>s'. (series_step exact)\<^sup>*\<^sup>* s s' \<and> all_returned s'" using can_return[OF inv] by blast
  assume "all_returned s"
  from returned_workers[OF inv this] obtain k where k: "\<And>r. r < COUNT_OF_THREADS \<Longrightarrow>
      shown_iters (workers s r) = Some (k r) \<and> STOP_POINTS dvd k r \<and> k r \<le> mx_iters s \<and>
      acc (workers s r) = sum_terms exact r (both_loops (k r) (mx_iters s))"
    and m: "mx_iters s = 0 \<or> (\<exists>r < COUNT_OF_THREADS. k r = mx_iters s)" by blast
  show "\<exists>k m. (m = 0 \<or> (\<exists>r < COUNT_OF_THREADS. k r = m)) \<and>
      (\<forall>r < COUNT_OF_THREADS. shown_iters (workers s r) = Some (k r) \<and> k r \<le> m \<and> STOP_POINTS dvd k r) \<and>
      result9 exact s = 4 * ((\<Sum>j<Suc m * COUNT_OF_THREADS. leibniz j) +
        (\<Sum>r<COUNT_OF_THREADS. leibniz (k r * COUNT_OF_THREADS + r) - leibniz (m * COUNT_OF_THREADS + r)))"
    using k m result9_exact[of k "mx_iters s" s] by (intro exI[of _ k] exI[of _ "mx_iters s"] conjI) blast+
qed

theorem early_threads_repeat_a_term_witness:
  "\<exists>s'. (series_step exact)\<^sup>*\<^sup>* (series_start exact) s' \<and> all_returned s'"
  using early_threads_repeat_a_term[OF reach_start[of "\<lambda>s. s = series_start exact", OF refl]] by blast

section \<open>The first proxy\<close>

text \<open>
  C37. In the first proxy, a well-formed GET request is read by \<open>read_req\<close> as it was sent, in
  however many pieces its bytes arrive, if no \<open>read\<close> fails or times out between the pieces (the receive
  timeout of 250 ms is such a failure), every piece has between 1 and 100,000 bytes, all bytes together, with those
  behind the request, stay below the 30,000,000 of the buffer and have no zero byte, and allocations up
  to the size of the buffer are granted: type, URI, version and headers, and
  the bytes up to the parsing position, which are what the server is sent, are the request.
\<close>

theorem old_request_any_split:
  assumes "concat ds = get_request u v hs @ rest" and "list_all (\<lambda>d. d \<noteq> [] \<and> length d \<le> REQ_READ) ds"
    and "length (concat ds) < OLD_BUFF_SIZE" and "NUL \<notin> set (concat ds)"
    and "CHR '' '' \<notin> set u" and "one_line (''GET '' @ u @ '' '' @ v)" and "\<forall>tv \<in> set hs. header_ok tv"
    and "al_ok al" and "grants_upto al OLD_BUFF_SIZE" and "length ds < fuel"
  shows "safe (read_req fuel al rq new_buff (map Data ds @ is)) (request_read u v hs)"
  by (rule read_req_any_split[OF assms])

lemma generous_old: "grants_upto generous OLD_BUFF_SIZE"
  by (simp add: grants_upto_def generous_def OLD_BUFF_SIZE_def ADDRESS_SPACE_eq)

theorem old_request_any_split_witness:
  "safe (read_req 4 generous a_request new_buff
     (map Data [''GET / HT'', ''TP/1.1'' @ CRLF @ ''Hos'', ''t: a.b'' @ CRLF @ CRLF] @ [Eof]))
   (request_read ''/'' ''HTTP/1.1'' [(''Host'', ''a.b'')])"
  by (rule old_request_any_split[where rest = "[]", OF _ _ _ _ _ _ _ al_ok_generous generous_old])
    (simp_all add: get_request_def request_line_def header_text_def header_line_def header_ok_def one_line_def
      CRLF_def REQ_READ_def OLD_BUFF_SIZE_def)

text \<open>
  C38. When a receive timeout comes inside a header line, \<open>read_req\<close> goes on and the last byte
  received before it is overwritten: the value is read, and the request sent on, without that byte.
\<close>

theorem timeout_drops_byte:
  assumes "x = request_line ''GET'' u v @ t @ '': '' @ w @ [c]" and "d = z @ CRLF @ CRLF"
    and "length x \<le> REQ_READ" and "length d \<le> REQ_READ" and "NUL \<notin> set (x @ d)"
    and "CHR '' '' \<notin> set u" and "one_line (''GET '' @ u @ '' '' @ v)"
    and "header_ok (t, w @ [c] @ z)" and "header_ok (t, w @ z)"
    and "al_ok al" and "grants_upto al OLD_BUFF_SIZE"
  shows "safe (read_req (Suc (Suc (Suc fuel))) al rq new_buff (Data x # Again # Data d # is)) (request_read u v [(t, w @ z)])"
  by (rule timeout_loses_byte[OF assms])

theorem timeout_drops_byte_witness:
  "safe (read_req (Suc (Suc (Suc 0))) generous a_request new_buff
     [Data (request_line ''GET'' ''/'' ''HTTP/1.1'' @ ''Host: ab''), Again, Data (''cd'' @ CRLF @ CRLF)])
   (request_read ''/'' ''HTTP/1.1'' [(''Host'', ''acd'')])"
  using timeout_drops_byte[of _ "''/''" "''HTTP/1.1''" "''Host''" "''a''" "CHR ''b''" _ "''cd''" generous 0 a_request "[]", OF refl refl]
  by (simp add: generous_old request_line_def header_ok_def one_line_def CRLF_def REQ_READ_def)

section \<open>Printing threads\<close>

text \<open>
  C39. The two threads of \<open>task3.c\<close> cannot deadlock, every run has at most 33 steps, and
  wherever it stops both are done and the screen shows an interleaving of the seven and the four
  messages that keeps the order of each thread.
\<close>

theorem printers_interleave:
  assumes "reachable (\<lambda>s. s = main3) print_step s"
  shows "(if printers_joined s then print_screen s \<in> shuffles (messages Foo) (messages Bar) \<and> length (print_screen s) = 11
      else \<exists>s'. print_step s s') \<and>
    (\<exists>s'. print_step\<^sup>*\<^sup>* s s' \<and> printers_joined s') \<and>
    (run_of print_step ss \<longrightarrow> ss \<noteq> [] \<longrightarrow> hd ss = main3 \<longrightarrow> length ss \<le> 34)"
proof -
  have inv: "printers_inv s" by (rule pr.reachable_inv[OF assms])
  have "length (print_screen s) = 11" if "print_screen s \<in> shuffles (messages Foo) (messages Bar)"
    using length_shuffles[OF that] by simp
  moreover have "printers_rank main3 = 33" by (simp add: printers_rank_def rounds_left_def main3_def)
  ultimately show ?thesis
    using joined_output[OF inv] pr.no_deadlock[OF assms] pr.reaches_finish[OF inv] pr.run_bounded[of ss] printers_start
    by (auto simp del: messages.simps)
qed

theorem printers_interleave_witness:
  "\<exists>s'. print_step\<^sup>*\<^sup>* main3 s' \<and> printers_joined s'"
  using printers_interleave[OF reach_start[of "\<lambda>s. s = main3", OF refl]] by blast

section \<open>The socket demonstrations\<close>

text \<open>
  C40. \<open>demo.c\<close>, when its calls succeed and whatever parts \<open>write\<close> and \<open>read\<close> deliver: both
  loops end; a response shorter than its buffer of 1000000 bytes is printed as a string, and a longer one
  without a zero byte in the buffer is read beyond its end.
\<close>

theorem demo_shows_response:
  assumes "demo_ready e" and "length demo_message < fuel" and "length (d_arrivals e) + 1 < fuel"
  shows "demo_main fuel e =
    (let bs = take DEMO_TOTAL (delivered (d_arrivals e)) in
     if length bs < DEMO_TOTAL \<or> NUL \<in> set bs then Inr (c_string bs) else Inl Undefined)"
  by (rule demo_main_shows[OF assms])

theorem demo_shows_response_witness:
  "demo_main 1000 \<lparr>d_socket = 3, d_host = Some \<lparr>h_addr = [10, 0, 0, 1], h_length = 4\<rparr>, d_connect = 0,
     d_write = (\<lambda>off n. int (min n 7)), d_malloc = True, d_arrivals = [Data ''HTTP'', Data ''/1.1'', Eof]\<rparr> =
   Inr ''HTTP/1.1''"
proof -
  let ?e = "\<lparr>d_socket = 3, d_host = Some \<lparr>h_addr = [10, 0, 0, 1], h_length = 4\<rparr>, d_connect = 0,
     d_write = (\<lambda>off n. int (min n 7)), d_malloc = True, d_arrivals = [Data ''HTTP'', Data ''/1.1'', Eof]\<rparr>"
  have "demo_ready ?e" by (simp add: demo_ready_def socket_takes_def)
  moreover have "length demo_message < 1000" by (simp add: demo_message_def CRLF_def)
  ultimately show ?thesis using demo_shows_response[of ?e 1000] by (simp add: Let_def DEMO_TOTAL_def)
qed

end
